(* ===== verification/Prelude.thy ===== *)
theory Prelude
  imports Main "HOL-Library.Word"
begin

text \<open>
  What every component of the model shares: fallible computations (an exception or undefined
  behaviour of the source is an \<open>Inl\<close> value), loops that stop at the first fault, the
  standard library's \<open>getline\<close> over a stream buffer, decimal printing, the \<open>emplace\<close> of a
  map, and the two interfaces behind every invariant proof, a machine whose step keeps an
  invariant and one whose step moreover raises only the faults it is allowed to.
\<close>

subsection \<open>Fallible computations\<close>

named_theorems res_simps \<open>unfolding a fallible computation that returned\<close>

fun and_then :: "'e + 'a \<Rightarrow> ('a \<Rightarrow> 'e + 'b) \<Rightarrow> 'e + 'b" where
  "and_then (Inl e) f = Inl e"
| "and_then (Inr a) f = f a"

lemma and_then_Inr [res_simps]: "and_then r f = Inr b \<longleftrightarrow> (\<exists>a. r = Inr a \<and> f a = Inr b)"
  by (cases r) auto

lemma and_then_Inl [res_simps]:
  "and_then r f = Inl e \<longleftrightarrow> r = Inl e \<or> (\<exists>a. r = Inr a \<and> f a = Inl e)"
  by (cases r) auto

lemma and_then_assoc: "and_then (and_then r f) g = and_then r (\<lambda>a. and_then (f a) g)"
  by (cases r) auto

definition of_option :: "'e \<Rightarrow> 'a option \<Rightarrow> 'e + 'a" where
  "of_option e r = (case r of None \<Rightarrow> Inl e | Some a \<Rightarrow> Inr a)"

lemma of_option_simps [simp]:
  "of_option e None = Inl e"
  "of_option e (Some a) = Inr a"
  by (simp_all add: of_option_def)

lemma of_option_iff [res_simps]:
  "of_option e r = Inr a \<longleftrightarrow> r = Some a"
  "of_option e r = Inl f \<longleftrightarrow> r = None \<and> f = e"
  by (cases r; auto)+

lemma returned: "\<not> isl r \<Longrightarrow> \<exists>t. r = Inr t"
  by (cases r) auto

text \<open>A loop over a list that stops at the first fault.\<close>

fun fold_res :: "('x \<Rightarrow> 's \<Rightarrow> 'e + 's) \<Rightarrow> 'x list \<Rightarrow> 's \<Rightarrow> 'e + 's" where
  "fold_res f [] s = Inr s"
| "fold_res f (x # xs) s = and_then (f x s) (fold_res f xs)"

lemma fold_res_append:
  "fold_res f (xs @ ys) s = and_then (fold_res f xs s) (fold_res f ys)"
proof (induction xs arbitrary: s)
  case Nil
  then show ?case by simp
next
  case (Cons x xs)
  then show ?case by (cases "f x s") simp_all
qed

text \<open>
  A component whose operations share an invariant. Every state machine of the development
  (parser, redis client, combiner, acceptor, echo session) is an instance.
\<close>

locale machine =
  fixes step :: "'ev \<Rightarrow> 's \<Rightarrow> 'e + 's" and inv :: "'s \<Rightarrow> bool"
  assumes step_inv: "inv s \<Longrightarrow> step ev s = Inr t \<Longrightarrow> inv t"
begin

lemma run_inv: "inv s \<Longrightarrow> fold_res step evs s = Inr t \<Longrightarrow> inv t"
proof (induction evs arbitrary: s)
  case Nil
  then show ?case by simp
next
  case (Cons ev evs)
  then show ?case by (auto simp: res_simps intro: step_inv)
qed

text \<open>A relation that every step respects holds between the ends of a run.\<close>

lemma run_rel:
  assumes refl: "\<And>s. R s s" and trans: "\<And>s t u. R s t \<Longrightarrow> R t u \<Longrightarrow> R s u"
    and rel: "\<And>ev s t. inv s \<Longrightarrow> step ev s = Inr t \<Longrightarrow> R s t"
  shows "inv s \<Longrightarrow> fold_res step evs s = Inr t \<Longrightarrow> R s t"
proof (induction evs arbitrary: s)
  case Nil
  then show ?case by (simp add: refl)
next
  case (Cons ev evs)
  then obtain u where "step ev s = Inr u" "fold_res step evs u = Inr t" by (auto simp: res_simps)
  with Cons show ?case by (blast intro: trans rel step_inv)
qed

end

locale guarded_machine = machine +
  fixes allowed :: "'e \<Rightarrow> bool"
  assumes step_allowed: "inv s \<Longrightarrow> step ev s = Inl e \<Longrightarrow> allowed e"
begin

lemma run_allowed: "inv s \<Longrightarrow> fold_res step evs s = Inl e \<Longrightarrow> allowed e"
proof (induction evs arbitrary: s)
  case Nil
  then show ?case by simp
next
  case (Cons ev evs)
  then show ?case by (auto simp: res_simps intro: step_inv dest: step_allowed)
qed

end

text \<open>How an asynchronous operation ended: the two codes the program tests for, or any other.\<close>

datatype error_code = Success | Eof | Operation_aborted | Error_value nat

subsection \<open>Bytes, lines and numbers\<close>

abbreviation CR :: char where "CR \<equiv> CHR 0x0D"

abbreviation LF :: char where "LF \<equiv> CHR 0x0A"

abbreviation crlf :: string where "crlf \<equiv> [CR, LF]"

text \<open>
  \<open>std::getline(is, s)\<close> where \<open>is\<close> reads a stream buffer: the stream's good flag, the string
  before the call and the unread bytes give the flag, the string and the unread bytes after
  it. A stream that is not good leaves the string untouched; the end of the data without a
  line feed takes everything and clears the flag.
\<close>

definition getline :: "bool \<Rightarrow> string \<Rightarrow> string \<Rightarrow> bool \<times> string \<times> string" where
  "getline good s buf =
     (if \<not> good then (False, s, buf)
      else case dropWhile (\<lambda>c. c \<noteq> LF) buf of
        [] \<Rightarrow> (False, buf, [])
      | _ # rest \<Rightarrow> (True, takeWhile (\<lambda>c. c \<noteq> LF) buf, rest))"

lemma getline_line [simp]:
  "LF \<notin> set l \<Longrightarrow> getline True s (l @ LF # rest) = (True, l, rest)"
  by (auto simp: getline_def dropWhile_append takeWhile_append)

lemma getline_rest [simp]: "LF \<notin> set l \<Longrightarrow> getline True s l = (False, l, [])"
proof -
  assume "LF \<notin> set l"
  then have none: "dropWhile (\<lambda>c. c \<noteq> LF) l = []" by auto
  show ?thesis by (simp add: getline_def none)
qed

lemma getline_shrinks:
  "getline good s buf = (good', l, buf') \<Longrightarrow> length buf' \<le> length buf"
  using length_dropWhile_le [of "\<lambda>c. c \<noteq> LF" buf]
  by (auto simp: getline_def split: if_splits list.splits)

text \<open>\<open>os << n\<close> and \<open>boost::lexical_cast<std::string>(n)\<close> print an unsigned number in decimal.\<close>

definition digit :: "nat \<Rightarrow> char" where
  "digit n = char_of (48 + n)"

fun decimal :: "nat \<Rightarrow> string" where
  "decimal n = (if n < 10 then [digit n] else decimal (n div 10) @ [digit (n mod 10)])"

declare decimal.simps [simp del]

definition undigit :: "char \<Rightarrow> nat" where
  "undigit c = of_char c - 48"

definition undecimal :: "string \<Rightarrow> nat" where
  "undecimal s = foldl (\<lambda>a c. 10 * a + undigit c) 0 s"

lemma undigit_digit [simp]: "n < 10 \<Longrightarrow> undigit (digit n) = n"
  by (simp add: undigit_def digit_def)

lemma undecimal_decimal [simp]: "undecimal (decimal n) = n"
proof (induction n rule: decimal.induct)
  case (1 n)
  then show ?case by (subst decimal.simps) (auto simp: undecimal_def)
qed

lemma decimal_not_Nil [simp]: "decimal n \<noteq> []"
  by (subst decimal.simps) simp

lemma decimal_0 [simp]: "decimal 0 = ''0''"
  by code_simp

lemma decimal_inject: "decimal m = decimal n \<Longrightarrow> m = n"
  by (metis undecimal_decimal)

lemma decimal_chars: "c \<in> set (decimal n) \<Longrightarrow> \<exists>d < 10. c = digit d"
proof (induction n rule: decimal.induct)
  case (1 n)
  have "n mod 10 < 10" by simp
  with 1 show ?case by (subst (asm) (2) decimal.simps) (fastforce split: if_splits)
qed

lemma decimal_length: "n < 10 ^ k \<Longrightarrow> 0 < k \<Longrightarrow> length (decimal n) \<le> k"
proof (induction k arbitrary: n)
  case 0
  then show ?case by simp
next
  case (Suc k)
  show ?case
  proof (cases "n < 10")
    case True
    then show ?thesis by (subst decimal.simps) simp
  next
    case False
    with Suc.prems have "0 < k" by (cases k) auto
    moreover from Suc.prems have "n div 10 < 10 ^ k" by auto
    ultimately have "length (decimal (n div 10)) \<le> k" by (intro Suc.IH)
    with False show ?thesis by (subst decimal.simps) simp
  qed
qed

lemma decimal_size_t: "length (decimal (unat (w :: 64 word))) \<le> 20"
  by (rule decimal_length) (use unsigned_less [of w, where ?'a = nat] in simp_all)

subsection \<open>Containers\<close>

text \<open>\<open>emplace\<close> of a map: an existing key keeps its value.\<close>

definition emplace :: "'k \<Rightarrow> 'v \<Rightarrow> ('k \<rightharpoonup> 'v) \<Rightarrow> ('k \<rightharpoonup> 'v)" where
  "emplace k v m = (case m k of None \<Rightarrow> m(k \<mapsto> v) | Some _ \<Rightarrow> m)"

lemma emplace_apply:
  "emplace k v m j = (if j = k \<and> m k = None then Some v else m j)"
  by (auto simp: emplace_def split: option.splits)

lemma dom_emplace [simp]: "dom (emplace k v m) = insert k (dom m)"
  by (auto simp: emplace_def split: option.splits)

text \<open>Reading a vector at an index that may be out of range.\<close>

definition at :: "'a list \<Rightarrow> nat \<Rightarrow> 'a option" where
  "at xs i = (if i < length xs then Some (xs ! i) else None)"

lemma at_Some: "at xs i = Some x \<longleftrightarrow> i < length xs \<and> xs ! i = x"
  by (auto simp: at_def)

lemma at_append: "i < length xs \<Longrightarrow> at (xs @ ys) i = at xs i"
  by (simp add: at_def nth_append)

end
