(* ===== verification/Ptree.thy ===== *)
theory Ptree
  imports Prelude
begin

text \<open>
  Property trees: the configuration tree (string data) and the \<open>dptree\<close> of include/dptree.hpp
  (variant data), with the lookups and the \<open>put\<close> the program uses, and the interface
  \<open>tree_store\<close> through which the parser of the Wialon plugin sees a tree. A node is its data and
  its children in order, keys possibly repeated, as Boost documents \<open>basic_ptree\<close>.
\<close>

subsection \<open>Nodes, paths, lookup\<close>

datatype 'd ptree = Node (pt_data: 'd) (pt_children: "(string \<times> 'd ptree) list")

type_synonym config = "string ptree"

definition pt_empty :: "'d ptree \<Rightarrow> bool" where
  "pt_empty t \<longleftrightarrow> pt_children t = []"

definition pt_count :: "string \<Rightarrow> 'd ptree \<Rightarrow> nat" where
  "pt_count k t = length (filter (\<lambda>c. fst c = k) (pt_children t))"

text \<open>A path is written with dots; the empty path is the node itself.\<close>

function split_path :: "string \<Rightarrow> string list" where
  "split_path [] = []"
| "split_path (c # cs) =
     takeWhile (\<lambda>x. x \<noteq> CHR ''.'') (c # cs) #
     split_path (tl (dropWhile (\<lambda>x. x \<noteq> CHR ''.'') (c # cs)))"
  by pat_completeness auto
termination
proof (relation "measure length")
  show "(tl (dropWhile (\<lambda>x. x \<noteq> CHR ''.'') (c # cs)), c # cs) \<in> measure length" for c cs
    using length_dropWhile_le [of "\<lambda>x. x \<noteq> CHR ''.''" "c # cs"] by simp
qed simp

definition plain_key :: "string \<Rightarrow> bool" where
  "plain_key k \<longleftrightarrow> k \<noteq> [] \<and> CHR ''.'' \<notin> set k"

lemma split_path_plain [simp]: "plain_key k \<Longrightarrow> split_path k = [k]"
proof (cases k)
  case (Cons c cs)
  assume "plain_key k"
  then have all: "\<And>x. x \<in> set k \<Longrightarrow> x \<noteq> CHR ''.''" by (auto simp: plain_key_def)
  have "takeWhile (\<lambda>x. x \<noteq> CHR ''.'') k = k" using all by (simp add: takeWhile_eq_all_conv)
  moreover have "dropWhile (\<lambda>x. x \<noteq> CHR ''.'') k = []" using all by simp
  ultimately show ?thesis using Cons by (metis split_path.simps list.sel(2))
qed (simp add: plain_key_def)

fun get_child :: "string list \<Rightarrow> 'd ptree \<Rightarrow> 'd ptree option" where
  "get_child [] t = Some t"
| "get_child (k # ks) t =
     (case map_of (pt_children t) k of None \<Rightarrow> None | Some c \<Rightarrow> get_child ks c)"

definition get_child_or :: "string \<Rightarrow> 'd ptree \<Rightarrow> 'd ptree \<Rightarrow> 'd ptree" where
  "get_child_or path t dflt = (case get_child (split_path path) t of None \<Rightarrow> dflt | Some c \<Rightarrow> c)"

definition empty_ptree :: config where
  "empty_ptree = Node [] []"

text \<open>\<open>put\<close> overwrites the first child of that key, or appends a new one.\<close>

fun update_first :: "'k \<Rightarrow> 'v \<Rightarrow> ('k \<times> 'v) list \<Rightarrow> ('k \<times> 'v) list" where
  "update_first k v [] = [(k, v)]"
| "update_first k v (c # cs) = (if fst c = k then (k, v) # cs else c # update_first k v cs)"

lemma map_of_update_first [simp]:
  "map_of (update_first k v cs) = (map_of cs)(k \<mapsto> v)"
  by (induction cs) (auto simp: fun_eq_iff)

fun put_path :: "'d \<Rightarrow> string list \<Rightarrow> 'd \<Rightarrow> 'd ptree \<Rightarrow> 'd ptree" where
  "put_path dflt [] v t = Node v (pt_children t)"
| "put_path dflt (k # ks) v t =
     Node (pt_data t)
       (update_first k
          (put_path dflt ks v
             (case map_of (pt_children t) k of None \<Rightarrow> Node dflt [] | Some c \<Rightarrow> c))
          (pt_children t))"

lemma get_put_path:
  "map_option pt_data (get_child ks (put_path dflt ks v t)) = Some v"
  by (induction ks arbitrary: t) auto

subsection \<open>The data tree\<close>

text \<open>
  \<open>dptree_value\<close>, with the floating-point alternatives kept as their bit patterns (the program
  only prints them).
\<close>

datatype dptree_value =
    V_string string
  | V_int8 "8 word" | V_uint8 "8 word"
  | V_int16 "16 word" | V_uint16 "16 word"
  | V_int32 "32 word" | V_uint32 "32 word"
  | V_int64 "64 word" | V_uint64 "64 word"
  | V_float "32 word" | V_double "64 word"
  | V_bool bool

type_synonym dptree = "dptree_value ptree"

text \<open>
  The general \<open>dptree_translator\<close>: \<open>lexical_cast\<close> (a parameter: nothing when it throws) to the type asked
  for, and the constructor of the variant. A value that cannot be converted is an exception, never an
  empty optional.
\<close>

datatype bad_lexical_cast = Bad_lexical_cast

definition get_value_as :: "(dptree_value \<Rightarrow> 'e option) \<Rightarrow> dptree_value \<Rightarrow> bad_lexical_cast + 'e option" where
  "get_value_as lexc v = (case lexc v of None \<Rightarrow> Inl Bad_lexical_cast | Some e \<Rightarrow> Inr (Some e))"

definition put_value_as :: "('e \<Rightarrow> dptree_value) \<Rightarrow> 'e \<Rightarrow> dptree_value option" where
  "put_value_as internal e = Some (internal e)"

lemma put_get_value_as:
  "(\<And>e. lexc (internal e) = Some e) \<Longrightarrow> map_option (get_value_as lexc) (put_value_as internal e) = Some (Inr (Some e))"
  by (simp add: get_value_as_def put_value_as_def)

lemma get_value_as_never_empty: "get_value_as lexc v \<noteq> Inr None"
  by (simp add: get_value_as_def split: option.split)

text \<open>
  \<open>dptree_translator<std::string>::get_value\<close>: booleans by name, everything else by
  \<open>lexical_cast\<close>, a parameter (on a string it is the identity).
\<close>

fun get_value_string :: "(dptree_value \<Rightarrow> string) \<Rightarrow> dptree_value \<Rightarrow> string" where
  "get_value_string lexc (V_bool v) = (if v then ''true'' else ''false'')"
| "get_value_string lexc (V_string v) = v"
| "get_value_string lexc v = lexc v"

definition put_value_string :: "string \<Rightarrow> dptree_value" where
  "put_value_string v = V_string v"

definition dptree_new :: dptree where
  "dptree_new = Node (V_string []) []"

definition dptree_put :: "string \<Rightarrow> string \<Rightarrow> dptree \<Rightarrow> dptree" where
  "dptree_put path v t = put_path (V_string []) (split_path path) (put_value_string v) t"

definition dptree_get :: "(dptree_value \<Rightarrow> string) \<Rightarrow> dptree \<Rightarrow> string \<Rightarrow> string option" where
  "dptree_get lexc t path =
     map_option (\<lambda>c. get_value_string lexc (pt_data c)) (get_child (split_path path) t)"

subsection \<open>The interface to a tree\<close>

text \<open>
  What a client that fills a fresh tree with \<open>put\<close> and reads it with \<open>get\<close> relies on, for keys
  without a path separator.
\<close>

locale tree_store =
  fixes new :: 't and put :: "string \<Rightarrow> string \<Rightarrow> 't \<Rightarrow> 't"
    and get :: "'t \<Rightarrow> string \<Rightarrow> string option"
  assumes get_new: "plain_key k \<Longrightarrow> get new k = None"
    and get_put: "plain_key k \<Longrightarrow> plain_key j \<Longrightarrow> get (put k v t) j = (if j = k then Some v else get t j)"
begin

lemma get_put_same: "plain_key k \<Longrightarrow> get (put k v t) k = Some v"
  by (simp add: get_put)

lemma get_put_keeps: "plain_key k \<Longrightarrow> plain_key j \<Longrightarrow> get t j \<noteq> None \<Longrightarrow> get (put k v t) j \<noteq> None"
  by (simp add: get_put)

lemma get_puts:
  assumes "\<And>k. k \<in> fst ` set kvs \<Longrightarrow> plain_key k" and "plain_key j" and "distinct (map fst kvs)"
  shows "get (foldl (\<lambda>t (k, v). put k v t) t kvs) j =
    (case map_of kvs j of Some v \<Rightarrow> Some v | None \<Rightarrow> get t j)"
  using assms
proof (induction kvs arbitrary: t)
  case Nil
  then show ?case by simp
next
  case (Cons kv kvs)
  obtain k v where kv: "kv = (k, v)" by (cases kv)
  from Cons.prems kv have "plain_key k" and notin: "k \<notin> fst ` set kvs" by auto
  with Cons.prems(2) have "get (put k v t) j = (if j = k then Some v else get t j)"
    by (simp add: get_put)
  moreover from notin have "map_of kvs k = None" by (simp add: map_of_eq_None_iff)
  ultimately show ?case using Cons.IH [of "put k v t"] Cons.prems kv
    by (auto split: option.splits)
qed

end

interpretation dpt: tree_store dptree_new dptree_put "dptree_get lexc" for lexc
  by unfold_locales
    (auto simp: dptree_new_def dptree_put_def dptree_get_def put_value_string_def
      split: option.splits)

end
