(* ===== verification/Wialon.thy ===== *)
theory Wialon
  imports Ptree
begin

text \<open>
  The Wialon IPS translator (plugins/translator_wialon): the parser state of one connection, one
  definition per member function of \<open>wialon_plugin\<close>, and the invariants of the parser.

  The object's state is the record \<open>wialon_plugin\<close>. The data tree is a shared pointer that the
  parser fills and hands to the dispatchers, so the trees live in a store \<open>trees\<close> and the member
  \<open>tree_\<close> is a reference into it (\<open>None\<close> is the null pointer). Calls through \<open>api_\<close> are recorded in
  \<open>api_calls\<close>, in order; a write carries the bytes the answer buffer holds at the call. What the
  code takes from outside src/ is the record \<open>wialon_env\<close>: the tokenizer, the tree operations, the
  conversion of a field to a size, and the connection's \<open>authenticate\<close> function, which either
  calls back before it returns (\<open>Some\<close>) or later (\<open>None\<close>). Exceptions and undefined behaviour
  are the faults below.
\<close>

subsection \<open>State\<close>

datatype wialon_fault =
    Null_deref        \<comment> \<open>\<open>*tree_\<close> with no tree\<close>
  | Out_of_range      \<comment> \<open>an index or key that the table does not have\<close>
  | Bad_path          \<comment> \<open>\<open>get\<close> of a field that is not in the tree\<close>
  | Bad_data          \<comment> \<open>\<open>get<std::size_t>\<close> of a field that is no number\<close>
  | Buffer_overrun    \<comment> \<open>reading past the 32 bytes of the answer buffer\<close>
  | Empty_line        \<comment> \<open>\<open>--it\<close> on the end of an empty string\<close>

datatype state_t =
    STATE_INITIAL
  | STATE_IMEI
  | STATE_COMMAND
  | STATE_BODY
  | STATE_HASH_FIRST
  | STATE_HASH_SECOND
  | STATE_BAR
  | STATE_END
  | STATE_SKIP_TO_BAR_OR_END
  | STATE_SKIP_TO_END
  | STATE_BINARY_DATA

datatype command_t =
    COMMAND_LOGIN
  | COMMAND_DATA
  | COMMAND_PING
  | COMMAND_SHORTDATA
  | COMMAND_BLACKBOX
  | COMMAND_MESSAGE
  | COMMAND_IMAGE
  | COMMAND_COUNT

definition state_string :: "state_t \<Rightarrow> string" where
  "state_string s = (case s of
       STATE_INITIAL \<Rightarrow> ''STATE_INITIAL''
     | STATE_IMEI \<Rightarrow> ''STATE_IMEI''
     | STATE_COMMAND \<Rightarrow> ''STATE_COMMAND''
     | STATE_BODY \<Rightarrow> ''STATE_BODY''
     | STATE_HASH_FIRST \<Rightarrow> ''STATE_HASH_FIRST''
     | STATE_HASH_SECOND \<Rightarrow> ''STATE_HASH_SECOND''
     | STATE_BAR \<Rightarrow> ''STATE_BAR''
     | STATE_END \<Rightarrow> ''STATE_END''
     | STATE_SKIP_TO_BAR_OR_END \<Rightarrow> ''STATE_SKIP_TO_BAR_OR_END''
     | STATE_SKIP_TO_END \<Rightarrow> ''STATE_SKIP_TO_END''
     | STATE_BINARY_DATA \<Rightarrow> ''STATE_BINARY_DATA'')"

definition command_index :: "command_t \<Rightarrow> nat" where
  "command_index c = (case c of COMMAND_LOGIN \<Rightarrow> 0 | COMMAND_DATA \<Rightarrow> 1 | COMMAND_PING \<Rightarrow> 2
     | COMMAND_SHORTDATA \<Rightarrow> 3 | COMMAND_BLACKBOX \<Rightarrow> 4 | COMMAND_MESSAGE \<Rightarrow> 5
     | COMMAND_IMAGE \<Rightarrow> 6 | COMMAND_COUNT \<Rightarrow> 7)"

datatype api_call =
    Do_read_until string
  | Do_write string
  | Authenticate string string
  | Process_data "nat option"

record 't wialon_plugin =
  sbuf :: string
  answer_buffer :: string
  estimate :: nat
  trees :: "'t list"
  tree :: "nat option"
  multicommand :: "64 word"
  authenticated :: bool
  is_parser_error :: bool
  state :: state_t
  cmd :: string
  current_cmd :: command_t
  api_calls :: "api_call list"

record 't wialon_env =
  tokenize :: "string \<Rightarrow> string list"
  tree_new :: 't
  tree_put :: "string \<Rightarrow> string \<Rightarrow> 't \<Rightarrow> 't"
  tree_get :: "'t \<Rightarrow> string \<Rightarrow> string option"
  tree_get_size :: "'t \<Rightarrow> string \<Rightarrow> nat option"
  api_authenticate :: "string \<Rightarrow> string \<Rightarrow> bool option"

type_synonym 't wialon_result = "wialon_fault + 't wialon_plugin"

text \<open>
  The constructor sets two members; the others are what the memory held: the scalar ones and the
  answer buffer (32 bytes) are arguments here.
\<close>

definition wialon_init ::
  "string \<Rightarrow> nat \<Rightarrow> 64 word \<Rightarrow> bool \<Rightarrow> command_t \<Rightarrow> 't wialon_plugin" where
  "wialon_init buf est multi err c =
     \<lparr> sbuf = [], answer_buffer = buf, estimate = est, trees = [], tree = None,
       multicommand = multi, authenticated = False, is_parser_error = err,
       state = STATE_INITIAL, cmd = [], current_cmd = c, api_calls = [] \<rparr>"

subsection \<open>Tables\<close>

definition estimates :: "(string \<times> (nat \<times> command_t)) list" where
  "estimates =
     [(''L'',  (2,  COMMAND_LOGIN)),
      (''D'',  (16, COMMAND_DATA)),
      (''P'',  (0,  COMMAND_PING)),
      (''SD'', (10, COMMAND_SHORTDATA)),
      (''B'',  (16, COMMAND_BLACKBOX)),
      (''M'',  (1,  COMMAND_MESSAGE)),
      (''I'',  (6,  COMMAND_IMAGE))]"

text \<open>Names of the fields of a body, last field first, as \<open>fields_\<close> has them.\<close>

definition fields :: "string list list" where
  "fields =
     [[''password'', ''imei''],
      [''params'', ''ibutton'', ''adc'', ''outputs'', ''inputs'',
       ''hdop'', ''sats'', ''height'', ''course'', ''speed'',
       ''lon2'', ''lon1'', ''lat2'', ''lat1'', ''time'', ''date''],
      [],
      [''sats'', ''height'', ''course'', ''speed'',
       ''lon2'', ''lon1'', ''lat2'', ''lat1'', ''time'', ''date''],
      [''params'', ''ibutton'', ''adc'', ''outputs'', ''inputs'',
       ''hdop'', ''sats'', ''height'', ''course'', ''speed'',
       ''lon2'', ''lon1'', ''lat2'', ''lat1'', ''time'', ''date''],
      [''message''],
      [''name'', ''time'', ''date'', ''count'', ''ind'', ''sz'']]"

text \<open>\<open>fields_[c][i]\<close>, undefined outside the table.\<close>

definition field_at :: "command_t \<Rightarrow> nat \<Rightarrow> string option" where
  "field_at c i = Option.bind (at fields (command_index c)) (\<lambda>names. at names i)"

subsection \<open>Answers and callbacks\<close>

text \<open>
  \<open>answer\<close> writes the reply over the front of the answer buffer and starts writing that many
  bytes of it. A reply longer than the buffer makes the copy into \<open>reply\<close> read past its end.
\<close>

definition reply_text :: "string \<Rightarrow> string \<Rightarrow> string" where
  "reply_text command msg = ''#A'' @ command @ ''#'' @ msg @ crlf"

definition answer :: "string \<Rightarrow> 't wialon_plugin \<Rightarrow> 't wialon_result" where
  "answer msg s =
     (let size = 2 + length (cmd s) + 1 + length msg + 2 in
      if 32 < size then Inl Buffer_overrun
      else
        (let buffer = reply_text (cmd s) msg @ drop size (answer_buffer s) in
         Inr (s\<lparr>answer_buffer := buffer, api_calls := api_calls s @ [Do_write (take size buffer)]\<rparr>)))"

definition handle_authenticate :: "bool \<Rightarrow> 't wialon_plugin \<Rightarrow> 't wialon_result" where
  "handle_authenticate ok s =
     (let s1 = s\<lparr>state := STATE_INITIAL\<rparr> in
      if ok then answer ''1'' (s1\<lparr>authenticated := True\<rparr>)
      else answer ''01'' s1)"

definition handle_process_data :: "bool \<Rightarrow> 't wialon_plugin \<Rightarrow> 't wialon_result" where
  "handle_process_data ok s =
     (if current_cmd s = COMMAND_BLACKBOX then
        Inr (s\<lparr>multicommand := multicommand s + 1\<rparr>)
      else if ok then answer ''1'' s
      else if current_cmd s = COMMAND_DATA \<or> current_cmd s = COMMAND_SHORTDATA then answer ''-1'' s
      else answer ''0'' s)"

text \<open>\<open>store_data\<close> hands the shared tree to the router; the answer comes by callback.\<close>

definition store_data :: "'t wialon_plugin \<Rightarrow> 't wialon_plugin" where
  "store_data s = s\<lparr>api_calls := api_calls s @ [Process_data (tree s)]\<rparr>"

subsection \<open>Errors, end of a command\<close>

definition parser_error :: "'t wialon_plugin \<Rightarrow> 't wialon_plugin" where
  "parser_error s = s\<lparr>is_parser_error := True\<rparr>"

definition unexpected_token :: "'t wialon_plugin \<Rightarrow> 't wialon_plugin" where
  "unexpected_token s = parser_error s"

text \<open>
  \<open>authenticate\<close> of the connection: the call is recorded, and the callback runs now when the
  connection calls back before it returns.
\<close>

definition call_authenticate ::
  "'t wialon_env \<Rightarrow> string \<Rightarrow> string \<Rightarrow> 't wialon_plugin \<Rightarrow> 't wialon_result" where
  "call_authenticate E login pass s =
     (let s1 = s\<lparr>api_calls := api_calls s @ [Authenticate login pass]\<rparr> in
      case api_authenticate E login pass of
        None \<Rightarrow> Inr s1
      | Some ok \<Rightarrow> handle_authenticate ok s1)"

definition commit_login :: "'t wialon_env \<Rightarrow> 't \<Rightarrow> 't wialon_plugin \<Rightarrow> 't wialon_result" where
  "commit_login E t s =
     (if is_parser_error s then answer ''0'' s
      else
        and_then (of_option Bad_path (tree_get E t ''imei'')) (\<lambda>login.
        and_then (of_option Bad_path (tree_get E t ''password'')) (\<lambda>pass.
        call_authenticate E login pass s)))"

definition commit_command :: "'t wialon_env \<Rightarrow> 't wialon_plugin \<Rightarrow> 't wialon_result" where
  "commit_command E s =
     (case tree s of
        None \<Rightarrow> Inl Null_deref
      | Some r \<Rightarrow>
        (case current_cmd s of
           COMMAND_LOGIN \<Rightarrow> commit_login E (trees s ! r) s
         | COMMAND_SHORTDATA \<Rightarrow> Inr (store_data s)
         | COMMAND_DATA \<Rightarrow> Inr (store_data s)
         | COMMAND_PING \<Rightarrow> answer [] s
         | COMMAND_MESSAGE \<Rightarrow> Inr (store_data s)
         | COMMAND_BLACKBOX \<Rightarrow> answer (decimal (unat (multicommand s))) s
         | COMMAND_IMAGE \<Rightarrow>
             and_then (of_option Bad_path (tree_get E (trees s ! r) ''sz'')) (\<lambda>_.
             and_then (of_option Bad_data (tree_get_size E (trees s ! r) ''sz'')) (\<lambda>n.
             Inr (s\<lparr>state := STATE_BINARY_DATA, estimate := n\<rparr>)))
         | COMMAND_COUNT \<Rightarrow> Inr s))"

subsection \<open>Tokens\<close>

text \<open>A fresh tree: a new object of the store, and the reference to it.\<close>

definition new_tree :: "'t wialon_env \<Rightarrow> 't wialon_plugin \<Rightarrow> 't wialon_plugin" where
  "new_tree E s = s\<lparr>trees := trees s @ [tree_new E], tree := Some (length (trees s))\<rparr>"

text \<open>The end of a message, the token made of CR and LF.\<close>

definition consume_eol :: "'t wialon_env \<Rightarrow> 't wialon_plugin \<Rightarrow> 't wialon_result" where
  "consume_eol E s =
     and_then
       (case state s of
          STATE_BODY \<Rightarrow>
            if current_cmd s \<noteq> COMMAND_BLACKBOX then commit_command E (parser_error s)
            else commit_command E (store_data s)
        | STATE_BAR \<Rightarrow> commit_command E (store_data s)
        | STATE_SKIP_TO_BAR_OR_END \<Rightarrow> commit_command E s
        | STATE_COMMAND \<Rightarrow> Inr (unexpected_token s)
        | STATE_HASH_FIRST \<Rightarrow> Inr (unexpected_token s)
        | STATE_HASH_SECOND \<Rightarrow> Inr (unexpected_token s)
        | STATE_END \<Rightarrow> commit_command E s
        | _ \<Rightarrow> Inr s)
       (\<lambda>s'. Inr (s'\<lparr>state := STATE_INITIAL\<rparr>))"

definition start_message :: "'t wialon_env \<Rightarrow> 't wialon_plugin \<Rightarrow> 't wialon_plugin" where
  "start_message E s =
     (new_tree E s)\<lparr>is_parser_error := False, multicommand := 0, cmd := ''<not initialized>''\<rparr>"

definition consume_command :: "string \<Rightarrow> 't wialon_plugin \<Rightarrow> 't wialon_plugin" where
  "consume_command tok s =
     (let s1 = s\<lparr>cmd := tok\<rparr> in
      case map_of estimates tok of
        None \<Rightarrow> parser_error (s1\<lparr>state := STATE_SKIP_TO_END\<rparr>)
      | Some (n, c) \<Rightarrow>
          (let s2 = s1\<lparr>estimate := n, current_cmd := c\<rparr> in
           if \<not> authenticated s2 \<and> c \<noteq> COMMAND_LOGIN then s2\<lparr>state := STATE_SKIP_TO_END\<rparr>
           else s2\<lparr>state := STATE_HASH_SECOND\<rparr>))"

text \<open>\<open>tree_->put(fields_[current_cmd_][--estimate_], tok)\<close>\<close>

definition put_field :: "'t wialon_env \<Rightarrow> string \<Rightarrow> 't wialon_plugin \<Rightarrow> 't wialon_result" where
  "put_field E tok s =
     (let i = estimate s - 1 in
      case field_at (current_cmd s) i of
        None \<Rightarrow> Inl Out_of_range
      | Some name \<Rightarrow>
          (case tree s of
             None \<Rightarrow> Inl Null_deref
           | Some r \<Rightarrow>
               Inr (s\<lparr>estimate := i, trees := (trees s)[r := tree_put E name tok (trees s ! r)]\<rparr>)))"

definition consume_body :: "'t wialon_env \<Rightarrow> string \<Rightarrow> 't wialon_plugin \<Rightarrow> 't wialon_result" where
  "consume_body E tok s =
     (if current_cmd s = COMMAND_BLACKBOX \<and> tok = ''|'' then
        (case map_of estimates (cmd s) of
           None \<Rightarrow> Inl Out_of_range
         | Some (n, c) \<Rightarrow> Inr (new_tree E ((store_data s)\<lparr>estimate := n, current_cmd := c\<rparr>)))
      else
        and_then (if estimate s \<noteq> 0 then put_field E tok s else Inr s) (\<lambda>s1.
        Inr (if estimate s1 = 0
             then s1\<lparr>state := if current_cmd s1 \<noteq> COMMAND_BLACKBOX then STATE_END else STATE_BAR\<rparr>
             else s1)))"

definition consume_token :: "'t wialon_env \<Rightarrow> string \<Rightarrow> 't wialon_plugin \<Rightarrow> 't wialon_result" where
  "consume_token E tok s =
     (if tok = crlf then consume_eol E s
      else case state s of
        STATE_INITIAL \<Rightarrow> Inr ((start_message E s)\<lparr>state := STATE_HASH_FIRST\<rparr>)
      | STATE_IMEI \<Rightarrow> Inr (s\<lparr>state := STATE_HASH_FIRST\<rparr>)
      | STATE_COMMAND \<Rightarrow> Inr (consume_command tok s)
      | STATE_BODY \<Rightarrow> consume_body E tok s
      | STATE_HASH_FIRST \<Rightarrow>
          Inr (if tok = ''#'' then s\<lparr>state := STATE_COMMAND\<rparr>
               else unexpected_token (s\<lparr>state := STATE_SKIP_TO_END\<rparr>))
      | STATE_HASH_SECOND \<Rightarrow>
          Inr (if tok = ''#'' then s\<lparr>state := STATE_BODY\<rparr>
               else unexpected_token (s\<lparr>state := STATE_SKIP_TO_END\<rparr>))
      | STATE_BAR \<Rightarrow>
          Inr (store_data
                (if tok \<noteq> ''|'' then unexpected_token (s\<lparr>state := STATE_SKIP_TO_BAR_OR_END\<rparr>)
                 else s\<lparr>state := STATE_BODY\<rparr>))
      | STATE_SKIP_TO_BAR_OR_END \<Rightarrow> Inr (if tok = ''|'' then s\<lparr>state := STATE_BODY\<rparr> else s)
      | STATE_END \<Rightarrow> Inr (unexpected_token (s\<lparr>state := STATE_SKIP_TO_END\<rparr>))
      | _ \<Rightarrow> Inr s)"

definition parse_string :: "'t wialon_env \<Rightarrow> string \<Rightarrow> 't wialon_plugin \<Rightarrow> 't wialon_result" where
  "parse_string E msg s = fold_res (consume_token E) (tokenize E msg) s"

subsection \<open>Reading\<close>

text \<open>
  The loop of \<open>handle_read\<close> over the stream's flag, the unread bytes and the message so far:
  \<open>None\<close> is the early return on an empty buffer. After each \<open>getline\<close> the code also consumes as
  many bytes again as the line has, and one more.
\<close>

lemma drop_line_shrinks:
  "buf \<noteq> [] \<Longrightarrow> length rest \<le> length buf \<Longrightarrow> length rest - Suc n < length buf"
  by (cases buf) auto

function read_message ::
  "bool \<Rightarrow> string \<Rightarrow> string \<Rightarrow> wialon_fault + (string option \<times> string)" where
  "read_message good buf msg =
     (if buf = [] then Inr (None, buf)
      else case getline good [] buf of
        (good', tmp, buf1) \<Rightarrow>
          (let buf2 = drop (length tmp + 1) buf1 in
           if tmp = [] then Inl Empty_line
           else if last tmp = CR then Inr (Some (msg @ butlast tmp), buf2)
           else read_message good' buf2 (msg @ tmp @ [LF])))"
  by pat_completeness auto
termination
  by (relation "measure (\<lambda>(good, buf, msg). length buf)")
    (auto dest!: getline_shrinks [OF sym] intro: drop_line_shrinks)

declare read_message.simps [simp del]

definition handle_start :: "'t wialon_plugin \<Rightarrow> 't wialon_plugin" where
  "handle_start s = s\<lparr>api_calls := api_calls s @ [Do_read_until crlf]\<rparr>"

definition handle_read :: "'t wialon_env \<Rightarrow> 't wialon_plugin \<Rightarrow> 't wialon_result" where
  "handle_read E s =
     and_then (read_message True (sbuf s) []) (\<lambda>(msg, buf).
     (let s1 = s\<lparr>sbuf := buf\<rparr> in
      case msg of
        None \<Rightarrow> Inr s1
      | Some m \<Rightarrow>
          and_then (parse_string E m s1) (\<lambda>s2.
          and_then (consume_token E crlf s2) (\<lambda>s3.
          Inr (if state s3 \<noteq> STATE_BINARY_DATA
               then s3\<lparr>api_calls := api_calls s3 @ [Do_read_until crlf]\<rparr> else s3)))))"

definition handle_write :: "'t wialon_plugin \<Rightarrow> 't wialon_plugin" where
  "handle_write s = s"

text \<open>
  The calls the plugin receives: the start, a completed read (the bytes it appended to the stream
  buffer, then the handler), a completed write, and the two callbacks.
\<close>

datatype wialon_event =
    Started
  | Read_done string
  | Write_done
  | Auth_done bool
  | Data_done bool

fun wialon_step :: "'t wialon_env \<Rightarrow> wialon_event \<Rightarrow> 't wialon_plugin \<Rightarrow> 't wialon_result" where
  "wialon_step E Started s = Inr (handle_start s)"
| "wialon_step E (Read_done bytes) s = handle_read E (s\<lparr>sbuf := sbuf s @ bytes\<rparr>)"
| "wialon_step E Write_done s = Inr (handle_write s)"
| "wialon_step E (Auth_done ok) s = handle_authenticate ok s"
| "wialon_step E (Data_done ok) s = handle_process_data ok s"

abbreviation wialon_run ::
  "'t wialon_env \<Rightarrow> wialon_event list \<Rightarrow> 't wialon_plugin \<Rightarrow> 't wialon_result" where
  "wialon_run E \<equiv> fold_res (wialon_step E)"

end
