(* ===== verification/Wialon_Env.thy ===== *)
theory Wialon_Env
  imports Wialon
begin

text \<open>
  What the Wialon parser relies on outside its own code: the laws of the tokenizer as an
  interface, a reference tokenizer that obeys them, and an environment built from it and the
  data trees of theory Ptree.
\<close>

subsection \<open>The tokenizer\<close>

text \<open>
  \<open>boost::tokenizer\<close> over \<open>char_separator(";", "#|", keep_empty_tokens)\<close>, as documented: text up
  to the next separator is a token, empty or not; a semicolon is dropped and a hash or a bar is
  a token of its own. An empty text has no token, but behind a separator it has one, the empty one.
\<close>

abbreviation dropped_sep :: "char \<Rightarrow> bool" where
  "dropped_sep c \<equiv> c = CHR '';''"

abbreviation kept_sep :: "char \<Rightarrow> bool" where
  "kept_sep c \<equiv> c = CHR ''#'' \<or> c = CHR ''|''"

definition sep_free :: "string \<Rightarrow> bool" where
  "sep_free w \<longleftrightarrow> (\<forall>c \<in> set w. \<not> dropped_sep c \<and> \<not> kept_sep c)"

text \<open>The fields of a body, written with semicolons between them.\<close>

fun join_fields :: "string list \<Rightarrow> string" where
  "join_fields [] = []"
| "join_fields [w] = w"
| "join_fields (w # v # ws) = w @ CHR '';'' # join_fields (v # ws)"

lemma join_fields_chars: "c \<in> set (join_fields ws) \<Longrightarrow> c = CHR '';'' \<or> (\<exists>w \<in> set ws. c \<in> set w)"
  by (induction ws rule: join_fields.induct) auto

text \<open>A text with a line end in it; a list of tokens in which every hash is followed by one with \<open>P\<close>.\<close>

fun has_crlf :: "string \<Rightarrow> bool" where
  "has_crlf [] \<longleftrightarrow> False"
| "has_crlf (c # cs) \<longleftrightarrow> c = CR \<and> cs \<noteq> [] \<and> hd cs = LF \<or> has_crlf cs"

lemma has_crlf_append:
  "has_crlf (xs @ ys) \<longleftrightarrow> has_crlf xs \<or> has_crlf ys \<or> xs \<noteq> [] \<and> ys \<noteq> [] \<and> last xs = CR \<and> hd ys = LF"
  by (induction xs) auto

fun follows_hash :: "(string \<Rightarrow> bool) \<Rightarrow> string list \<Rightarrow> bool" where
  "follows_hash P [] \<longleftrightarrow> True"
| "follows_hash P (t # ts) \<longleftrightarrow> (t = ''#'' \<longrightarrow> ts \<noteq> [] \<and> P (hd ts)) \<and> follows_hash P ts"

lemma follows_hash_append: "follows_hash P xs \<Longrightarrow> follows_hash P ys \<Longrightarrow> follows_hash P (xs @ ys)"
  by (induction xs) auto

text \<open>The tokens of a text behind a separator.\<close>

definition pieces :: "(string \<Rightarrow> string list) \<Rightarrow> string \<Rightarrow> string list" where
  "pieces tok s = (if s = [] then [[]] else tok s)"

locale tokenizer =
  fixes tok :: "string \<Rightarrow> string list"
  assumes tok_empty: "tok [] = []"
    and tok_last: "sep_free w \<Longrightarrow> w \<noteq> [] \<Longrightarrow> tok w = [w]"
    and tok_dropped: "sep_free w \<Longrightarrow> tok (w @ CHR '';'' # rest) = w # pieces tok rest"
    and tok_kept: "sep_free w \<Longrightarrow> kept_sep c \<Longrightarrow> tok (w @ c # rest) = w # [c] # pieces tok rest"
begin

lemma pieces_simps:
  "sep_free w \<Longrightarrow> pieces tok w = [w]"
  "sep_free w \<Longrightarrow> pieces tok (w @ CHR '';'' # rest) = w # pieces tok rest"
  "sep_free w \<Longrightarrow> kept_sep c \<Longrightarrow> pieces tok (w @ c # rest) = w # [c] # pieces tok rest"
  using tok_last [of w] tok_dropped [of w rest] tok_kept [of w c rest] by (auto simp: pieces_def)

text \<open>Every text is a word without separators, or such a word, a separator and a shorter text.\<close>

lemma text_cases:
  obtains (word) "sep_free s"
  | (dropped) w rest where "s = w @ CHR '';'' # rest" "sep_free w"
  | (kept) w c rest where "s = w @ c # rest" "sep_free w" "kept_sep c"
proof (cases "sep_free s")
  case False
  then have "\<exists>c \<in> set s. dropped_sep c \<or> kept_sep c" by (auto simp: sep_free_def)
  then obtain w c rest where "s = w @ c # rest" "dropped_sep c \<or> kept_sep c"
      "\<forall>x \<in> set w. \<not> (dropped_sep x \<or> kept_sep x)"
    using split_list_first_prop [of s "\<lambda>c. dropped_sep c \<or> kept_sep c"] by auto
  then show ?thesis using dropped kept by (fastforce simp: sep_free_def)
qed (rule word)

lemma piece_chars: "t \<in> set (pieces tok s) \<Longrightarrow> set t \<subseteq> set s"
proof (induction "length s" arbitrary: s rule: less_induct)
  case less
  show ?case
  proof (cases s rule: text_cases)
    case word
    with less.prems show ?thesis by (simp add: pieces_simps)
  next
    case (dropped w rest)
    with less.prems less.hyps [of rest] show ?thesis by (auto simp: pieces_simps)
  next
    case (kept w c rest)
    with less.prems less.hyps [of rest] show ?thesis by (auto simp: pieces_simps)
  qed
qed

lemma piece_no_crlf: "LF \<notin> set s \<Longrightarrow> crlf \<notin> set (pieces tok s)"
  using piece_chars [of crlf s] by auto

lemma tokens_pieces: "set (tok s) \<subseteq> set (pieces tok s)"
  using tok_empty by (auto simp: pieces_def)

lemma token_no_crlf: "LF \<notin> set s \<Longrightarrow> crlf \<notin> set (tok s)"
  using piece_no_crlf tokens_pieces by blast

text \<open>A hash is never the last token, and what follows it is a part of the text.\<close>

lemma pieces_follow:
  assumes "\<not> has_crlf s"
  shows "follows_hash (\<lambda>t. t \<noteq> crlf) (pieces tok s) \<and> pieces tok s \<noteq> [] \<and> hd (pieces tok s) \<noteq> crlf"
  using assms
proof (induction "length s" arbitrary: s rule: less_induct)
  case less
  have plain: "w \<noteq> ''#'' \<and> w \<noteq> crlf" if "sep_free w" "\<not> has_crlf w" for w
  proof -
    have "\<not> sep_free ''#''" "has_crlf crlf" by (simp_all add: sep_free_def)
    with that show ?thesis by blast
  qed
  show ?case
  proof (cases s rule: text_cases)
    case word
    with less.prems plain [of s] show ?thesis by (simp add: pieces_simps)
  next
    case (dropped w rest)
    with less.prems have "\<not> has_crlf rest" "\<not> has_crlf w" by (auto simp: has_crlf_append)
    with dropped less.hyps [of rest] plain [of w] show ?thesis by (simp add: pieces_simps)
  next
    case (kept w c rest)
    with less.prems have "\<not> has_crlf rest" "\<not> has_crlf w" by (auto simp: has_crlf_append)
    with kept less.hyps [of rest] plain [of w] show ?thesis by (simp add: pieces_simps)
  qed
qed

lemma tokens_follow:
  assumes "\<not> has_crlf s"
  shows "follows_hash (\<lambda>t. t \<noteq> crlf) (tok s)"
  using pieces_follow [OF assms] by (cases "s = []") (simp_all add: pieces_def tok_empty)

text \<open>Words joined by semicolons come back one by one.\<close>

lemma pieces_join: "ws \<noteq> [] \<Longrightarrow> \<forall>w \<in> set ws. sep_free w \<Longrightarrow> pieces tok (join_fields ws) = ws"
  by (induction ws rule: join_fields.induct) (simp_all add: pieces_simps)

lemma pieces_join_kept:
  "ws \<noteq> [] \<Longrightarrow> \<forall>w \<in> set ws. sep_free w \<Longrightarrow> kept_sep c \<Longrightarrow>
    pieces tok (join_fields ws @ c # rest) = ws @ [c] # pieces tok rest"
proof (induction ws rule: join_fields.induct)
  case (3 w v ws)
  then show ?case using pieces_simps(2) [of w "join_fields (v # ws) @ c # rest"] by simp
qed (simp_all add: pieces_simps)

text \<open>The head of a message: nothing, a hash, the command, a hash.\<close>

lemma tok_message:
  assumes "sep_free command"
  shows "tok (''#'' @ command @ ''#'' @ body) = [] # ''#'' # command # ''#'' # pieces tok body"
  using assms tok_kept [of "[]" "CHR ''#''" "command @ ''#'' @ body"]
    pieces_simps(3) [of command "CHR ''#''" body]
  by (simp add: sep_free_def)

end

fun split_tokens :: "string \<Rightarrow> string \<Rightarrow> string list" where
  "split_tokens w [] = [w]"
| "split_tokens w (c # cs) =
     (if dropped_sep c then w # split_tokens [] cs
      else if kept_sep c then w # [c] # split_tokens [] cs
      else split_tokens (w @ [c]) cs)"

lemma split_tokens_word: "sep_free v \<Longrightarrow> split_tokens w (v @ s) = split_tokens (w @ v) s"
  by (induction v arbitrary: w) (simp_all add: sep_free_def)

lemma split_tokens_whole: "sep_free v \<Longrightarrow> split_tokens w v = [w @ v]"
  using split_tokens_word [of v w "[]"] by simp

definition split_line :: "string \<Rightarrow> string list" where
  "split_line s = (if s = [] then [] else split_tokens [] s)"

lemma pieces_split_line: "pieces split_line s = split_tokens [] s"
  by (simp add: pieces_def split_line_def)

interpretation split_tok: tokenizer split_line
  by unfold_locales (auto simp: pieces_split_line split_line_def split_tokens_whole split_tokens_word)

subsection \<open>A concrete environment\<close>

definition read_size :: "string \<Rightarrow> nat option" where
  "read_size s = (if s \<noteq> [] \<and> (\<forall>c \<in> set s. c \<in> set ''0123456789'') then Some (undecimal s) else None)"

definition sample_env :: "(string \<Rightarrow> string \<Rightarrow> bool option) \<Rightarrow> dptree wialon_env" where
  "sample_env auth =
     \<lparr> tokenize = split_line, tree_new = dptree_new, tree_put = dptree_put,
       tree_get = dptree_get (\<lambda>_. []),
       tree_get_size = (\<lambda>t k. Option.bind (dptree_get (\<lambda>_. []) t k) read_size),
       api_authenticate = auth \<rparr>"

end
