(* ===== verification/Wialon_Inv.thy ===== *)
theory Wialon_Inv
  imports Wialon_Env
begin

text \<open>
  The invariant of the Wialon parser, kept by every token and every call the plugin receives, and
  which faults can happen. Lemmas about the tables come first, then one preservation lemma per
  operation; the two machines of the parser (tokens, calls) are instances of \<open>guarded_machine\<close>.
\<close>

subsection \<open>The tables agree\<close>

abbreviation field_names :: "command_t \<Rightarrow> string list" where
  "field_names c \<equiv> fields ! command_index c"

lemma estimates_cases:
  assumes "map_of estimates k = Some (n, c)"
  obtains "k = ''L''" "n = 2" "c = COMMAND_LOGIN"
  | "k = ''D''" "n = 16" "c = COMMAND_DATA"
  | "k = ''P''" "n = 0" "c = COMMAND_PING"
  | "k = ''SD''" "n = 10" "c = COMMAND_SHORTDATA"
  | "k = ''B''" "n = 16" "c = COMMAND_BLACKBOX"
  | "k = ''M''" "n = 1" "c = COMMAND_MESSAGE"
  | "k = ''I''" "n = 6" "c = COMMAND_IMAGE"
  using assms by (simp add: estimates_def split: if_splits)

lemma estimates_length: "map_of estimates k = Some (n, c) \<Longrightarrow> length (field_names c) = n"
  by (elim estimates_cases) (simp_all add: fields_def command_index_def)

lemma estimates_index: "map_of estimates k = Some (n, c) \<Longrightarrow> command_index c < length fields"
  by (elim estimates_cases) (simp_all add: fields_def command_index_def)

lemma estimates_key_length: "map_of estimates k = Some (n, c) \<Longrightarrow> length k \<le> 2"
  by (elim estimates_cases) simp_all

lemma estimates_key_sep_free: "map_of estimates k = Some (n, c) \<Longrightarrow> sep_free k"
  by (elim estimates_cases) (simp_all add: sep_free_def)

lemma field_at_estimate:
  "map_of estimates k = Some (n, c) \<Longrightarrow> i < n \<Longrightarrow> field_at c i = Some (field_names c ! i)"
  using estimates_length estimates_index by (auto simp: field_at_def at_def)

lemma field_names_plain: "map_of estimates k = Some (n, c) \<Longrightarrow> f \<in> set (field_names c) \<Longrightarrow> plain_key f"
  by (elim estimates_cases) (auto simp: fields_def command_index_def plain_key_def)

lemma field_names_distinct: "map_of estimates k = Some (n, c) \<Longrightarrow> distinct (field_names c)"
  by (elim estimates_cases) (simp_all add: fields_def command_index_def)

subsection \<open>The invariant\<close>

definition body_state :: "state_t \<Rightarrow> bool" where
  "body_state st \<longleftrightarrow> st \<in> {STATE_HASH_SECOND, STATE_BODY, STATE_BAR, STATE_END, STATE_SKIP_TO_BAR_OR_END}"

definition published :: "'t wialon_plugin \<Rightarrow> nat set" where
  "published s = {r. Process_data (Some r) \<in> set (api_calls s)}"

text \<open>
  The reference points into the store once a message started; inside a body the command is one of
  the table, its remaining count fits its fields, it is \<open>LOGIN\<close> unless the client logged in, and
  the fields already consumed are in the tree; a bar state is a finished black box record; a tree
  that may still be written has not been handed out; and data was handed out only after a login.
\<close>

definition tree_ok :: "'t wialon_plugin \<Rightarrow> bool" where
  "tree_ok s \<longleftrightarrow>
     (\<forall>r. tree s = Some r \<longrightarrow> r < length (trees s)) \<and>
     (state s \<noteq> STATE_INITIAL \<longrightarrow> tree s \<noteq> None) \<and>
     (\<forall>r \<in> published s. r < length (trees s))"

definition command_ok :: "'t wialon_plugin \<Rightarrow> bool" where
  "command_ok s \<longleftrightarrow>
     (\<exists>n. map_of estimates (cmd s) = Some (n, current_cmd s) \<and> estimate s \<le> n) \<and>
     (authenticated s \<or> current_cmd s = COMMAND_LOGIN) \<and>
     (state s \<in> {STATE_BAR, STATE_SKIP_TO_BAR_OR_END} \<longrightarrow>
        current_cmd s = COMMAND_BLACKBOX \<and> estimate s = 0) \<and>
     (state s = STATE_END \<longrightarrow> current_cmd s \<noteq> COMMAND_BLACKBOX \<and> estimate s = 0)"

definition fields_ok :: "'t wialon_env \<Rightarrow> 't wialon_plugin \<Rightarrow> bool" where
  "fields_ok E s \<longleftrightarrow>
     (\<forall>i < length (field_names (current_cmd s)). estimate s \<le> i \<longrightarrow>
        (\<forall>r. tree s = Some r \<longrightarrow> tree_get E (trees s ! r) (field_names (current_cmd s) ! i) \<noteq> None))"

definition private_ok :: "'t wialon_plugin \<Rightarrow> bool" where
  "private_ok s \<longleftrightarrow>
     (state s \<in> {STATE_HASH_FIRST, STATE_COMMAND, STATE_HASH_SECOND} \<or>
      state s = STATE_BODY \<and> estimate s \<noteq> 0 \<longrightarrow>
        (\<forall>r. tree s = Some r \<longrightarrow> r \<notin> published s))"

definition login_ok :: "'t wialon_plugin \<Rightarrow> bool" where
  "login_ok s \<longleftrightarrow> authenticated s \<or> (\<forall>r. Process_data r \<notin> set (api_calls s))"

definition parser_inv :: "'t wialon_env \<Rightarrow> 't wialon_plugin \<Rightarrow> bool" where
  "parser_inv E s \<longleftrightarrow>
     state s \<noteq> STATE_IMEI \<and> state s \<noteq> STATE_BINARY_DATA \<and> tree_ok s \<and> private_ok s \<and> login_ok s \<and>
     (body_state (state s) \<longrightarrow> command_ok s \<and> fields_ok E s)"

text \<open>An image whose body begun has its first field, the size.\<close>

definition body_begun :: "'t wialon_plugin \<Rightarrow> bool" where
  "body_begun s \<longleftrightarrow> (state s = STATE_BODY \<and> current_cmd s = COMMAND_IMAGE \<longrightarrow> estimate s < 6)"

lemmas parser_inv_defs =
  parser_inv_def tree_ok_def private_ok_def command_ok_def fields_ok_def body_state_def published_def
  login_ok_def

text \<open>Between two calls the parser is at the start of a message.\<close>

definition idle_inv :: "'t wialon_plugin \<Rightarrow> bool" where
  "idle_inv s \<longleftrightarrow> state s = STATE_INITIAL \<and> tree_ok s \<and> login_ok s"

lemma idle_parser_inv: "idle_inv s \<Longrightarrow> parser_inv E s"
  by (simp add: idle_inv_def parser_inv_defs)

lemma parser_idle_inv: "parser_inv E s \<Longrightarrow> state s = STATE_INITIAL \<Longrightarrow> idle_inv s"
  by (simp add: idle_inv_def parser_inv_def)

lemma idle_init: "idle_inv (wialon_init buf est multi err c)"
  by (simp add: idle_inv_def wialon_init_def tree_ok_def login_ok_def published_def)

subsection \<open>What an operation leaves alone\<close>

text \<open>
  The data of the parser: the trees, the reference, what was published. Answers and the login
  call change none of it.
\<close>

definition same_trees :: "'t wialon_plugin \<Rightarrow> 't wialon_plugin \<Rightarrow> bool" where
  "same_trees s t \<longleftrightarrow> trees t = trees s \<and> tree t = tree s \<and> published t = published s"

lemma answer_Inr:
  assumes "answer msg s = Inr t"
  shows "same_trees s t" "state t = state s" "cmd t = cmd s" "authenticated t = authenticated s"
    "sbuf t = sbuf s"
  using assms by (auto simp: answer_def Let_def same_trees_def published_def split: if_splits)

lemma answer_fault: "answer msg s = Inl e \<Longrightarrow> e = Buffer_overrun"
  by (auto simp: answer_def Let_def split: if_splits)

lemma answer_fits: "length (cmd s) + length msg \<le> 27 \<Longrightarrow> answer msg s \<noteq> Inl e"
  by (auto simp: answer_def Let_def)

lemma handle_authenticate_Inr:
  assumes "handle_authenticate ok s = Inr t"
  shows "same_trees s t" "state t = STATE_INITIAL" "authenticated t = (authenticated s \<or> ok)"
    "sbuf t = sbuf s"
  using assms
  by (auto simp: handle_authenticate_def Let_def same_trees_def published_def answer_def split: if_splits)

lemma handle_authenticate_fault: "handle_authenticate ok s = Inl e \<Longrightarrow> e = Buffer_overrun"
  by (auto simp: handle_authenticate_def Let_def dest: answer_fault split: if_splits)

lemma handle_authenticate_fits: "length (cmd s) \<le> 25 \<Longrightarrow> handle_authenticate ok s \<noteq> Inl e"
  by (simp add: handle_authenticate_def Let_def answer_fits)

lemma handle_process_data_Inr:
  assumes "handle_process_data ok s = Inr t"
  shows "same_trees s t" "state t = state s" "authenticated t = authenticated s" "sbuf t = sbuf s"
  using assms
  by (auto simp: handle_process_data_def same_trees_def published_def answer_def Let_def split: if_splits)

lemma handle_process_data_fault: "handle_process_data ok s = Inl e \<Longrightarrow> e = Buffer_overrun"
  by (auto simp: handle_process_data_def dest: answer_fault split: if_splits)

lemma commit_login_Inr:
  assumes "commit_login E u s = Inr t"
  shows "same_trees s t \<and> sbuf t = sbuf s"
proof (cases "is_parser_error s")
  case True
  with assms answer_Inr [of "''0''" s t] show ?thesis by (simp add: commit_login_def)
next
  case False
  with assms obtain login pass where "call_authenticate E login pass s = Inr t"
    by (auto simp: commit_login_def and_then_Inr)
  then show ?thesis
    using handle_authenticate_Inr [of _ "s\<lparr>api_calls := api_calls s @ [Authenticate login pass]\<rparr>" t]
    by (auto simp: call_authenticate_def Let_def same_trees_def published_def split: option.splits)
qed

lemma published_store: "published (store_data s) = published s \<union> set_option (tree s)"
  by (auto simp: published_def store_data_def)

lemma published_frame:
  "published (s\<lparr>state := st\<rparr>) = published s"
  "published (s\<lparr>state := st, estimate := n\<rparr>) = published s"
  "published (parser_error s) = published s"
  by (simp_all add: published_def parser_error_def)

lemma store_data_frame:
  "trees (store_data s) = trees s" "tree (store_data s) = tree s" "sbuf (store_data s) = sbuf s"
  by (simp_all add: store_data_def)

lemma parser_error_frame:
  "trees (parser_error s) = trees s" "tree (parser_error s) = tree s" "sbuf (parser_error s) = sbuf s"
  by (simp_all add: parser_error_def)

lemma commit_command_Inr:
  assumes "commit_command E s = Inr t"
  shows "trees t = trees s \<and> tree t = tree s \<and> sbuf t = sbuf s \<and>
    published t \<subseteq> published s \<union> set_option (tree s) \<and> published s \<subseteq> published t"
  using assms
  by (auto simp: commit_command_def same_trees_def published_store store_data_frame published_frame res_simps
      dest: commit_login_Inr answer_Inr(1) answer_Inr(5) split: option.splits command_t.splits)

lemma consume_eol_Inr:
  assumes "consume_eol E s = Inr t"
  shows "trees t = trees s \<and> tree t = tree s \<and> sbuf t = sbuf s \<and> state t = STATE_INITIAL \<and>
    published t \<subseteq> published s \<union> set_option (tree s) \<and> published s \<subseteq> published t"
  using assms
  by (auto simp: consume_eol_def and_then_Inr published_store store_data_frame published_frame
      parser_error_frame unexpected_token_def
      dest!: commit_command_Inr split: state_t.splits if_splits)

subsection \<open>Every token keeps the invariant\<close>

lemma commit_command_login:
  assumes "commit_command E s = Inr t" and "login_ok s"
    and "authenticated s \<or> current_cmd s = COMMAND_LOGIN"
  shows "login_ok t"
  using assms
  by (auto simp: commit_command_def commit_login_def call_authenticate_def store_data_def Let_def
      login_ok_def handle_authenticate_def answer_def of_option_iff res_simps
      split: option.splits command_t.splits if_splits)

lemma login_ok_simps [simp]:
  "login_ok (parser_error s) = login_ok s"
  "authenticated (parser_error s) = authenticated s"
  "current_cmd (parser_error s) = current_cmd s"
  "authenticated (store_data s) = authenticated s"
  "current_cmd (store_data s) = current_cmd s"
  "login_ok (s\<lparr>state := st\<rparr>) = login_ok s"
  "authenticated s \<Longrightarrow> login_ok (store_data s)"
  by (simp_all add: parser_error_def store_data_def login_ok_def)

lemma consume_eol_login:
  assumes "parser_inv E s" and "consume_eol E s = Inr t"
  shows "login_ok t"
proof -
  have "login_ok s" and "body_state (state s) \<longrightarrow> command_ok s"
    using assms(1) by (simp_all add: parser_inv_def)
  with assms(2) show ?thesis
    by (auto simp: consume_eol_def and_then_Inr command_ok_def body_state_def unexpected_token_def
        split: state_t.splits if_splits dest: commit_command_login)
qed

lemma consume_eol_idle:
  assumes "parser_inv E s" and "consume_eol E s = Inr t"
  shows "idle_inv t"
proof -
  from assms(1) have "tree_ok s" by (simp add: parser_inv_def)
  with assms show ?thesis
    by (auto simp: idle_inv_def tree_ok_def consume_eol_login dest!: consume_eol_Inr)
qed

lemma start_message_inv:
  "tree_ok s \<Longrightarrow> login_ok s \<Longrightarrow> parser_inv E ((start_message E s)\<lparr>state := STATE_HASH_FIRST\<rparr>)"
  by (auto simp: parser_inv_defs start_message_def new_tree_def)

lemma consume_command_inv:
  assumes "parser_inv E s" and "state s = STATE_COMMAND"
  shows "parser_inv E (consume_command tok s)"
  using assms
  by (auto simp: parser_inv_defs consume_command_def parser_error_def Let_def
      dest: estimates_length split: option.splits)

lemma bar_inv:
  assumes "parser_inv E s" and "state s = STATE_BAR"
  shows "parser_inv E (store_data
    (if tok \<noteq> ''|'' then unexpected_token (s\<lparr>state := STATE_SKIP_TO_BAR_OR_END\<rparr>)
     else s\<lparr>state := STATE_BODY\<rparr>))"
  using assms
  by (auto simp: parser_inv_defs store_data_def unexpected_token_def parser_error_def)

lemma next_record_inv:
  assumes "parser_inv E s" and "state s = STATE_BODY" and "current_cmd s = COMMAND_BLACKBOX"
    and "map_of estimates (cmd s) = Some (n, c)"
  shows "parser_inv E (new_tree E ((store_data s)\<lparr>estimate := n, current_cmd := c\<rparr>))"
  using assms
  by (auto simp: parser_inv_defs store_data_def new_tree_def less_Suc_eq dest: estimates_length)

lemma move_inv:
  assumes "parser_inv E s"
  shows "state s = STATE_HASH_FIRST \<Longrightarrow> parser_inv E (s\<lparr>state := STATE_COMMAND\<rparr>)"
    and "state s = STATE_HASH_SECOND \<Longrightarrow> parser_inv E (s\<lparr>state := STATE_BODY\<rparr>)"
    and "state s = STATE_SKIP_TO_BAR_OR_END \<Longrightarrow> parser_inv E (s\<lparr>state := STATE_BODY\<rparr>)"
    and "state s \<noteq> STATE_INITIAL \<Longrightarrow> parser_inv E (unexpected_token (s\<lparr>state := STATE_SKIP_TO_END\<rparr>))"
  using assms by (auto simp: parser_inv_defs unexpected_token_def parser_error_def)

text \<open>
  The plugin's world: the tree operations obey the laws of a tree store and the tokenizer its own.
\<close>

locale wialon_world =
  tree_store "tree_new E" "tree_put E" "tree_get E" + tokenizer "tokenize E"
  for E :: "'t wialon_env"
begin

lemma put_field_inv:
  assumes "parser_inv E s" and st: "state s = STATE_BODY" and "estimate s \<noteq> 0"
    and "put_field E tok s = Inr t"
  shows "parser_inv E t \<and> state t = STATE_BODY \<and> current_cmd t = current_cmd s"
proof -
  from assms(1) st obtain n where n: "map_of estimates (cmd s) = Some (n, current_cmd s)"
      "estimate s \<le> n" by (auto simp: parser_inv_def command_ok_def body_state_def)
  let ?i = "estimate s - 1" and ?names = "field_names (current_cmd s)"
  from n assms(3) have i: "?i < length ?names" "field_at (current_cmd s) ?i = Some (?names ! ?i)"
    using estimates_length [OF n(1)] field_at_estimate [OF n(1)] by auto
  obtain r where r: "tree s = Some r" "r < length (trees s)" "r \<notin> published s"
    using assms(1,3) st by (auto simp: parser_inv_def tree_ok_def private_ok_def)
  have t: "t = s\<lparr>estimate := ?i, trees := (trees s)[r := tree_put E (?names ! ?i) tok (trees s ! r)]\<rparr>"
    using assms(4) i r by (simp add: put_field_def Let_def)
  have plain: "\<And>j. j < length ?names \<Longrightarrow> plain_key (?names ! j)"
    using field_names_plain [OF n(1)] by simp
  have "fields_ok E t"
    unfolding fields_ok_def
  proof (intro allI impI)
    fix j q assume j: "j < length (field_names (current_cmd t))" "estimate t \<le> j" and q: "tree t = Some q"
    show "tree_get E (trees t ! q) (field_names (current_cmd t) ! j) \<noteq> None"
    proof (cases "j = ?i")
      case True
      with q r t plain [OF i(1)] show ?thesis by (auto simp: get_put)
    next
      case False
      with j t assms(3) have "estimate s \<le> j" by auto
      moreover from assms(1) st have "fields_ok E s" by (simp add: parser_inv_def body_state_def)
      ultimately show ?thesis
        using j q r t plain i by (auto simp: fields_ok_def get_put)
    qed
  qed
  with assms(1) st n t r show ?thesis
    by (auto simp: parser_inv_def tree_ok_def private_ok_def command_ok_def body_state_def published_def
        login_ok_def)
qed

lemma finish_body_inv:
  assumes "parser_inv E s" and "state s = STATE_BODY" and "estimate s = 0"
  shows "parser_inv E (s\<lparr>state := if current_cmd s \<noteq> COMMAND_BLACKBOX then STATE_END else STATE_BAR\<rparr>)"
  using assms by (auto simp: parser_inv_defs)

lemma consume_body_inv:
  assumes inv: "parser_inv E s" and st: "state s = STATE_BODY" and t: "consume_body E tok s = Inr t"
  shows "parser_inv E t"
proof (cases "current_cmd s = COMMAND_BLACKBOX \<and> tok = ''|''")
  case True
  with t inv st show ?thesis by (auto simp: consume_body_def split: option.splits intro: next_record_inv)
next
  case False
  with t obtain u where u: "(if estimate s \<noteq> 0 then put_field E tok s else Inr s) = Inr u"
    and tu: "t = (if estimate u = 0
      then u\<lparr>state := if current_cmd u \<noteq> COMMAND_BLACKBOX then STATE_END else STATE_BAR\<rparr> else u)"
    by (auto simp: consume_body_def and_then_Inr)
  have "parser_inv E u \<and> state u = STATE_BODY"
    using u inv st put_field_inv [OF inv st, of tok u] by (cases "estimate s = 0") simp_all
  with tu show ?thesis by (cases "estimate u = 0") (simp_all add: finish_body_inv)
qed

lemma consume_token_inv:
  assumes inv: "parser_inv E s" and t: "consume_token E tok s = Inr t"
  shows "parser_inv E t"
proof (cases "tok = crlf")
  case True
  with inv t show ?thesis
    using idle_parser_inv [of t E] consume_eol_idle [OF inv, of t] by (auto simp: consume_token_def)
next
  case False
  show ?thesis
  proof (cases "state s")
    case STATE_INITIAL
    with inv t False show ?thesis
      using start_message_inv by (auto simp: consume_token_def parser_inv_def)
  next
    case STATE_COMMAND
    with inv t False show ?thesis by (auto simp: consume_token_def intro: consume_command_inv)
  next
    case STATE_BODY
    with inv t False show ?thesis by (auto simp: consume_token_def intro: consume_body_inv)
  next
    case STATE_BAR
    with inv t False show ?thesis using bar_inv [OF inv] by (auto simp: consume_token_def)
  next
    case STATE_IMEI
    with inv show ?thesis by (simp add: parser_inv_def)
  qed (use inv t False move_inv [OF inv] in \<open>simp_all add: consume_token_def split: if_splits\<close>)
qed

text \<open>
  Inside a message the only fault is the size of an image that is no number: the field is there, unless the
  line ends right behind the hash of the command.
\<close>

lemma commit_command_fault:
  assumes ok: "tree_ok s" "command_ok s" "fields_ok E s" and "state s \<noteq> STATE_INITIAL"
    and "estimate s = 0 \<or> is_parser_error s \<or> current_cmd s = COMMAND_BLACKBOX"
    and "current_cmd s = COMMAND_IMAGE \<longrightarrow> estimate s < 6"
    and "commit_command E s = Inl e"
  shows "e = Bad_data"
proof -
  from assms(1,4) obtain r where r: "tree s = Some r" by (auto simp: tree_ok_def)
  from ok(2) obtain n where n: "map_of estimates (cmd s) = Some (n, current_cmd s)"
    by (auto simp: command_ok_def)
  then have len: "length (cmd s) \<le> 2" by (rule estimates_key_length)
  have dec: "length (decimal (unat (multicommand s))) \<le> 20"
    by (rule decimal_size_t)
  have login: "tree_get E (trees s ! r) ''imei'' \<noteq> None" "tree_get E (trees s ! r) ''password'' \<noteq> None"
    if "current_cmd s = COMMAND_LOGIN" "estimate s = 0"
  proof -
    from ok(3) that r have all: "\<forall>i < 2. tree_get E (trees s ! r) (field_names COMMAND_LOGIN ! i) \<noteq> None"
      by (simp add: fields_ok_def fields_def command_index_def)
    show "tree_get E (trees s ! r) ''imei'' \<noteq> None"
      using all [rule_format, of 1] by (simp add: fields_def command_index_def)
    show "tree_get E (trees s ! r) ''password'' \<noteq> None"
      using all [rule_format, of 0] by (simp add: fields_def command_index_def)
  qed
  have image: "tree_get E (trees s ! r) ''sz'' \<noteq> None" if "current_cmd s = COMMAND_IMAGE"
  proof -
    from that assms(6) have "5 < length (field_names (current_cmd s))" "estimate s \<le> 5"
      by (simp_all add: fields_def command_index_def)
    with ok(3) r have "tree_get E (trees s ! r) (field_names (current_cmd s) ! 5) \<noteq> None"
      by (auto simp: fields_ok_def)
    with that show ?thesis by (simp add: fields_def command_index_def)
  qed
  from assms(5,7) r len dec login image show ?thesis
    by (auto simp: commit_command_def commit_login_def call_authenticate_def answer_fits res_simps
        of_option_iff Let_def handle_authenticate_fits
        split: command_t.splits option.splits if_splits)
qed

lemma eol_states_ok:
  assumes "tree_ok s" "command_ok s" "fields_ok E s" "state s \<noteq> STATE_INITIAL"
  shows "tree_ok (store_data s)" "command_ok (store_data s)" "fields_ok E (store_data s)"
    "tree_ok (parser_error s)" "command_ok (parser_error s)" "fields_ok E (parser_error s)"
  using assms
  by (auto simp: tree_ok_def command_ok_def fields_ok_def store_data_def parser_error_def published_def)

lemma consume_eol_fault:
  assumes inv: "parser_inv E s" and begun: "body_begun s" and e: "consume_eol E s = Inl e"
  shows "e = Bad_data"
proof (cases "body_state (state s)")
  case True
  with inv have ok: "tree_ok s" "command_ok s" "fields_ok E s" "state s \<noteq> STATE_INITIAL"
    by (auto simp: parser_inv_def body_state_def)
  note ok' = eol_states_ok [OF ok]
  have "state (store_data s) = state s" "state (parser_error s) = state s"
    "estimate (store_data s) = estimate s" "is_parser_error (parser_error s)"
    "current_cmd (store_data s) = current_cmd s"
    by (simp_all add: store_data_def parser_error_def)
  moreover have "current_cmd s = COMMAND_IMAGE \<longrightarrow> estimate s < 6" if "state s \<in> {STATE_BODY, STATE_END}"
    using that begun ok(2) by (auto simp: body_begun_def command_ok_def)
  ultimately show ?thesis using ok ok' e
    by (auto simp: consume_eol_def and_then_Inl command_ok_def parser_error_def
        split: state_t.splits if_splits intro: commit_command_fault)
next
  case False
  with inv e show ?thesis
    by (auto simp: consume_eol_def and_then_Inl body_state_def split: state_t.splits)
qed

lemma consume_token_fault:
  assumes inv: "parser_inv E s" and begun: "tok = crlf \<longrightarrow> body_begun s" and e: "consume_token E tok s = Inl e"
  shows "e = Bad_data"
proof (cases "tok = crlf \<or> state s \<noteq> STATE_BODY")
  case True
  with inv begun e show ?thesis
    by (auto simp: consume_token_def intro: consume_eol_fault split: state_t.splits if_splits)
next
  case False
  then have st: "tok \<noteq> crlf" "state s = STATE_BODY" by auto
  from inv st obtain n where n: "map_of estimates (cmd s) = Some (n, current_cmd s)" "estimate s \<le> n"
    by (auto simp: parser_inv_def command_ok_def body_state_def)
  from inv st obtain r where r: "tree s = Some r" by (auto simp: parser_inv_def tree_ok_def)
  have "put_field E tok s \<noteq> Inl e" if "estimate s \<noteq> 0"
  proof -
    from that n have "field_at (current_cmd s) (estimate s - 1) \<noteq> None"
      using field_at_estimate [OF n(1), of "estimate s - 1"] by auto
    with r show ?thesis by (auto simp: put_field_def Let_def)
  qed
  with e st n show ?thesis
    by (auto simp: consume_token_def consume_body_def and_then_Inl split: if_splits)
qed

sublocale tokens: machine "consume_token E" "parser_inv E"
  by unfold_locales (rule consume_token_inv)

text \<open>Any token but a hash leaves an image with a field, if it has a body at all.\<close>

lemma consume_token_begun:
  assumes inv: "parser_inv E s" and "tok \<noteq> ''#''" and t: "consume_token E tok s = Inr t"
  shows "body_begun t"
proof (cases "tok \<noteq> crlf \<and> state s = STATE_BODY")
  case True
  from inv True obtain n where n: "map_of estimates (cmd s) = Some (n, current_cmd s)" "estimate s \<le> n"
    by (auto simp: parser_inv_def command_ok_def body_state_def)
  show ?thesis
  proof (cases "current_cmd s = COMMAND_IMAGE")
    case image: True
    with n have n6: "n = 6" by (elim estimates_cases) simp_all
    from t True image obtain u where u: "(if estimate s \<noteq> 0 then put_field E tok s else Inr s) = Inr u"
      and tu: "t = (if estimate u = 0
        then u\<lparr>state := if current_cmd u \<noteq> COMMAND_BLACKBOX then STATE_END else STATE_BAR\<rparr> else u)"
      by (auto simp: consume_token_def consume_body_def and_then_Inr)
    have "estimate u = estimate s - 1"
      using u by (auto simp: put_field_def Let_def split: if_splits option.splits)
    with n(2) n6 tu show ?thesis by (auto simp: body_begun_def)
  next
    case False
    with t True n(1) show ?thesis
      by (auto simp: consume_token_def consume_body_def body_begun_def put_field_def store_data_def new_tree_def
          Let_def res_simps split: if_splits option.splits)
  qed
next
  case False
  have "current_cmd s = COMMAND_BLACKBOX" if "state s \<in> {STATE_BAR, STATE_SKIP_TO_BAR_OR_END}"
    using inv that by (auto simp: parser_inv_def command_ok_def body_state_def)
  with t False assms(2) consume_eol_Inr [of E s t] show ?thesis
    by (auto simp: consume_token_def body_begun_def start_message_def new_tree_def consume_command_def
        unexpected_token_def parser_error_def store_data_def Let_def
        split: state_t.splits if_splits option.splits)
qed

lemma tokens_fault:
  assumes "parser_inv E s" and "body_begun s \<or> toks \<noteq> [] \<and> hd toks \<noteq> crlf"
    and "follows_hash (\<lambda>t. t \<noteq> crlf) toks" and "fold_res (consume_token E) toks s = Inl e"
  shows "e = Bad_data"
  using assms
proof (induction toks arbitrary: s)
  case (Cons t ts)
  show ?case
  proof (cases "consume_token E t s")
    case (Inl f)
    with Cons.prems consume_token_fault [of s t f] show ?thesis by auto
  next
    case (Inr u)
    have "parser_inv E u" using Cons.prems(1) Inr by (rule consume_token_inv)
    moreover have "body_begun u \<or> ts \<noteq> [] \<and> hd ts \<noteq> crlf"
      using consume_token_begun [OF Cons.prems(1) _ Inr] Cons.prems(3) by auto
    ultimately show ?thesis using Cons.IH [of u] Cons.prems(3,4) Inr by simp
  qed
qed simp

end

end
