(* ===== verification/Wialon_Run.thy ===== *)
theory Wialon_Run
  imports Wialon_Inv
begin

text \<open>
  The Wialon plugin as its connection drives it: reads, callbacks, and runs of such calls. The
  calls keep \<open>idle_inv\<close>, and a tree handed to the dispatchers is never written again.
\<close>

subsection \<open>Reading a message\<close>

lemma read_message_fault: "read_message good buf msg = Inl e \<Longrightarrow> e = Empty_line"
proof (induction good buf msg rule: read_message.induct)
  case (1 good buf msg)
  show ?case
    using 1 by (subst (asm) (2) read_message.simps) (auto simp: Let_def split: if_splits prod.splits)
qed

text \<open>The message has no line end in it.\<close>

lemma getline_no_lf: "getline good [] buf = (good', tmp, buf') \<Longrightarrow> LF \<notin> set tmp"
proof -
  assume a: "getline good [] buf = (good', tmp, buf')"
  consider "\<not> good" | "good" "LF \<notin> set buf" | l rest where "good" "buf = l @ LF # rest" "LF \<notin> set l"
    using split_list_first [of LF buf] by blast
  then show ?thesis
  proof cases
    case 1
    with a show ?thesis by (simp add: getline_def)
  next
    case 2
    then have "getline good [] buf = (False, buf, [])" by simp
    with a 2 show ?thesis by simp
  next
    case 3
    then have "getline good [] buf = (True, l, rest)" by simp
    with a 3 show ?thesis by simp
  qed
qed

lemma line_no_crlf: "LF \<notin> set w \<Longrightarrow> \<not> has_crlf w"
  by (induction w rule: has_crlf.induct) (auto dest!: hd_in_set)

lemma read_message_no_crlf:
  assumes "read_message good buf msg = Inr (Some m, rest)" and "\<not> has_crlf msg" and "msg = [] \<or> last msg = LF"
  shows "\<not> has_crlf m"
  using assms
proof (induction good buf msg rule: read_message.induct)
  case (1 good buf msg)
  obtain good' tmp buf1 where line: "getline good [] buf = (good', tmp, buf1)" by (cases "getline good [] buf") auto
  have buf: "buf \<noteq> []" using "1.prems"(1) by (auto simp: read_message.simps)
  have tmp: "tmp \<noteq> []" using "1.prems"(1) buf line by (auto simp: read_message.simps Let_def)
  note lf = getline_no_lf [OF line]
  have joined: "\<not> has_crlf (msg @ w)" if "LF \<notin> set w" for w
    using "1.prems"(2,3) line_no_crlf [OF that] that by (cases w) (auto simp: has_crlf_append)
  show ?case
  proof (cases "last tmp = CR")
    case True
    with "1.prems"(1) buf line tmp have "m = msg @ butlast tmp"
      by (subst (asm) read_message.simps) (simp add: Let_def)
    with joined [of "butlast tmp"] lf show ?thesis by (auto dest: in_set_butlastD)
  next
    case False
    then have "\<not> has_crlf (msg @ tmp @ [LF])"
      using joined [OF lf] tmp by (auto simp: has_crlf_append)
    moreover have "read_message good' (drop (length tmp + 1) buf1) (msg @ tmp @ [LF]) = Inr (Some m, rest)"
      using "1.prems"(1) buf line tmp False by (subst (asm) read_message.simps) (simp add: Let_def)
    ultimately show ?thesis using "1.IH" [OF buf line [symmetric] refl refl tmp False] by simp
  qed
qed

text \<open>A buffer that holds exactly one message: it is read whole.\<close>

lemma read_message_one:
  assumes "LF \<notin> set m"
  shows "read_message True (m @ crlf) acc = Inr (Some (acc @ m), [])"
proof -
  have "getline True [] ((m @ [CR]) @ LF # []) = (True, m @ [CR], [])"
    by (rule getline_line) (use assms in simp)
  then show ?thesis by (subst read_message.simps) (simp add: Let_def)
qed

text \<open>
  More data behind the first message: as many bytes as the message has (with its line end) are
  thrown away.
\<close>

lemma read_message_more:
  assumes "LF \<notin> set m"
  shows "read_message True (m @ crlf @ rest) acc = Inr (Some (acc @ m), drop (length m + 2) rest)"
proof -
  have "getline True [] ((m @ [CR]) @ LF # rest) = (True, m @ [CR], rest)"
    by (rule getline_line) (use assms in simp)
  then show ?thesis by (subst read_message.simps) (simp add: Let_def)
qed

lemma handle_read_one:
  assumes "LF \<notin> set m" and "sbuf s = m @ crlf @ rest"
  shows "handle_read E s =
    and_then (parse_string E m (s\<lparr>sbuf := drop (length m + 2) rest\<rparr>)) (\<lambda>s2.
    and_then (consume_token E crlf s2) (\<lambda>s3.
    Inr (if state s3 \<noteq> STATE_BINARY_DATA
         then s3\<lparr>api_calls := api_calls s3 @ [Do_read_until crlf]\<rparr> else s3)))"
  using read_message_more [OF assms(1), of rest "[]"] assms(2) by (simp add: handle_read_def)

text \<open>A call of \<open>handle_read\<close> that returns either found too little data or worked off one message.\<close>

lemma handle_read_Inr:
  assumes "handle_read E s = Inr t"
  obtains (stuck) buf where "read_message True (sbuf s) [] = Inr (None, buf)" "t = s\<lparr>sbuf := buf\<rparr>"
  | (worked) m buf s2 s3 where "read_message True (sbuf s) [] = Inr (Some m, buf)"
      "parse_string E m (s\<lparr>sbuf := buf\<rparr>) = Inr s2" "consume_eol E s2 = Inr s3"
      "t = s3\<lparr>api_calls := api_calls s3 @ [Do_read_until crlf]\<rparr>"
proof -
  from assms obtain msg buf where r: "read_message True (sbuf s) [] = Inr (msg, buf)"
    by (auto simp: handle_read_def and_then_Inr)
  show ?thesis
  proof (cases msg)
    case None
    with assms r show ?thesis by (intro stuck) (auto simp: handle_read_def)
  next
    case (Some m)
    with assms r obtain s2 s3 where s23: "parse_string E m (s\<lparr>sbuf := buf\<rparr>) = Inr s2"
      "consume_eol E s2 = Inr s3" "t = (if state s3 \<noteq> STATE_BINARY_DATA
        then s3\<lparr>api_calls := api_calls s3 @ [Do_read_until crlf]\<rparr> else s3)"
      by (auto simp: handle_read_def and_then_Inr consume_token_def)
    then have "state s3 = STATE_INITIAL" using consume_eol_Inr by blast
    with s23 r Some show ?thesis by (intro worked) auto
  qed
qed

text \<open>Tokens do not touch the input buffer.\<close>

lemma consume_token_sbuf:
  assumes "consume_token E tok s = Inr t"
  shows "sbuf t = sbuf s"
proof (cases "tok = crlf")
  case True
  with assms show ?thesis by (simp add: consume_token_def consume_eol_Inr)
next
  case False
  with assms show ?thesis
    by (auto simp: consume_token_def consume_body_def put_field_def and_then_Inr Let_def
        unexpected_token_def parser_error_def store_data_def new_tree_def start_message_def consume_command_def
        split: state_t.splits if_splits option.splits)
qed

lemma fold_tokens_sbuf: "fold_res (consume_token E) toks s = Inr t \<Longrightarrow> sbuf t = sbuf s"
  by (induction toks arbitrary: s) (auto simp: and_then_Inr dest!: consume_token_sbuf)

lemma handle_read_sbuf:
  assumes "handle_read E s = Inr t" and "LF \<notin> set m" and "sbuf s = m @ crlf @ rest"
  shows "sbuf t = drop (length m + 2) rest"
  using assms(1)
proof (cases rule: handle_read_Inr)
  case (stuck buf)
  with read_message_more [OF assms(2), of rest "[]"] assms(3) show ?thesis by simp
next
  case (worked m' buf s2 s3)
  with read_message_more [OF assms(2), of rest "[]"] assms(3) have "buf = drop (length m + 2) rest" by auto
  with worked consume_eol_Inr [OF worked(3)] fold_tokens_sbuf [OF worked(2) [unfolded parse_string_def]]
  show ?thesis by simp
qed

subsection \<open>Trees that were handed out stay as they are\<close>

definition keeps :: "'t wialon_plugin \<Rightarrow> 't wialon_plugin \<Rightarrow> bool" where
  "keeps s t \<longleftrightarrow> length (trees s) \<le> length (trees t) \<and> published s \<subseteq> published t \<and>
     (\<forall>r \<in> published s. trees t ! r = trees s ! r)"

lemma keeps_refl: "keeps s s"
  by (simp add: keeps_def)

lemma keeps_trans: "keeps s t \<Longrightarrow> keeps t u \<Longrightarrow> keeps s u"
  by (auto simp: keeps_def)

lemma keeps_same: "trees t = trees s \<Longrightarrow> published s \<subseteq> published t \<Longrightarrow> keeps s t"
  by (simp add: keeps_def)

lemma keeps_new_tree: "tree_ok s \<Longrightarrow> published u = published s \<union> A \<Longrightarrow> trees u = trees s \<Longrightarrow> keeps s (new_tree E u)"
  by (auto simp: keeps_def new_tree_def tree_ok_def published_def nth_append)

lemma put_field_keeps:
  assumes "parser_inv E s" and "state s = STATE_BODY" and "estimate s \<noteq> 0" and "put_field E tok s = Inr t"
  shows "keeps s t"
  using assms
  by (auto simp: parser_inv_def private_ok_def put_field_def keeps_def published_def Let_def
      split: option.splits intro!: nth_list_update_neq)

lemma consume_body_keeps:
  assumes inv: "parser_inv E s" and st: "state s = STATE_BODY" and t: "consume_body E tok s = Inr t"
  shows "keeps s t"
proof (cases "current_cmd s = COMMAND_BLACKBOX \<and> tok = ''|''")
  case True
  with t obtain n c where "t = new_tree E ((store_data s)\<lparr>estimate := n, current_cmd := c\<rparr>)"
    by (auto simp: consume_body_def split: option.splits)
  moreover have "keeps s (new_tree E ((store_data s)\<lparr>estimate := n, current_cmd := c\<rparr>))"
  proof (rule keeps_new_tree)
    show "published ((store_data s)\<lparr>estimate := n, current_cmd := c\<rparr>) = published s \<union> set_option (tree s)"
      by (auto simp: published_def store_data_def)
  qed (use inv in \<open>simp_all add: parser_inv_def store_data_def\<close>)
  ultimately show ?thesis by simp
next
  case False
  with t obtain u where "(if estimate s \<noteq> 0 then put_field E tok s else Inr s) = Inr u"
    and "trees t = trees u" "api_calls t = api_calls u"
    by (auto simp: consume_body_def and_then_Inr split: if_splits)
  then have "keeps s u" using put_field_keeps [OF inv st] by (auto simp: keeps_refl split: if_splits)
  with \<open>trees t = trees u\<close> \<open>api_calls t = api_calls u\<close> show ?thesis
    by (simp add: keeps_def published_def)
qed

lemma consume_token_keeps:
  assumes inv: "parser_inv E s" and t: "consume_token E tok s = Inr t"
  shows "keeps s t"
proof (cases "tok = crlf")
  case True
  with t show ?thesis by (auto simp: consume_token_def intro!: keeps_same dest!: consume_eol_Inr)
next
  case False
  show ?thesis
  proof (cases "state s = STATE_INITIAL")
    case True
    with t False have "t = (start_message E s)\<lparr>state := STATE_HASH_FIRST\<rparr>" by (simp add: consume_token_def)
    moreover have "keeps s (new_tree E s)"
      using inv keeps_new_tree [of s s "{}" E] by (simp add: parser_inv_def)
    ultimately show ?thesis by (simp add: keeps_def start_message_def published_def)
  next
    case not_initial: False
    show ?thesis
    proof (cases "state s = STATE_BODY")
      case True
      with t False inv show ?thesis by (auto simp: consume_token_def intro: consume_body_keeps)
    next
      case False
      with t not_initial \<open>tok \<noteq> crlf\<close> show ?thesis
        by (intro keeps_same)
          (auto simp: consume_token_def consume_command_def unexpected_token_def parser_error_def
            store_data_def published_def Let_def split: state_t.splits option.splits if_splits)
    qed
  qed
qed

subsection \<open>Every call keeps the idle invariant\<close>

lemma idle_inv_cong:
  assumes "idle_inv s" and "same_trees s t" and "state t = STATE_INITIAL"
    and "authenticated s \<longrightarrow> authenticated t"
    and "\<And>r. Process_data r \<in> set (api_calls t) \<Longrightarrow> Process_data r \<in> set (api_calls s)"
  shows "idle_inv t"
  using assms by (auto simp: idle_inv_def same_trees_def tree_ok_def login_ok_def)

lemma answer_calls:
  "answer msg s = Inr t \<Longrightarrow> Process_data r \<in> set (api_calls t) \<longleftrightarrow> Process_data r \<in> set (api_calls s)"
  by (auto simp: answer_def Let_def split: if_splits)

lemma handle_authenticate_idle:
  assumes "idle_inv s" and t: "handle_authenticate ok s = Inr t"
  shows "idle_inv t"
  using assms(1)
proof (rule idle_inv_cong)
  show "Process_data r \<in> set (api_calls s)" if "Process_data r \<in> set (api_calls t)" for r
    using t that by (auto simp: handle_authenticate_def Let_def answer_calls split: if_splits)
qed (simp_all add: handle_authenticate_Inr [OF t])

lemma handle_process_data_idle:
  assumes "idle_inv s" and t: "handle_process_data ok s = Inr t"
  shows "idle_inv t"
  using assms(1)
proof (rule idle_inv_cong)
  show "Process_data r \<in> set (api_calls s)" if "Process_data r \<in> set (api_calls t)" for r
    using t that by (auto simp: handle_process_data_def answer_calls split: if_splits)
  show "state t = STATE_INITIAL"
    using assms(1) by (simp add: handle_process_data_Inr [OF t] idle_inv_def)
qed (simp_all add: handle_process_data_Inr [OF t])

lemma idle_inv_frame [simp]:
  "idle_inv (s\<lparr>sbuf := b\<rparr>) = idle_inv s"
  "idle_inv (s\<lparr>api_calls := api_calls s @ [Do_read_until d]\<rparr>) = idle_inv s"
  by (auto simp: idle_inv_def tree_ok_def login_ok_def published_def)

context wialon_world
begin

lemma handle_read_idle:
  assumes "idle_inv s" and "handle_read E s = Inr t"
  shows "idle_inv t"
  using assms(2)
proof (cases rule: handle_read_Inr)
  case (stuck buf)
  with assms(1) show ?thesis by simp
next
  case (worked m buf s2 s3)
  have "parser_inv E (s\<lparr>sbuf := buf\<rparr>)" using assms(1) by (simp add: idle_parser_inv)
  then have "parser_inv E s2" using worked(2) unfolding parse_string_def by (rule tokens.run_inv)
  with worked(3,4) show ?thesis using consume_eol_idle by auto
qed

lemma handle_read_fault:
  assumes "idle_inv s" and e: "handle_read E s = Inl e"
  shows "e = Empty_line \<or> e = Bad_data"
proof (cases "read_message True (sbuf s) []")
  case (Inl f)
  with e read_message_fault show ?thesis by (auto simp: handle_read_def)
next
  case (Inr r)
  obtain msg buf where r: "r = (msg, buf)" by (cases r)
  have inv: "parser_inv E (s\<lparr>sbuf := buf\<rparr>)" using assms(1) by (simp add: idle_parser_inv)
  from e Inr r obtain m where m: "msg = Some m"
    by (cases msg) (auto simp: handle_read_def)
  from Inr r m have "\<not> has_crlf m" using read_message_no_crlf [of True "sbuf s" "[]" m buf] by simp
  then have "follows_hash (\<lambda>t. t \<noteq> crlf) (tokenize E m @ [crlf])"
    by (intro follows_hash_append tokens_follow) simp_all
  moreover have "body_begun (s\<lparr>sbuf := buf\<rparr>)" using assms(1) by (simp add: body_begun_def idle_inv_def)
  moreover have "fold_res (consume_token E) (tokenize E m @ [crlf]) (s\<lparr>sbuf := buf\<rparr>) = Inl e"
    using e Inr r m by (auto simp: handle_read_def parse_string_def fold_res_append and_then_Inl)
  ultimately have "e = Bad_data" using tokens_fault [OF inv] by blast
  then show ?thesis ..
qed

lemma wialon_step_inv:
  assumes "idle_inv s" and "wialon_step E ev s = Inr t"
  shows "idle_inv t"
proof (cases ev)
  case (Read_done bytes)
  with assms handle_read_idle [of "s\<lparr>sbuf := sbuf s @ bytes\<rparr>" t] show ?thesis by simp
qed (use assms in \<open>auto simp: handle_start_def handle_write_def
      intro: handle_authenticate_idle handle_process_data_idle\<close>)

lemma wialon_step_fault:
  assumes "idle_inv s" and "wialon_step E ev s = Inl e"
  shows "e \<in> {Empty_line, Bad_data, Buffer_overrun}"
proof (cases ev)
  case (Read_done bytes)
  with assms handle_read_fault [of "s\<lparr>sbuf := sbuf s @ bytes\<rparr>" e] show ?thesis by auto
qed (use assms in \<open>auto dest: handle_authenticate_fault handle_process_data_fault\<close>)

sublocale calls: guarded_machine "wialon_step E" idle_inv
  "\<lambda>e. e \<in> {Empty_line, Bad_data, Buffer_overrun}"
  by unfold_locales (rule wialon_step_inv wialon_step_fault; assumption)+

lemma run_idle: "wialon_run E evs (wialon_init buf est multi err c) = Inr t \<Longrightarrow> idle_inv t"
  using calls.run_inv idle_init by blast

lemma run_faults:
  "wialon_run E evs (wialon_init buf est multi err c) = Inl e \<Longrightarrow> e \<in> {Empty_line, Bad_data, Buffer_overrun}"
  using calls.run_allowed idle_init by blast

lemma tokens_keep:
  assumes "parser_inv E s" and "fold_res (consume_token E) toks s = Inr t"
  shows "parser_inv E t" and "keeps s t"
  using tokens.run_inv [OF assms]
    tokens.run_rel [where R = keeps, OF keeps_refl keeps_trans consume_token_keeps assms] by simp_all

lemma handle_read_keeps:
  assumes "idle_inv s" and "handle_read E s = Inr t"
  shows "keeps s t"
  using assms(2)
proof (cases rule: handle_read_Inr)
  case (stuck buf)
  then show ?thesis by (simp add: keeps_def published_def)
next
  case (worked m buf s2 s3)
  have inv: "parser_inv E (s\<lparr>sbuf := buf\<rparr>)" using assms(1) by (simp add: idle_parser_inv)
  have "keeps (s\<lparr>sbuf := buf\<rparr>) s2"
    by (rule tokens_keep(2) [OF inv worked(2) [unfolded parse_string_def]])
  moreover have "keeps s2 s3"
    using consume_eol_Inr [OF worked(3)] by (intro keeps_same) auto
  ultimately have "keeps (s\<lparr>sbuf := buf\<rparr>) s3" by (rule keeps_trans)
  with worked(4) show ?thesis by (simp add: keeps_def published_def)
qed

lemma wialon_step_keeps:
  assumes "idle_inv s" and "wialon_step E ev s = Inr t"
  shows "keeps s t"
proof (cases ev)
  case (Read_done bytes)
  with assms handle_read_keeps [of "s\<lparr>sbuf := sbuf s @ bytes\<rparr>" t] show ?thesis
    by (simp add: keeps_def published_def)
next
  case (Auth_done ok)
  with assms handle_authenticate_Inr(1) [of ok s t] show ?thesis
    by (auto simp: same_trees_def intro: keeps_same)
next
  case (Data_done ok)
  with assms handle_process_data_Inr(1) [of ok s t] show ?thesis
    by (auto simp: same_trees_def intro: keeps_same)
qed (use assms in \<open>auto simp: handle_start_def handle_write_def keeps_def published_def\<close>)

lemma run_keeps: "idle_inv s \<Longrightarrow> wialon_run E evs s = Inr t \<Longrightarrow> keeps s t"
  by (rule calls.run_rel [where R = keeps])
    (rule keeps_refl keeps_trans wialon_step_keeps; assumption)+

text \<open>Runs without late callbacks.\<close>

lemma run_read_faults:
  assumes "\<forall>ok. Data_done ok \<notin> set evs \<and> Auth_done ok \<notin> set evs"
  shows "idle_inv s \<Longrightarrow> wialon_run E evs s = Inl e \<Longrightarrow> e \<noteq> Buffer_overrun"
  using assms
proof (induction evs arbitrary: s)
  case (Cons ev evs)
  show ?case
  proof (cases "wialon_step E ev s")
    case (Inl f)
    with Cons.prems obtain bytes where ev: "ev = Read_done bytes"
      by (cases ev) auto
    with Inl Cons.prems have "handle_read E (s\<lparr>sbuf := sbuf s @ bytes\<rparr>) = Inl e" by simp
    with Cons.prems(1) have "e = Empty_line \<or> e = Bad_data"
      using handle_read_fault [of "s\<lparr>sbuf := sbuf s @ bytes\<rparr>" e] by simp
    then show ?thesis by auto
  next
    case (Inr u)
    with Cons.prems have "idle_inv u" "wialon_run E evs u = Inl e" by (auto intro: wialon_step_inv)
    with Cons show ?thesis by auto
  qed
qed simp

end

end
