(* ===== verification/Wialon_Messages.thy ===== *)
theory Wialon_Messages
  imports Wialon_Run
begin

text \<open>
  What a whole message does: the head of a command, a body of fields, the end of the line, put
  together for each command. Everything is proved in \<open>wialon_world\<close>, over any tokenizer and any
  tree that obey their laws.
\<close>

text \<open>The names of a command's fields in the order the protocol sends them.\<close>

definition protocol_fields :: "command_t \<Rightarrow> string list" where
  "protocol_fields c = rev (field_names c)"

text \<open>The same names written out, in the order the comment above \<open>fields_\<close> gives them.\<close>

definition documented_fields :: "command_t \<Rightarrow> string list" where
  "documented_fields c = (case c of
     COMMAND_LOGIN \<Rightarrow> [''imei'', ''password'']
   | COMMAND_DATA \<Rightarrow> [''date'', ''time'', ''lat1'', ''lat2'', ''lon1'', ''lon2'',
       ''speed'', ''course'', ''height'', ''sats'', ''hdop'',
       ''inputs'', ''outputs'', ''adc'', ''ibutton'', ''params'']
   | COMMAND_PING \<Rightarrow> []
   | COMMAND_SHORTDATA \<Rightarrow> [''date'', ''time'', ''lat1'', ''lat2'', ''lon1'', ''lon2'',
       ''speed'', ''course'', ''height'', ''sats'']
   | COMMAND_BLACKBOX \<Rightarrow> [''date'', ''time'', ''lat1'', ''lat2'', ''lon1'', ''lon2'',
       ''speed'', ''course'', ''height'', ''sats'', ''hdop'',
       ''inputs'', ''outputs'', ''adc'', ''ibutton'', ''params'']
   | COMMAND_MESSAGE \<Rightarrow> [''message'']
   | COMMAND_IMAGE \<Rightarrow> [''sz'', ''ind'', ''count'', ''date'', ''time'', ''name'']
   | COMMAND_COUNT \<Rightarrow> [])"

lemma protocol_fields_documented: "c \<noteq> COMMAND_COUNT \<Longrightarrow> protocol_fields c = documented_fields c"
  by (cases c) (simp_all add: protocol_fields_def documented_fields_def fields_def command_index_def)

lemma documented_fields_length: "map_of estimates k = Some (n, c) \<Longrightarrow> length (documented_fields c) = n"
  by (elim estimates_cases) (simp_all add: documented_fields_def)

text \<open>A text that can be one field: no separator, no line feed.\<close>

definition field_text :: "string \<Rightarrow> bool" where
  "field_text w \<longleftrightarrow> sep_free w \<and> LF \<notin> set w"

definition put_all :: "'t wialon_env \<Rightarrow> (string \<times> string) list \<Rightarrow> 't \<Rightarrow> 't" where
  "put_all E kvs t = foldl (\<lambda>t (k, v). tree_put E k v t) t kvs"

text \<open>The tree made of the first fields of a command.\<close>

definition record_tree :: "'t wialon_env \<Rightarrow> command_t \<Rightarrow> string list \<Rightarrow> 't" where
  "record_tree E c fs = put_all E (zip (protocol_fields c) fs) (tree_new E)"

text \<open>The message of a command: \<open>#\<close>, its name, \<open>#\<close>, its body.\<close>

definition message :: "string \<Rightarrow> string \<Rightarrow> string" where
  "message k body = ''#'' @ k @ ''#'' @ body"

definition body_start ::
  "'t wialon_env \<Rightarrow> string \<Rightarrow> nat \<Rightarrow> command_t \<Rightarrow> 't wialon_plugin \<Rightarrow> 't wialon_plugin" where
  "body_start E k n c s =
     s\<lparr>estimate := n, trees := trees s @ [tree_new E], tree := Some (length (trees s)),
       multicommand := 0, is_parser_error := False, state := STATE_BODY, cmd := k, current_cmd := c\<rparr>"

lemma field_text_not_crlf: "\<forall>w \<in> set ws. field_text w \<Longrightarrow> crlf \<notin> set ws"
  by (auto simp: field_text_def)

lemma field_text_not_bar: "\<forall>w \<in> set ws. field_text w \<Longrightarrow> ''|'' \<notin> set ws"
  by (force simp: field_text_def sep_free_def)

lemma join_fields_no_lf: "\<forall>w \<in> set ws. field_text w \<Longrightarrow> LF \<notin> set (join_fields ws)"
  by (auto simp: field_text_def dest!: join_fields_chars)

lemma estimates_key_no_lf: "map_of estimates k = Some (n, c) \<Longrightarrow> LF \<notin> set k"
  by (elim estimates_cases) simp_all

lemma estimates_key_not_crlf: "map_of estimates k = Some (n, c) \<Longrightarrow> k \<noteq> crlf"
  by (elim estimates_cases) simp_all

lemma consume_head:
  assumes "state s = STATE_INITIAL" and k: "map_of estimates k = Some (n, c)"
    and "authenticated s \<or> c = COMMAND_LOGIN"
  shows "fold_res (consume_token E) [[], ''#'', k, ''#''] s = Inr (body_start E k n c s)"
  using assms estimates_key_not_crlf [OF k]
  by (auto simp: consume_token_def start_message_def new_tree_def consume_command_def body_start_def)

lemma put_all_Nil [simp]: "put_all E [] t = t"
  by (simp add: put_all_def)

lemma put_all_Cons [simp]: "put_all E ((k, v) # kvs) t = put_all E kvs (tree_put E k v t)"
  by (simp add: put_all_def)

text \<open>A body that is not longer than what the command still expects.\<close>

lemma consume_fields:
  assumes k: "map_of estimates k = Some (n0, c)"
  shows "state s = STATE_BODY \<Longrightarrow> current_cmd s = c \<Longrightarrow> estimate s = n \<Longrightarrow> n \<le> n0 \<Longrightarrow>
    tree s = Some r \<Longrightarrow> r < length (trees s) \<Longrightarrow> length toks \<le> n \<Longrightarrow> crlf \<notin> set toks \<Longrightarrow>
    (c = COMMAND_BLACKBOX \<Longrightarrow> ''|'' \<notin> set toks) \<Longrightarrow>
    fold_res (consume_token E) toks s =
      Inr (s\<lparr>estimate := n - length toks,
             trees := (trees s)[r := put_all E (zip (rev (take n (field_names c))) toks) (trees s ! r)],
             state := if toks \<noteq> [] \<and> length toks = n
                      then (if c \<noteq> COMMAND_BLACKBOX then STATE_END else STATE_BAR)
                      else STATE_BODY\<rparr>)"
proof (induction toks arbitrary: s n)
  case Nil
  then show ?case by (cases s) simp
next
  case (Cons tok toks)
  then obtain m where m: "n = Suc m" "m < n0" by (cases n) auto
  then have f: "field_at c m = Some (field_names c ! m)" using field_at_estimate [OF k] by simp
  have names: "rev (take n (field_names c)) = field_names c ! m # rev (take m (field_names c))"
    using m estimates_length [OF k] by (simp add: take_Suc_conv_app_nth)
  let ?t = "tree_put E (field_names c ! m) tok (trees s ! r)"
  let ?u = "s\<lparr>estimate := m, trees := (trees s)[r := ?t]\<rparr>"
  have step: "consume_token E tok s = Inr (if m = 0
      then ?u\<lparr>state := if c \<noteq> COMMAND_BLACKBOX then STATE_END else STATE_BAR\<rparr> else ?u)"
    using Cons.prems m f by (auto simp: consume_token_def consume_body_def put_field_def)
  show ?case
  proof (cases "m = 0")
    case True
    with Cons.prems m have "toks = []" by simp
    with step True names m show ?thesis by simp
  next
    case False
    with Cons.prems m Cons.IH [of ?u m] step names show ?thesis by simp
  qed
qed

text \<open>
  A command the parser refuses: not in the table, or not the login on a connection that has not
  logged in.
\<close>

definition refused_command :: "string \<Rightarrow> 't wialon_plugin \<Rightarrow> bool" where
  "refused_command k s \<longleftrightarrow>
     (case map_of estimates k of None \<Rightarrow> True | Some (n, c) \<Rightarrow> \<not> authenticated s \<and> c \<noteq> COMMAND_LOGIN)"

context wialon_world
begin

lemma message_tokens:
  assumes "map_of estimates k = Some (n, c)"
  shows "tokenize E (message k body) = [[], ''#'', k, ''#''] @ pieces (tokenize E) body"
  using tok_message [OF estimates_key_sep_free [OF assms]] by (simp add: message_def)

lemma parse_command:
  assumes "state s = STATE_INITIAL" and k: "map_of estimates k = Some (n, c)"
    and "authenticated s \<or> c = COMMAND_LOGIN"
  shows "parse_string E (message k body) s =
    fold_res (consume_token E) (pieces (tokenize E) body) (body_start E k n c s)"
  by (simp only: parse_string_def message_tokens [OF k] fold_res_append consume_head [OF assms] and_then.simps)

lemma parse_fields:
  assumes "state s = STATE_INITIAL" and k: "map_of estimates k = Some (n, c)"
    and "authenticated s \<or> c = COMMAND_LOGIN"
    and fs: "fs \<noteq> []" "\<forall>f \<in> set fs. field_text f" "length fs \<le> n"
  shows "parse_string E (message k (join_fields fs)) s =
    Inr ((body_start E k n c s)\<lparr>estimate := n - length fs, trees := trees s @ [record_tree E c fs],
      state := if length fs = n then (if c \<noteq> COMMAND_BLACKBOX then STATE_END else STATE_BAR)
               else STATE_BODY\<rparr>)"
proof -
  have toks: "pieces (tokenize E) (join_fields fs) = fs"
    using fs by (intro pieces_join) (auto simp: field_text_def)
  have "take n (field_names c) = field_names c" using estimates_length [OF k] by simp
  then show ?thesis
    using consume_fields [OF k, of "body_start E k n c s" n "length (trees s)" fs E] fs toks
      field_text_not_crlf [OF fs(2)] field_text_not_bar [OF fs(2)]
    by (simp add: parse_command [OF assms(1-3)] body_start_def record_tree_def protocol_fields_def
        list_update_append)
qed

text \<open>The fields of a record can be read back under the protocol's names.\<close>

lemma record_tree_get:
  assumes k: "map_of estimates k = Some (n, c)" and "length fs \<le> n" and i: "i < length fs"
  shows "tree_get E (record_tree E c fs) (protocol_fields c ! i) = Some (fs ! i)"
proof -
  have len: "length (protocol_fields c) = n" using estimates_length [OF k] by (simp add: protocol_fields_def)
  have dist: "distinct (protocol_fields c)" using field_names_distinct [OF k] by (simp add: protocol_fields_def)
  have plain: "plain_key f" if "f \<in> set (protocol_fields c)" for f
    using field_names_plain [OF k] that by (simp add: protocol_fields_def)
  let ?kvs = "zip (protocol_fields c) fs"
  have "distinct (map fst ?kvs)" using dist by (simp add: map_fst_zip_take)
  moreover have "plain_key f" if "f \<in> fst ` set ?kvs" for f
    using that plain by (auto dest: set_zip_leftD)
  moreover have "map_of ?kvs (protocol_fields c ! i) = Some (fs ! i)"
    using dist i len assms(2) \<open>distinct (map fst ?kvs)\<close>
    by (intro map_of_is_SomeI) (auto simp: in_set_zip)
  ultimately show ?thesis
    using get_puts [of ?kvs "protocol_fields c ! i" "tree_new E"] plain i len assms(2)
    by (simp add: record_tree_def put_all_def)
qed

lemma record_tree_size:
  assumes "fs \<noteq> []" and "length fs \<le> 6"
  shows "tree_get E (record_tree E COMMAND_IMAGE fs) ''sz'' = Some (hd fs)"
proof -
  have "map_of estimates ''I'' = Some (6, COMMAND_IMAGE)" by (simp add: estimates_def)
  moreover have "protocol_fields COMMAND_IMAGE ! 0 = ''sz''"
    by (simp add: protocol_fields_def fields_def command_index_def)
  ultimately show ?thesis using record_tree_get [of "''I''" 6 COMMAND_IMAGE fs 0] assms
    by (simp add: hd_conv_nth)
qed

lemma handle_read_text:
  assumes "LF \<notin> set m" and "sbuf s = m @ crlf @ rest"
  shows "handle_read E s =
    and_then (parse_string E m (s\<lparr>sbuf := drop (length m + 2) rest\<rparr>)) (\<lambda>s2.
    and_then (consume_eol E s2) (\<lambda>s3. Inr (s3\<lparr>api_calls := api_calls s3 @ [Do_read_until crlf]\<rparr>)))"
proof -
  have "and_then (consume_token E crlf u) (\<lambda>s3.
      Inr (if state s3 \<noteq> STATE_BINARY_DATA
           then s3\<lparr>api_calls := api_calls s3 @ [Do_read_until crlf]\<rparr> else s3)) =
    and_then (consume_eol E u) (\<lambda>s3. Inr (s3\<lparr>api_calls := api_calls s3 @ [Do_read_until crlf]\<rparr>))" for u
    using consume_eol_Inr [of E u] by (cases "consume_eol E u") (auto simp: consume_token_def)
  then show ?thesis using handle_read_one [OF assms, of E] by simp
qed

lemma read_command:
  assumes "idle_inv s" and k: "map_of estimates k = Some (n, c)"
    and "authenticated s \<or> c = COMMAND_LOGIN" and "LF \<notin> set body"
    and "sbuf s = message k body @ crlf @ rest"
  shows "handle_read E s =
    and_then (fold_res (consume_token E) (pieces (tokenize E) body)
      (body_start E k n c (s\<lparr>sbuf := drop (length (message k body) + 2) rest\<rparr>))) (\<lambda>s2.
    and_then (consume_eol E s2) (\<lambda>s3. Inr (s3\<lparr>api_calls := api_calls s3 @ [Do_read_until crlf]\<rparr>)))"
proof -
  have "LF \<notin> set (message k body)"
    using assms(4) estimates_key_no_lf [OF k] by (simp add: message_def)
  moreover have "parse_string E (message k body) (s\<lparr>sbuf := b\<rparr>) =
      fold_res (consume_token E) (pieces (tokenize E) body) (body_start E k n c (s\<lparr>sbuf := b\<rparr>))" for b
    by (rule parse_command [OF _ k]) (use assms(1,3) in \<open>auto simp: idle_inv_def\<close>)
  ultimately show ?thesis using handle_read_text assms(5) by simp
qed

text \<open>A body with at most as many fields as the command has: where the parser stands at the end.\<close>

lemma read_fields:
  assumes "idle_inv s" and k: "map_of estimates k = Some (n, c)"
    and "authenticated s \<or> c = COMMAND_LOGIN"
    and fs: "fs \<noteq> []" "\<forall>f \<in> set fs. field_text f" "length fs \<le> n"
    and "sbuf s = message k (join_fields fs) @ crlf @ rest"
  shows "handle_read E s =
    and_then (consume_eol E
      ((body_start E k n c (s\<lparr>sbuf := drop (length (message k (join_fields fs)) + 2) rest\<rparr>))
       \<lparr>estimate := n - length fs, trees := trees s @ [record_tree E c fs],
        state := if length fs = n then (if c \<noteq> COMMAND_BLACKBOX then STATE_END else STATE_BAR)
                 else STATE_BODY\<rparr>))
      (\<lambda>s3. Inr (s3\<lparr>api_calls := api_calls s3 @ [Do_read_until crlf]\<rparr>))"
proof -
  have "LF \<notin> set (message k (join_fields fs))"
    using join_fields_no_lf [OF fs(2)] estimates_key_no_lf [OF k] by (simp add: message_def)
  moreover have "state (s\<lparr>sbuf := b\<rparr>) = STATE_INITIAL"
    "authenticated (s\<lparr>sbuf := b\<rparr>) \<or> c = COMMAND_LOGIN" for b
    using assms(1,3) by (auto simp: idle_inv_def)
  note parsed = parse_fields [OF this(1) k this(2) fs]
  ultimately show ?thesis
    using handle_read_text [of "message k (join_fields fs)" s rest] assms(7)
    by (simp add: parsed split del: if_split)
qed

lemma read_data:
  assumes "idle_inv s" and "authenticated s"
    and k: "map_of estimates k = Some (n, c)"
    and c: "c \<in> {COMMAND_DATA, COMMAND_SHORTDATA, COMMAND_MESSAGE}"
    and fs: "fs \<noteq> []" "\<forall>f \<in> set fs. field_text f" "length fs \<le> n"
    and "sbuf s = message k (join_fields fs) @ crlf @ rest"
  shows "handle_read E s = Inr ((body_start E k n c (s\<lparr>sbuf := drop (length (message k (join_fields fs)) + 2) rest\<rparr>))
    \<lparr>estimate := n - length fs, trees := trees s @ [record_tree E c fs],
     is_parser_error := length fs < n, state := STATE_INITIAL,
     api_calls := api_calls s @ [Process_data (Some (length (trees s))), Do_read_until crlf]\<rparr>)"
  using read_fields [OF assms(1) k _ fs assms(8)] assms(2) c fs(3)
  by (auto simp: consume_eol_def commit_command_def store_data_def parser_error_def body_start_def)

lemma read_login:
  assumes "idle_inv s" and "field_text login" and "field_text pass"
    and "sbuf s = message ''L'' (join_fields [login, pass]) @ crlf @ rest"
    and "api_authenticate E login pass = Some ok"
  shows "\<exists>t. handle_read E s = Inr t \<and> authenticated t = (authenticated s \<or> ok) \<and>
    api_calls t = api_calls s @ [Authenticate login pass,
      Do_write (reply_text ''L'' (if ok then ''1'' else ''01'')), Do_read_until crlf]"
proof -
  have k: "map_of estimates ''L'' = Some (2, COMMAND_LOGIN)" by (simp add: estimates_def)
  let ?tree = "record_tree E COMMAND_LOGIN [login, pass]"
  have names: "protocol_fields COMMAND_LOGIN = [''imei'', ''password'']"
    by (simp add: protocol_fields_def fields_def command_index_def)
  have get: "tree_get E ?tree ''imei'' = Some login" "tree_get E ?tree ''password'' = Some pass"
    using record_tree_get [OF k, of "[login, pass]" 0] record_tree_get [OF k, of "[login, pass]" 1]
    by (simp_all add: names)
  show ?thesis
    using read_fields [OF assms(1) k, of "[login, pass]" rest] assms(2-5) get
    by (cases ok) (simp_all add: consume_eol_def commit_command_def commit_login_def
        call_authenticate_def handle_authenticate_def answer_def reply_text_def body_start_def Let_def)
qed

text \<open>The rest of a refused line is skipped and nobody is told.\<close>

lemma skip_line:
  "state s = STATE_SKIP_TO_END \<Longrightarrow> crlf \<notin> set toks \<Longrightarrow> fold_res (consume_token E) toks s = Inr s"
  by (induction toks) (auto simp: consume_token_def)

lemma read_refused:
  assumes "idle_inv s" and "refused_command k s" and "sep_free k"
    and lf: "LF \<notin> set (message k body)" and "sbuf s = message k body @ crlf @ rest"
  shows "\<exists>t. handle_read E s = Inr t \<and> api_calls t = api_calls s @ [Do_read_until crlf] \<and> cmd t = k \<and>
    authenticated t = authenticated s \<and> (map_of estimates k = None \<longrightarrow> current_cmd t = current_cmd s)"
proof -
  let ?s = "s\<lparr>sbuf := drop (length (message k body) + 2) rest\<rparr>"
  have toks: "tokenize E (message k body) = [[], ''#'', k, ''#''] @ pieces (tokenize E) body"
    using tok_message [OF assms(3)] by (simp add: message_def)
  have "LF \<notin> set k" "LF \<notin> set body" using lf by (simp_all add: message_def)
  then have k: "k \<noteq> crlf" and body: "crlf \<notin> set (pieces (tokenize E) body)" using piece_no_crlf by auto
  obtain u where u: "fold_res (consume_token E) [[], ''#'', k] ?s = Inr u" "state u = STATE_SKIP_TO_END"
    "api_calls u = api_calls s" "cmd u = k" "authenticated u = authenticated s"
    "map_of estimates k = None \<longrightarrow> current_cmd u = current_cmd s"
    using assms(1,2) k
    by (auto simp: consume_token_def start_message_def new_tree_def consume_command_def idle_inv_def
        refused_command_def parser_error_def Let_def split: option.splits prod.splits)
  have "fold_res (consume_token E) (''#'' # pieces (tokenize E) body) u = Inr u"
    by (rule skip_line) (use u(2) body in auto)
  moreover have "[[], ''#'', k, ''#''] @ pieces (tokenize E) body =
      [[], ''#'', k] @ (''#'' # pieces (tokenize E) body)" by simp
  ultimately have "parse_string E (message k body) ?s = Inr u"
    by (simp only: parse_string_def toks fold_res_append u(1) and_then.simps)
  with handle_read_text [OF lf assms(5)] u show ?thesis by (simp add: consume_eol_def)
qed

end

end
