(* ===== verification/Wialon_Blackbox.thy ===== *)
theory Wialon_Blackbox
  imports Wialon_Messages
begin

text \<open>
  The black box command: several records in one message, separated by bars. A record shorter than
  the full sixteen fields is closed by its bar in state \<open>STATE_BODY\<close>; a full one in \<open>STATE_BAR\<close>.
\<close>

fun join_records :: "string list list \<Rightarrow> string" where
  "join_records [] = []"
| "join_records [r] = join_fields r"
| "join_records (r # q # rs) = join_fields r @ CHR ''|'' # join_records (q # rs)"

definition short_record :: "string list \<Rightarrow> bool" where
  "short_record fs \<longleftrightarrow> fs \<noteq> [] \<and> length fs < 16 \<and> (\<forall>f \<in> set fs. field_text f)"

lemma join_records_no_lf: "\<forall>fs \<in> set rs. \<forall>f \<in> set fs. field_text f \<Longrightarrow> LF \<notin> set (join_records rs)"
  by (induction rs rule: join_records.induct) (simp_all add: join_fields_no_lf)

lemma estimates_B: "map_of estimates ''B'' = Some (16, COMMAND_BLACKBOX)"
  by (simp add: estimates_def)

text \<open>The parser at the start of a record.\<close>

definition record_start :: "'t wialon_env \<Rightarrow> 't list \<Rightarrow> 't wialon_plugin \<Rightarrow> bool" where
  "record_start E ts s \<longleftrightarrow> state s = STATE_BODY \<and> current_cmd s = COMMAND_BLACKBOX \<and> cmd s = ''B'' \<and>
     estimate s = 16 \<and> trees s = ts @ [tree_new E] \<and> tree s = Some (length ts) \<and> multicommand s = 0"

text \<open>What the parser keeps while it works through the records.\<close>

definition same_session :: "'t wialon_plugin \<Rightarrow> 't wialon_plugin \<Rightarrow> bool" where
  "same_session s t \<longleftrightarrow> sbuf t = sbuf s \<and> authenticated t = authenticated s"

lemma same_session_trans: "same_session s t \<Longrightarrow> same_session t u \<Longrightarrow> same_session s u"
  by (simp add: same_session_def)

text \<open>The parser inside or behind a record, its tree the last of the store.\<close>

definition record_open :: "'t list \<Rightarrow> 't \<Rightarrow> 't wialon_plugin \<Rightarrow> bool" where
  "record_open ts x s \<longleftrightarrow> state s = STATE_BODY \<and> current_cmd s = COMMAND_BLACKBOX \<and> cmd s = ''B'' \<and>
     trees s = ts @ [x] \<and> tree s = Some (length ts) \<and> multicommand s = 0"

lemma consume_record:
  assumes "record_start E ts s" and "short_record fs"
  shows "\<exists>t. fold_res (consume_token E) fs s = Inr t \<and>
    record_open ts (record_tree E COMMAND_BLACKBOX fs) t \<and> api_calls t = api_calls s \<and> same_session s t"
proof -
  have fs: "fs \<noteq> []" "length fs < 16" "\<forall>f \<in> set fs. field_text f"
    using assms(2) by (auto simp: short_record_def)
  have "take 16 (field_names COMMAND_BLACKBOX) = field_names COMMAND_BLACKBOX"
    using estimates_length [OF estimates_B] by simp
  then show ?thesis
    using consume_fields [OF estimates_B, of s 16 "length ts" fs E] assms(1) fs
      field_text_not_crlf [OF fs(3)] field_text_not_bar [OF fs(3)]
    by (simp add: record_start_def record_open_def record_tree_def protocol_fields_def same_session_def)
qed

lemma consume_record_bar:
  assumes "record_open ts x s"
  shows "\<exists>t. consume_token E ''|'' s = Inr t \<and> record_start E (ts @ [x]) t \<and>
    api_calls t = api_calls s @ [Process_data (Some (length ts))] \<and> same_session s t"
  using assms
  by (simp add: consume_token_def consume_body_def estimates_B store_data_def
      new_tree_def record_start_def record_open_def same_session_def)

lemma consume_record_end:
  assumes "record_open ts x s"
  shows "\<exists>t. consume_eol E s = Inr t \<and> trees t = ts @ [x] \<and> state t = STATE_INITIAL \<and>
    api_calls t = api_calls s @ [Process_data (Some (length ts)), Do_write (reply_text ''B'' ''0'')] \<and>
    same_session s t"
  using assms
  by (simp add: consume_eol_def commit_command_def store_data_def answer_def
      reply_text_def same_session_def record_open_def Let_def)

subsection \<open>Callbacks of other threads\<close>

text \<open>
  The router's callbacks run on other threads, and may come between any two tokens of a message: a line as
  its tokens (\<open>Inl\<close>) and the callbacks among them (\<open>Inr\<close>).
\<close>

definition line_step :: "'t wialon_env \<Rightarrow> string + bool \<Rightarrow> 't wialon_plugin \<Rightarrow> 't wialon_result" where
  "line_step E x s = (case x of Inl tok \<Rightarrow> consume_token E tok s | Inr ok \<Rightarrow> handle_process_data ok s)"

fun line_tokens :: "(string + bool) list \<Rightarrow> string list" where
  "line_tokens [] = []"
| "line_tokens (Inl tok # xs) = tok # line_tokens xs"
| "line_tokens (Inr ok # xs) = line_tokens xs"

fun line_callbacks :: "(string + bool) list \<Rightarrow> nat" where
  "line_callbacks [] = 0"
| "line_callbacks (Inl tok # xs) = line_callbacks xs"
| "line_callbacks (Inr ok # xs) = Suc (line_callbacks xs)"

text \<open>Inside the records the parser never looks at the count, so it only counts the callbacks.\<close>

definition in_records :: "'t wialon_plugin \<Rightarrow> bool" where
  "in_records s \<longleftrightarrow> current_cmd s = COMMAND_BLACKBOX \<and> cmd s = ''B'' \<and>
     state s \<in> {STATE_BODY, STATE_BAR, STATE_SKIP_TO_BAR_OR_END}"

lemma consume_counted:
  assumes "in_records s" and "tok \<noteq> crlf" and "consume_token E tok s = Inr t"
  shows "consume_token E tok (s\<lparr>multicommand := m\<rparr>) = Inr (t\<lparr>multicommand := m\<rparr>)" and "in_records t"
  using assms
  by (auto simp: in_records_def consume_token_def consume_body_def put_field_def store_data_def new_tree_def
      unexpected_token_def parser_error_def estimates_B Let_def split: if_splits option.splits)

lemma callback_counted:
  assumes "in_records s"
  shows "handle_process_data ok (s\<lparr>multicommand := m\<rparr>) = Inr (s\<lparr>multicommand := m + 1\<rparr>)"
  using assms by (simp add: in_records_def handle_process_data_def)

lemma line_counted:
  "in_records s \<Longrightarrow> crlf \<notin> set (line_tokens xs) \<Longrightarrow> fold_res (consume_token E) (line_tokens xs) s = Inr t \<Longrightarrow>
    fold_res (line_step E) xs (s\<lparr>multicommand := m\<rparr>) = Inr (t\<lparr>multicommand := m + of_nat (line_callbacks xs)\<rparr>)"
proof (induction xs arbitrary: s m rule: line_tokens.induct)
  case (2 tok xs)
  then obtain u where u: "consume_token E tok s = Inr u" "fold_res (consume_token E) (line_tokens xs) u = Inr t"
    by (auto simp: res_simps)
  from 2(3) have "tok \<noteq> crlf" by auto
  note step = consume_counted [OF 2(2) this u(1)]
  with u(2) 2(1) [OF step(2)] 2(3) show ?case by (simp add: line_step_def)
next
  case (3 ok xs)
  then show ?case by (simp add: line_step_def callback_counted add.assoc)
qed simp

lemma callbacks_counted:
  "in_records s \<Longrightarrow> fold_res handle_process_data oks (s\<lparr>multicommand := m\<rparr>) =
    Inr (s\<lparr>multicommand := m + of_nat (length oks)\<rparr>)"
  by (induction oks arbitrary: m) (simp_all add: callback_counted add.assoc)

lemma answer_writes:
  assumes "length (cmd s) + length msg \<le> 27"
  shows "\<exists>buf. answer msg s = Inr (s\<lparr>answer_buffer := buf, api_calls := api_calls s @ [Do_write (reply_text (cmd s) msg)]\<rparr>)"
proof -
  have size: "2 + length (cmd s) + 1 + length msg + 2 = length (reply_text (cmd s) msg)"
    by (simp add: reply_text_def)
  with assms have "\<not> 32 < length (reply_text (cmd s) msg)" by linarith
  then show ?thesis unfolding answer_def size Let_def by auto
qed

text \<open>The end of the line, with the callbacks \<open>oks\<close> between its last record and its answer.\<close>

lemma commit_counted:
  assumes "in_records s" and "tree s = Some r"
  shows "fold_res handle_process_data oks (store_data (s\<lparr>multicommand := m\<rparr>)) =
      Inr (store_data (s\<lparr>multicommand := m + of_nat (length oks)\<rparr>))"
    and "\<exists>t. commit_command E (store_data (s\<lparr>multicommand := m\<rparr>)) = Inr t \<and> trees t = trees s \<and>
      api_calls t = api_calls s @ [Process_data (Some r), Do_write (reply_text ''B'' (decimal (unat m)))]"
proof -
  have stored: "store_data (s\<lparr>multicommand := k\<rparr>) = (store_data s)\<lparr>multicommand := k\<rparr>" for k
    by (simp add: store_data_def)
  have "in_records (store_data s)" using assms(1) by (simp add: in_records_def store_data_def)
  from callbacks_counted [OF this] show "fold_res handle_process_data oks (store_data (s\<lparr>multicommand := m\<rparr>)) =
      Inr (store_data (s\<lparr>multicommand := m + of_nat (length oks)\<rparr>))"
    unfolding stored .
  let ?s = "store_data (s\<lparr>multicommand := m\<rparr>)"
  have "length (decimal (unat m)) \<le> 20" by (rule decimal_size_t)
  with assms(1) have "length (cmd ?s) + length (decimal (unat m)) \<le> 27" by (simp add: in_records_def store_data_def)
  from answer_writes [OF this] show "\<exists>t. commit_command E ?s = Inr t \<and> trees t = trees s \<and>
      api_calls t = api_calls s @ [Process_data (Some r), Do_write (reply_text ''B'' (decimal (unat m)))]"
    using assms by (auto simp: in_records_def commit_command_def store_data_def)
qed

subsection \<open>Records\<close>

context wialon_world
begin

lemma tok_records:
  assumes "short_record r"
  shows "pieces (tokenize E) (join_records (r # q # rs)) = r @ [''|''] @ pieces (tokenize E) (join_records (q # rs))"
  using assms pieces_join_kept [of r "CHR ''|''" "join_records (q # rs)"]
  by (auto simp: short_record_def field_text_def)

lemma consume_open_records:
  assumes "rs \<noteq> []" and "\<forall>r \<in> set rs. short_record r" and "record_start E ts s"
  shows "\<exists>t. fold_res (consume_token E) (pieces (tokenize E) (join_records rs)) s = Inr t \<and>
    record_open (ts @ map (record_tree E COMMAND_BLACKBOX) (butlast rs)) (record_tree E COMMAND_BLACKBOX (last rs)) t \<and>
    api_calls t = api_calls s @ map (\<lambda>i. Process_data (Some i)) [length ts..<length ts + length rs - 1] \<and>
    same_session s t"
  using assms
proof (induction rs arbitrary: ts s rule: join_records.induct)
  case 1
  then show ?case by simp
next
  case (2 r)
  then have r: "short_record r" by simp
  then have toks: "pieces (tokenize E) (join_fields r) = r"
    by (intro pieces_join) (auto simp: short_record_def field_text_def)
  with consume_record [OF 2(3) r] show ?case by simp
next
  case (3 r q rs)
  then have r: "short_record r" by simp
  from consume_record [OF 3(4) r] obtain u where u: "fold_res (consume_token E) r s = Inr u"
    "record_open ts (record_tree E COMMAND_BLACKBOX r) u" "api_calls u = api_calls s" "same_session s u" by blast
  from consume_record_bar [OF u(2)] obtain v where v: "consume_token E ''|'' u = Inr v"
    "record_start E (ts @ [record_tree E COMMAND_BLACKBOX r]) v"
    "api_calls v = api_calls u @ [Process_data (Some (length ts))]" "same_session u v" by blast
  from 3(3) have "\<forall>r \<in> set (q # rs). short_record r" by simp
  from 3(1) [OF _ this v(2)] obtain t where
    t: "fold_res (consume_token E) (pieces (tokenize E) (join_records (q # rs))) v = Inr t"
      "record_open ((ts @ [record_tree E COMMAND_BLACKBOX r]) @ map (record_tree E COMMAND_BLACKBOX) (butlast (q # rs)))
        (record_tree E COMMAND_BLACKBOX (last (q # rs))) t" "same_session v t"
      "api_calls t = api_calls v @ map (\<lambda>i. Process_data (Some i))
        [length (ts @ [record_tree E COMMAND_BLACKBOX r])..<
         length (ts @ [record_tree E COMMAND_BLACKBOX r]) + length (q # rs) - 1]" by auto
  have upt: "[length ts..<length ts + length (r # q # rs) - 1] =
      length ts # [Suc (length ts)..<Suc (length ts) + length (q # rs) - 1]"
    by (subst upt_conv_Cons) simp_all
  have "fold_res (consume_token E) (pieces (tokenize E) (join_records (r # q # rs))) s = Inr t"
    by (simp only: tok_records [OF r] fold_res_append u(1) and_then.simps fold_res.simps v(1) t(1))
  with t(2-4) u v show ?case
    using same_session_trans [OF same_session_trans [OF u(4) v(4)] t(3)] upt by simp
qed

lemma consume_records:
  assumes "rs \<noteq> []" and "\<forall>r \<in> set rs. short_record r" and "record_start E ts s"
  shows "\<exists>t. and_then (fold_res (consume_token E) (pieces (tokenize E) (join_records rs)) s) (consume_eol E) = Inr t \<and>
    trees t = ts @ map (record_tree E COMMAND_BLACKBOX) rs \<and> state t = STATE_INITIAL \<and>
    api_calls t = api_calls s @ map (\<lambda>i. Process_data (Some i)) [length ts..<length ts + length rs] @
      [Do_write (reply_text ''B'' ''0'')] \<and> same_session s t"
proof -
  obtain u where u: "fold_res (consume_token E) (pieces (tokenize E) (join_records rs)) s = Inr u"
    "record_open (ts @ map (record_tree E COMMAND_BLACKBOX) (butlast rs)) (record_tree E COMMAND_BLACKBOX (last rs)) u"
    "api_calls u = api_calls s @ map (\<lambda>i. Process_data (Some i)) [length ts..<length ts + length rs - 1]"
    "same_session s u"
    using consume_open_records [OF assms] by blast
  from consume_record_end [OF u(2)] obtain t where t: "consume_eol E u = Inr t"
    "trees t = (ts @ map (record_tree E COMMAND_BLACKBOX) (butlast rs)) @ [record_tree E COMMAND_BLACKBOX (last rs)]"
    "state t = STATE_INITIAL" "same_session u t"
    "api_calls t = api_calls u @ [Process_data (Some (length (ts @ map (record_tree E COMMAND_BLACKBOX) (butlast rs)))),
      Do_write (reply_text ''B'' ''0'')]" by blast
  have all: "map (record_tree E COMMAND_BLACKBOX) (butlast rs) @ [record_tree E COMMAND_BLACKBOX (last rs)] =
      map (record_tree E COMMAND_BLACKBOX) rs"
    using assms(1) by (metis append_butlast_last_id list.simps(8,9) map_append)
  have "[length ts..<length ts + length rs] = [length ts..<length ts + length rs - 1] @ [length ts + (length rs - 1)]"
    using assms(1) upt_Suc_append [of "length ts" "length ts + length rs - 1"] by (cases rs) simp_all
  then show ?thesis
    using u t all same_session_trans [OF u(4) t(4)] by simp
qed

lemma body_start_record: "record_start E (trees s) (body_start E ''B'' 16 COMMAND_BLACKBOX s)"
  by (simp add: record_start_def body_start_def)

lemma read_records:
  assumes "idle_inv s" and "authenticated s" and rs: "rs \<noteq> []" "\<forall>r \<in> set rs. short_record r"
    and "sbuf s = message ''B'' (join_records rs) @ crlf @ rest"
  shows "\<exists>t. handle_read E s = Inr t \<and>
    trees t = trees s @ map (record_tree E COMMAND_BLACKBOX) rs \<and>
    api_calls t = api_calls s @
      map (\<lambda>i. Process_data (Some i)) [length (trees s)..<length (trees s) + length rs] @
      [Do_write (reply_text ''B'' ''0''), Do_read_until crlf]"
proof -
  let ?s = "s\<lparr>sbuf := drop (length (message ''B'' (join_records rs)) + 2) rest\<rparr>"
  have "LF \<notin> set (join_records rs)"
    by (rule join_records_no_lf) (use rs(2) in \<open>auto simp: short_record_def\<close>)
  then have "handle_read E s =
    and_then (and_then (fold_res (consume_token E) (pieces (tokenize E) (join_records rs))
      (body_start E ''B'' 16 COMMAND_BLACKBOX ?s)) (consume_eol E))
      (\<lambda>s3. Inr (s3\<lparr>api_calls := api_calls s3 @ [Do_read_until crlf]\<rparr>))"
    using read_command [OF assms(1) estimates_B _ _ assms(5)] assms(2) by (simp add: and_then_assoc)
  then show ?thesis
    using consume_records [OF rs body_start_record [of ?s]] by (auto simp: body_start_def)
qed

text \<open>
  The body of the message, with callbacks among its tokens and before its answer: the answer says how many
  came.
\<close>

lemma read_counted_records:
  assumes "state s = STATE_INITIAL" and "authenticated s" and rs: "rs \<noteq> []" "\<forall>r \<in> set rs. short_record r"
    and "line_tokens xs = pieces (tokenize E) (join_records rs)"
  shows "\<exists>b u v t. fold_res (consume_token E) [[], ''#'', ''B'', ''#''] s = Inr b \<and>
    fold_res (line_step E) xs b = Inr u \<and> fold_res handle_process_data oks (store_data u) = Inr v \<and>
    commit_command E v = Inr t \<and> trees t = trees s @ map (record_tree E COMMAND_BLACKBOX) rs \<and>
    api_calls t = api_calls s @
      map (\<lambda>i. Process_data (Some i)) [length (trees s)..<length (trees s) + length rs] @
      [Do_write (reply_text ''B'' (decimal ((line_callbacks xs + length oks) mod 2 ^ 64)))]"
proof -
  let ?b = "body_start E ''B'' 16 COMMAND_BLACKBOX s" and ?n = "length (trees s)"
  have head: "fold_res (consume_token E) [[], ''#'', ''B'', ''#''] s = Inr ?b"
    using consume_head [OF assms(1) estimates_B, of E] assms(2) by simp
  obtain u where u: "fold_res (consume_token E) (line_tokens xs) ?b = Inr u"
    "record_open (trees s @ map (record_tree E COMMAND_BLACKBOX) (butlast rs)) (record_tree E COMMAND_BLACKBOX (last rs)) u"
    "api_calls u = api_calls ?b @ map (\<lambda>i. Process_data (Some i)) [?n..<?n + length rs - 1]"
    using consume_open_records [OF rs body_start_record [of s]] assms(5) by auto
  have "LF \<notin> set (join_records rs)"
    by (rule join_records_no_lf) (use rs(2) in \<open>auto simp: short_record_def\<close>)
  then have "crlf \<notin> set (line_tokens xs)" unfolding assms(5) by (rule piece_no_crlf)
  moreover have "in_records ?b" "?b\<lparr>multicommand := 0\<rparr> = ?b" by (simp_all add: in_records_def body_start_def)
  ultimately have line: "fold_res (line_step E) xs ?b = Inr (u\<lparr>multicommand := of_nat (line_callbacks xs)\<rparr>)"
    using line_counted [of ?b xs E u 0] u(1) by simp
  have open_u: "in_records u" "tree u = Some (?n + (length rs - 1))"
    "trees u = trees s @ map (record_tree E COMMAND_BLACKBOX) rs"
  proof -
    have "map (record_tree E COMMAND_BLACKBOX) (butlast rs) @ [record_tree E COMMAND_BLACKBOX (last rs)] =
      map (record_tree E COMMAND_BLACKBOX) rs"
      using rs(1) by (metis append_butlast_last_id list.simps(8,9) map_append)
    with u(2) show "in_records u" "tree u = Some (?n + (length rs - 1))"
      "trees u = trees s @ map (record_tree E COMMAND_BLACKBOX) rs"
      by (simp_all add: record_open_def in_records_def)
  qed
  let ?m = "of_nat (line_callbacks xs) + of_nat (length oks) :: 64 word"
  note stored = commit_counted(1) [OF open_u(1,2), of oks "of_nat (line_callbacks xs)"]
  obtain t where t: "commit_command E (store_data (u\<lparr>multicommand := ?m\<rparr>)) = Inr t" "trees t = trees u"
    "api_calls t = api_calls u @ [Process_data (Some (?n + (length rs - 1))), Do_write (reply_text ''B'' (decimal (unat ?m)))]"
    using commit_counted(2) [OF open_u(1,2), of E ?m] by blast
  have "unat ?m = (line_callbacks xs + length oks) mod 2 ^ 64"
    by (simp only: of_nat_add [symmetric] unat_of_nat) simp
  moreover have "[?n..<?n + length rs] = [?n..<?n + length rs - 1] @ [?n + (length rs - 1)]"
    using rs(1) upt_Suc_append [of ?n "?n + length rs - 1"] by (cases rs) simp_all
  moreover have "api_calls ?b = api_calls s" by (simp add: body_start_def)
  ultimately show ?thesis
    using head line stored t u(3) open_u(3) by simp
qed

text \<open>
  A record with all its fields: after its bar the parser neither starts a new tree nor counts
  fields again, so the next record is lost and the first handed over a second time.
\<close>

lemma skip_to_end:
  "state s = STATE_SKIP_TO_BAR_OR_END \<Longrightarrow> crlf \<notin> set toks \<Longrightarrow> ''|'' \<notin> set toks \<Longrightarrow>
    fold_res (consume_token E) toks s = Inr s"
  by (induction toks) (auto simp: consume_token_def)

lemma consume_second_record:
  assumes "state s = STATE_BODY" "current_cmd s = COMMAND_BLACKBOX" "cmd s = ''B''" "multicommand s = 0"
    and "estimate s = 0" "tree s = Some r" and g: "g \<noteq> []" "crlf \<notin> set g" "''|'' \<notin> set g"
  shows "\<exists>t. and_then (fold_res (consume_token E) g s) (consume_eol E) = Inr t \<and> trees t = trees s \<and>
    api_calls t = api_calls s @ [Process_data (Some r), Do_write (reply_text ''B'' ''0'')]"
proof -
  from g obtain w ws where w: "g = w # ws" by (cases g) auto
  have first: "consume_token E w s = Inr (s\<lparr>state := STATE_BAR\<rparr>)"
    using assms w by (auto simp: consume_token_def consume_body_def)
  show ?thesis
  proof (cases ws)
    case Nil
    with first w assms show ?thesis
      by (auto simp: consume_eol_def commit_command_def store_data_def answer_def reply_text_def Let_def)
  next
    case (Cons x xs)
    let ?u = "store_data (unexpected_token (s\<lparr>state := STATE_SKIP_TO_BAR_OR_END\<rparr>))"
    have "consume_token E x (s\<lparr>state := STATE_BAR\<rparr>) = Inr ?u"
      using g w Cons by (auto simp: consume_token_def)
    moreover have "fold_res (consume_token E) xs ?u = Inr ?u"
      by (rule skip_to_end) (use g w Cons in \<open>auto simp: store_data_def unexpected_token_def parser_error_def\<close>)
    ultimately show ?thesis
      using first w Cons assms
      by (auto simp: consume_eol_def commit_command_def store_data_def unexpected_token_def
          parser_error_def answer_def reply_text_def Let_def)
  qed
qed

lemma read_full_records:
  assumes "idle_inv s" and "authenticated s"
    and f: "length f = 16" "\<forall>w \<in> set f. field_text w" and g: "g \<noteq> []" "\<forall>w \<in> set g. field_text w"
    and "sbuf s = message ''B'' (join_fields f @ ''|'' @ join_fields g) @ crlf @ rest"
  shows "\<exists>t. handle_read E s = Inr t \<and> trees t = trees s @ [record_tree E COMMAND_BLACKBOX f] \<and>
    api_calls t = api_calls s @ [Process_data (Some (length (trees s))), Process_data (Some (length (trees s))),
      Do_write (reply_text ''B'' ''0''), Do_read_until crlf]"
proof -
  let ?s = "s\<lparr>sbuf := drop (length (message ''B'' (join_fields f @ ''|'' @ join_fields g)) + 2) rest\<rparr>"
  let ?u = "body_start E ''B'' 16 COMMAND_BLACKBOX ?s" and ?r = "length (trees s)"
  have f0: "f \<noteq> []" using f(1) by auto
  have toks: "pieces (tokenize E) (join_fields f @ ''|'' @ join_fields g) = f @ [''|''] @ g"
    using pieces_join_kept [OF f0, of "CHR ''|''" "join_fields g"] pieces_join [OF g(1)] f(2) g(2)
    by (auto simp: field_text_def)
  have "LF \<notin> set (join_fields f @ ''|'' @ join_fields g)"
    using join_fields_no_lf [OF f(2)] join_fields_no_lf [OF g(2)] by simp
  then have read: "handle_read E s = and_then (and_then (fold_res (consume_token E) (f @ [''|''] @ g) ?u) (consume_eol E))
      (\<lambda>s3. Inr (s3\<lparr>api_calls := api_calls s3 @ [Do_read_until crlf]\<rparr>))"
    using read_command [OF assms(1) estimates_B _ _ assms(7)] assms(2) toks by (simp add: and_then_assoc)
  have "take 16 (field_names COMMAND_BLACKBOX) = field_names COMMAND_BLACKBOX"
    using estimates_length [OF estimates_B] by simp
  then obtain v where v: "fold_res (consume_token E) f ?u = Inr v" "state v = STATE_BAR"
      "current_cmd v = COMMAND_BLACKBOX" "cmd v = ''B''" "multicommand v = 0" "estimate v = 0"
      "tree v = Some ?r" "trees v = trees s @ [record_tree E COMMAND_BLACKBOX f]" "api_calls v = api_calls s"
    using consume_fields [OF estimates_B, of ?u 16 ?r f E] f f0
      field_text_not_crlf [OF f(2)] field_text_not_bar [OF f(2)]
    by (auto simp: body_start_def record_tree_def protocol_fields_def)
  let ?w = "store_data (v\<lparr>state := STATE_BODY\<rparr>)"
  have bar: "consume_token E ''|'' v = Inr ?w" using v by (simp add: consume_token_def)
  obtain t where "and_then (fold_res (consume_token E) g ?w) (consume_eol E) = Inr t"
      "trees t = trees v" "api_calls t = api_calls s @ [Process_data (Some ?r), Process_data (Some ?r),
        Do_write (reply_text ''B'' ''0'')]"
    using consume_second_record [of ?w ?r g] v g field_text_not_crlf [OF g(2)] field_text_not_bar [OF g(2)]
    by (auto simp: store_data_def)
  with read v(1,8) bar show ?thesis by (auto simp: fold_res_append)
qed

end

end
