(* ===== verification/Wialon_Protocol.thy ===== *)
theory Wialon_Protocol
  imports Wialon_Messages
begin

text \<open>
  The protocol as a function of the tokens of one line, without parser states: which command a line is,
  what its fields are, and what a server is to do with it. The parser refines it, for every line of every
  command but the black box (theory Wialon_Blackbox), whatever the line looks like.
\<close>

subsection \<open>The specification\<close>

text \<open>
  A line is a text (the imei field of the protocol's UDP form), a hash, a command, a hash and a body. The
  command has to be in the table, and to be the login while the client has not logged in.
\<close>

fun line_command :: "bool \<Rightarrow> string list \<Rightarrow> (string \<times> nat \<times> command_t \<times> string list) option" where
  "line_command auth (t # h # k # h' # body) =
     (if h = ''#'' \<and> h' = ''#'' then
        (case map_of estimates k of
           None \<Rightarrow> None
         | Some (n, c) \<Rightarrow> if auth \<or> c = COMMAND_LOGIN then Some (k, n, c, body) else None)
      else None)"
| "line_command auth toks = None"

text \<open>
  Too many fields make a line mean nothing; a command without fields has an empty one. (The records of a
  black box are another matter.)
\<close>

definition line_meaning :: "bool \<Rightarrow> string list \<Rightarrow> (string \<times> nat \<times> command_t \<times> string list) option" where
  "line_meaning auth toks =
     Option.bind (line_command auth toks) (\<lambda>(k, n, c, body).
       if length body \<le> max 1 n \<or> c = COMMAND_BLACKBOX then Some (k, n, c, body) else None)"

text \<open>
  What a command does with the tree \<open>x\<close> of its fields, stored at \<open>r\<close>: its calls, and whether the client is
  logged in by it. \<open>short\<close> says that fields are missing.
\<close>

definition command_effect ::
  "'t wialon_env \<Rightarrow> string \<Rightarrow> command_t \<Rightarrow> string list \<Rightarrow> bool \<Rightarrow> nat \<Rightarrow> wialon_fault + (api_call list \<times> bool)" where
  "command_effect E k c fs short r =
     (case c of
        COMMAND_LOGIN \<Rightarrow>
          if short then Inr ([Do_write (reply_text k ''0'')], False)
          else
            (let login = fs ! 0; pass = fs ! 1 in
             case api_authenticate E login pass of
               None \<Rightarrow> Inr ([Authenticate login pass], False)
             | Some ok \<Rightarrow> Inr ([Authenticate login pass, Do_write (reply_text k (if ok then ''1'' else ''01''))], ok))
      | COMMAND_PING \<Rightarrow> Inr ([Do_write (reply_text k [])], False)
      | COMMAND_IMAGE \<Rightarrow>
          if tree_get_size E (record_tree E c fs) ''sz'' = None then Inl Bad_data else Inr ([], False)
      | _ \<Rightarrow> Inr ([Process_data (Some r)], False))"

subsection \<open>Lines that mean nothing\<close>

text \<open>The state after tokens that are no command.\<close>

definition headless :: "'t wialon_plugin \<Rightarrow> 't wialon_plugin \<Rightarrow> bool" where
  "headless s u \<longleftrightarrow>
     state u \<in> {STATE_INITIAL, STATE_HASH_FIRST, STATE_COMMAND, STATE_HASH_SECOND, STATE_SKIP_TO_END} \<and>
     api_calls u = api_calls s \<and> authenticated u = authenticated s"

lemma headless_eol: "headless s u \<Longrightarrow> \<exists>t. consume_eol E u = Inr t \<and> api_calls t = api_calls s \<and> authenticated t = authenticated s"
  by (auto simp: headless_def consume_eol_def unexpected_token_def parser_error_def)

lemma headless_trans:
  "headless u v \<Longrightarrow> api_calls u = api_calls s \<Longrightarrow> authenticated u = authenticated s \<Longrightarrow> headless s v"
  by (simp add: headless_def)

lemma headless_via:
  assumes "consume_token E tok s = Inr u" and "api_calls u = api_calls s" and "authenticated u = authenticated s"
    and "\<exists>v. fold_res (consume_token E) toks u = Inr v \<and> headless u v"
  shows "\<exists>v. fold_res (consume_token E) (tok # toks) s = Inr v \<and> headless s v"
  using assms headless_trans by fastforce

text \<open>The parser at the end of a body that is not too long.\<close>

definition body_end ::
  "'t wialon_env \<Rightarrow> string \<Rightarrow> nat \<Rightarrow> command_t \<Rightarrow> string list \<Rightarrow> 't wialon_plugin \<Rightarrow> 't wialon_plugin" where
  "body_end E k n c fs s =
     (body_start E k n c s)\<lparr>estimate := n - length fs, trees := trees s @ [record_tree E c fs],
       state := if length fs = max 1 n then STATE_END else STATE_BODY\<rparr>"

context wialon_world
begin

lemma from_skip:
  assumes "state u = STATE_SKIP_TO_END" and "crlf \<notin> set toks"
  shows "\<exists>v. fold_res (consume_token E) toks u = Inr v \<and> headless u v"
  using skip_line [OF assms] assms(1) by (simp add: headless_def)

lemma from_second:
  assumes "state u = STATE_HASH_SECOND" and "crlf \<notin> set toks" and "toks = [] \<or> hd toks \<noteq> ''#''"
  shows "\<exists>v. fold_res (consume_token E) toks u = Inr v \<and> headless u v"
proof (cases toks)
  case Nil
  with assms(1) show ?thesis by (simp add: headless_def)
next
  case (Cons h rest)
  let ?v = "(u\<lparr>state := STATE_SKIP_TO_END\<rparr>)\<lparr>is_parser_error := True\<rparr>"
  have step: "consume_token E h u = Inr ?v"
    using assms Cons by (auto simp: consume_token_def unexpected_token_def parser_error_def)
  have "state ?v = STATE_SKIP_TO_END" "crlf \<notin> set rest" using assms(2) Cons by simp_all
  from headless_via [OF step _ _ from_skip [OF this]] Cons show ?thesis by simp
qed

lemma from_command:
  assumes "state u = STATE_COMMAND" and "crlf \<notin> set toks"
    and no: "\<And>k rest. toks = k # ''#'' # rest \<Longrightarrow> refused_command k u"
  shows "\<exists>v. fold_res (consume_token E) toks u = Inr v \<and> headless u v"
proof (cases toks)
  case Nil
  with assms(1) show ?thesis by (simp add: headless_def)
next
  case (Cons k rest)
  let ?v = "consume_command k u"
  have step: "consume_token E k u = Inr ?v" using assms(1,2) Cons by (auto simp: consume_token_def)
  have same: "api_calls ?v = api_calls u" "authenticated ?v = authenticated u"
    by (simp_all add: consume_command_def parser_error_def Let_def split: option.split prod.split)
  have rest: "crlf \<notin> set rest" using assms(2) Cons by simp
  have "\<exists>v. fold_res (consume_token E) rest ?v = Inr v \<and> headless ?v v"
  proof (cases "refused_command k u")
    case True
    then have "state ?v = STATE_SKIP_TO_END"
      by (auto simp: refused_command_def consume_command_def parser_error_def Let_def split: option.splits prod.splits)
    from from_skip [OF this rest] show ?thesis .
  next
    case False
    then have "state ?v = STATE_HASH_SECOND"
      by (auto simp: refused_command_def consume_command_def Let_def split: option.splits prod.splits)
    moreover have "rest = [] \<or> hd rest \<noteq> ''#''"
      using no [of k "tl rest"] False Cons by (cases rest) auto
    ultimately show ?thesis using from_second rest by blast
  qed
  from headless_via [OF step same this] Cons show ?thesis by simp
qed

lemma from_first:
  assumes "state u = STATE_HASH_FIRST" and "crlf \<notin> set toks"
    and no: "\<And>k rest. toks = ''#'' # k # ''#'' # rest \<Longrightarrow> refused_command k u"
  shows "\<exists>v. fold_res (consume_token E) toks u = Inr v \<and> headless u v"
proof (cases toks)
  case Nil
  with assms(1) show ?thesis by (simp add: headless_def)
next
  case (Cons h rest)
  have rest: "crlf \<notin> set rest" using assms(2) Cons by simp
  show ?thesis
  proof (cases "h = ''#''")
    case True
    let ?v = "u\<lparr>state := STATE_COMMAND\<rparr>"
    have step: "consume_token E h u = Inr ?v" using assms(1) True by (simp add: consume_token_def)
    have "refused_command k ?v" if "rest = k # ''#'' # r" for k r
      using no [of k r] that Cons True by (auto simp: refused_command_def split: option.splits)
    then have "\<exists>v. fold_res (consume_token E) rest ?v = Inr v \<and> headless ?v v"
      by (intro from_command [OF _ rest]) simp_all
    from headless_via [OF step _ _ this] Cons show ?thesis by simp
  next
    case False
    let ?v = "(u\<lparr>state := STATE_SKIP_TO_END\<rparr>)\<lparr>is_parser_error := True\<rparr>"
    have step: "consume_token E h u = Inr ?v"
      using assms(1,2) Cons False by (auto simp: consume_token_def unexpected_token_def parser_error_def)
    have "\<exists>v. fold_res (consume_token E) rest ?v = Inr v \<and> headless ?v v" by (rule from_skip [OF _ rest]) simp
    from headless_via [OF step _ _ this] Cons show ?thesis by simp
  qed
qed

lemma consume_headless:
  assumes "state s = STATE_INITIAL" and "line_command (authenticated s) toks = None" and "crlf \<notin> set toks"
  shows "\<exists>u. fold_res (consume_token E) toks s = Inr u \<and> headless s u"
proof (cases toks)
  case Nil
  with assms(1) show ?thesis by (simp add: headless_def)
next
  case (Cons t rest)
  let ?h = "(start_message E s)\<lparr>state := STATE_HASH_FIRST\<rparr>"
  have step: "consume_token E t s = Inr ?h" using assms(1,3) Cons by (auto simp: consume_token_def)
  have same: "api_calls ?h = api_calls s" "authenticated ?h = authenticated s"
    by (simp_all add: start_message_def new_tree_def)
  have "refused_command k ?h" if "rest = ''#'' # k # ''#'' # r" for k r
    using assms(2) that Cons same(2)
    by (auto simp: refused_command_def split: option.splits prod.splits if_splits)
  then have "\<exists>v. fold_res (consume_token E) rest ?h = Inr v \<and> headless ?h v"
    using assms(3) Cons by (intro from_first) simp_all
  from headless_via [OF step same this] Cons show ?thesis by simp
qed

subsection \<open>Bodies\<close>

lemma consume_short_body:
  assumes k: "map_of estimates k = Some (n, c)" and "c \<noteq> COMMAND_BLACKBOX" and "length fs \<le> max 1 n" and "crlf \<notin> set fs"
  shows "fold_res (consume_token E) fs (body_start E k n c s) = Inr (body_end E k n c fs s)"
proof (cases "n = 0")
  case True
  with k have c: "c = COMMAND_PING" by (elim estimates_cases) simp_all
  have names: "field_names c = []" using c by (simp add: fields_def command_index_def)
  show ?thesis
  proof (cases fs)
    case Nil
    with True show ?thesis by (simp add: body_end_def body_start_def record_tree_def)
  next
    case (Cons f fs')
    with assms(3) True have "fs' = []" by simp
    with Cons True assms(2,4) names show ?thesis
      by (auto simp: body_end_def body_start_def record_tree_def protocol_fields_def consume_token_def consume_body_def)
  qed
next
  case False
  with assms(3) have len: "length fs \<le> n" by simp
  have "take n (field_names c) = field_names c" using estimates_length [OF k] by simp
  then show ?thesis
    using consume_fields [OF k, of "body_start E k n c s" n "length (trees s)" fs E] len assms(2,4) False
    by (auto simp: body_end_def body_start_def record_tree_def protocol_fields_def list_update_append max_def)
qed

lemma consume_long_body:
  assumes k: "map_of estimates k = Some (n, c)" and "c \<noteq> COMMAND_BLACKBOX" and "max 1 n < length fs" and "crlf \<notin> set fs"
  shows "\<exists>u. fold_res (consume_token E) fs (body_start E k n c s) = Inr u \<and> headless s u"
proof -
  let ?m = "max 1 n"
  obtain f where fs: "fs = take ?m fs @ f # drop (Suc ?m) fs" using id_take_nth_drop [OF assms(3)] by blast
  have parts: "crlf \<notin> set (take ?m fs)" "f \<noteq> crlf" "crlf \<notin> set (drop (Suc ?m) fs)"
  proof -
    have "f \<in> set fs" by (subst fs) simp
    with assms(4) show "crlf \<notin> set (take ?m fs)" "f \<noteq> crlf" "crlf \<notin> set (drop (Suc ?m) fs)"
      by (auto dest: in_set_takeD in_set_dropD)
  qed
  let ?u = "body_end E k n c (take ?m fs) s"
  let ?v = "(?u\<lparr>state := STATE_SKIP_TO_END\<rparr>)\<lparr>is_parser_error := True\<rparr>"
  have "fold_res (consume_token E) (take ?m fs) (body_start E k n c s) = Inr ?u"
    by (rule consume_short_body [OF k assms(2) _ parts(1)]) simp
  moreover have "state ?u = STATE_END" using assms(3) by (simp add: body_end_def)
  then have step: "consume_token E f ?u = Inr ?v"
    using parts(2) by (auto simp: consume_token_def unexpected_token_def parser_error_def)
  have "\<exists>v. fold_res (consume_token E) (drop (Suc ?m) fs) ?v = Inr v \<and> headless ?v v"
    by (rule from_skip [OF _ parts(3)]) simp
  from headless_via [OF step _ _ this] obtain v where
    "fold_res (consume_token E) (f # drop (Suc ?m) fs) ?u = Inr v" "headless ?u v" by auto
  ultimately have "fold_res (consume_token E) (take ?m fs @ f # drop (Suc ?m) fs) (body_start E k n c s) = Inr v"
    unfolding fold_res_append by simp
  then have "fold_res (consume_token E) fs (body_start E k n c s) = Inr v" by (subst fs)
  moreover have "headless s v"
    using \<open>headless ?u v\<close> by (rule headless_trans) (simp_all add: body_end_def body_start_def)
  ultimately show ?thesis by blast
qed

text \<open>The end of the line.\<close>

lemma commit_body:
  assumes k: "map_of estimates k = Some (n, c)" and "c \<noteq> COMMAND_BLACKBOX" and "length fs \<le> max 1 n"
    and "fs \<noteq> []"
  shows "(case command_effect E k c fs (length fs < max 1 n) (length (trees s)) of
      Inl f \<Rightarrow> consume_eol E (body_end E k n c fs s) = Inl f
    | Inr (calls, login) \<Rightarrow>
        \<exists>t. consume_eol E (body_end E k n c fs s) = Inr t \<and> api_calls t = api_calls s @ calls \<and>
          trees t = trees s @ [record_tree E c fs] \<and> authenticated t = (authenticated s \<or> login))"
proof -
  let ?u = "body_end E k n c fs s" and ?short = "length fs < max 1 n"
  have eol: "consume_eol E ?u = and_then (commit_command E (?u\<lparr>is_parser_error := ?short\<rparr>))
      (\<lambda>s'. Inr (s'\<lparr>state := STATE_INITIAL\<rparr>))"
  proof (cases ?short)
    case True
    with assms(2) show ?thesis by (simp add: consume_eol_def body_end_def body_start_def parser_error_def)
  next
    case False
    have "?u\<lparr>is_parser_error := False\<rparr> = ?u"
      by (rule wialon_plugin.equality) (simp_all add: body_end_def body_start_def)
    moreover have "state ?u = STATE_END" using False assms(3) by (simp add: body_end_def)
    ultimately show ?thesis using False by (simp add: consume_eol_def)
  qed
  show ?thesis
  proof (cases "c = COMMAND_LOGIN")
    case True
    with k have n: "n = 2" "k = ''L''" by (auto simp: estimates_def split: if_splits)
    show ?thesis
    proof (cases ?short)
      case True
      with \<open>c = COMMAND_LOGIN\<close> n show ?thesis
        unfolding eol by (simp add: command_effect_def commit_command_def commit_login_def body_end_def body_start_def
            answer_def reply_text_def Let_def)
    next
      case False
      with assms(3) n have len: "length fs = 2" by simp
      have names: "protocol_fields COMMAND_LOGIN = [''imei'', ''password'']"
        by (simp add: protocol_fields_def fields_def command_index_def)
      have "tree_get E (record_tree E c fs) ''imei'' = Some (fs ! 0)" "tree_get E (record_tree E c fs) ''password'' = Some (fs ! 1)"
        using record_tree_get [OF k, of fs 0] record_tree_get [OF k, of fs 1] len n \<open>c = COMMAND_LOGIN\<close>
        by (simp_all add: names)
      with False \<open>c = COMMAND_LOGIN\<close> n len show ?thesis
        unfolding eol by (auto simp: command_effect_def commit_command_def commit_login_def call_authenticate_def
            handle_authenticate_def body_end_def body_start_def answer_def reply_text_def Let_def split: option.split)
    qed
  next
    case False
    have "tree_get E (record_tree E c fs) ''sz'' = Some (hd fs)" if "c = COMMAND_IMAGE"
    proof -
      from that k have "n = 6" by (elim estimates_cases) simp_all
      with that assms(3,4) show ?thesis by (simp add: record_tree_size)
    qed
    with k False assms(2) show ?thesis
      unfolding eol
      by (elim estimates_cases)
        (auto simp: command_effect_def commit_command_def store_data_def body_end_def body_start_def
          answer_def reply_text_def Let_def split: option.split)
  qed
qed

subsection \<open>Lines\<close>

lemma line_command_Some:
  assumes "line_command auth toks = Some (k, n, c, fs)"
  obtains t where "toks = t # ''#'' # k # ''#'' # fs" "map_of estimates k = Some (n, c)" "auth \<or> c = COMMAND_LOGIN"
  using assms by (cases "(auth, toks)" rule: line_command.cases) (auto split: if_splits option.splits)

lemma consume_line_head:
  assumes "state s = STATE_INITIAL" and "t \<noteq> crlf" and k: "map_of estimates k = Some (n, c)"
    and "authenticated s \<or> c = COMMAND_LOGIN"
  shows "fold_res (consume_token E) (t # ''#'' # k # ''#'' # fs) s = fold_res (consume_token E) fs (body_start E k n c s)"
proof -
  have "consume_token E t s = consume_token E [] s" using assms(1,2) by (auto simp: consume_token_def)
  then have "fold_res (consume_token E) [t, ''#'', k, ''#''] s = Inr (body_start E k n c s)"
    using consume_head [OF assms(1) k assms(4), of E] by simp
  then show ?thesis using fold_res_append [of "consume_token E" "[t, ''#'', k, ''#'']" fs s] by simp
qed

lemma read_line_nothing:
  assumes "idle_inv s" and "LF \<notin> set m" and "sbuf s = m @ crlf" and "line_meaning (authenticated s) (tokenize E m) = None"
  shows "\<exists>t. handle_read E s = Inr t \<and> api_calls t = api_calls s @ [Do_read_until crlf] \<and> authenticated t = authenticated s"
proof -
  let ?s = "s\<lparr>sbuf := []\<rparr>"
  have start: "state ?s = STATE_INITIAL" using assms(1) by (simp add: idle_inv_def)
  have toks: "crlf \<notin> set (tokenize E m)" by (rule token_no_crlf [OF assms(2)])
  have "\<exists>u. fold_res (consume_token E) (tokenize E m) ?s = Inr u \<and> headless ?s u"
  proof (cases "line_command (authenticated s) (tokenize E m)")
    case None
    then show ?thesis using consume_headless [OF start _ toks] by simp
  next
    case (Some r)
    obtain k n c fs where r: "r = (k, n, c, fs)" by (cases r)
    with Some assms(4) have long: "c \<noteq> COMMAND_BLACKBOX" "max 1 n < length fs"
      by (auto simp: line_meaning_def split: if_splits)
    from Some r obtain t where t: "tokenize E m = t # ''#'' # k # ''#'' # fs" "map_of estimates k = Some (n, c)"
      "authenticated s \<or> c = COMMAND_LOGIN" by (auto elim: line_command_Some)
    have "t \<noteq> crlf" "crlf \<notin> set fs" using toks t(1) by auto
    with consume_line_head [OF start _ t(2)] consume_long_body [OF t(2) long] t show ?thesis by simp
  qed
  then obtain u where u: "parse_string E m ?s = Inr u" "headless ?s u" by (auto simp: parse_string_def)
  from headless_eol [OF u(2)] obtain t where "consume_eol E u = Inr t" "api_calls t = api_calls s"
    "authenticated t = authenticated s" by auto
  with handle_read_text [of m s "[]"] assms(2,3) u(1) show ?thesis by simp
qed

lemma read_line_command:
  assumes "idle_inv s" and "LF \<notin> set m" and "sbuf s = m @ crlf"
    and "line_meaning (authenticated s) (tokenize E m) = Some (k, n, c, fs)" and "c \<noteq> COMMAND_BLACKBOX"
  shows "(case command_effect E k c fs (length fs < max 1 n) (length (trees s)) of
      Inl f \<Rightarrow> handle_read E s = Inl f
    | Inr (calls, login) \<Rightarrow>
        \<exists>t. handle_read E s = Inr t \<and> api_calls t = api_calls s @ calls @ [Do_read_until crlf] \<and>
          trees t = trees s @ [record_tree E c fs] \<and> authenticated t = (authenticated s \<or> login))"
proof -
  let ?s = "s\<lparr>sbuf := []\<rparr>"
  have start: "state ?s = STATE_INITIAL" using assms(1) by (simp add: idle_inv_def)
  have toks: "crlf \<notin> set (tokenize E m)" by (rule token_no_crlf [OF assms(2)])
  from assms(4) have lc: "line_command (authenticated s) (tokenize E m) = Some (k, n, c, fs)"
    and short: "length fs \<le> max 1 n"
    using assms(5) by (auto simp: line_meaning_def split: if_splits Option.bind_splits)
  from lc obtain t where t: "tokenize E m = t # ''#'' # k # ''#'' # fs" "map_of estimates k = Some (n, c)"
    "authenticated s \<or> c = COMMAND_LOGIN" by (auto elim: line_command_Some)
  have ne: "fs \<noteq> []" using tokens_follow [OF line_no_crlf [OF assms(2)]] t(1) by auto
  have "t \<noteq> crlf" "crlf \<notin> set fs" using toks t(1) by auto
  with consume_line_head [OF start _ t(2)] consume_short_body [OF t(2) assms(5) short] t(1,3)
  have "parse_string E m ?s = Inr (body_end E k n c fs ?s)" by (simp add: parse_string_def)
  with handle_read_text [of m s "[]"] assms(2,3)
  have "handle_read E s = and_then (consume_eol E (body_end E k n c fs ?s))
      (\<lambda>s3. Inr (s3\<lparr>api_calls := api_calls s3 @ [Do_read_until crlf]\<rparr>))" by simp
  with commit_body [OF t(2) assms(5) short ne, of ?s] show ?thesis
    by (auto split: sum.splits prod.splits)
qed

end

end
