(* ===== verification/Wialon_Properties.thy ===== *)
theory Wialon_Properties
  imports Wialon_Blackbox Wialon_Protocol
begin

text \<open>
  The properties of the Wialon translator. Those that depend on the tokenizer or the trees assume
  \<open>wialon_world E\<close>, the documented laws of both; \<open>sample_env\<close> is an environment that obeys them.
\<close>

interpretation sample: wialon_world "sample_env auth" for auth
  by (simp add: wialon_world_def sample_env_def dpt.tree_store_axioms split_tok.tokenizer_axioms)

definition sample_plugin :: "dptree wialon_plugin" where
  "sample_plugin = wialon_init (replicate 32 (CHR ''x'')) 0 0 False COMMAND_COUNT"

abbreviation accept_all :: "dptree wialon_env" where
  "accept_all \<equiv> sample_env (\<lambda>_ _. Some True)"

abbreviation reject_all :: "dptree wialon_env" where
  "reject_all \<equiv> sample_env (\<lambda>_ _. Some False)"

lemma sample_idle: "idle_inv sample_plugin"
  by (simp add: sample_plugin_def idle_init)

subsection \<open>Authentication\<close>

lemma call_authenticate_rejected:
  assumes "\<And>l p. api_authenticate E l p \<noteq> Some True" and "call_authenticate E l p s = Inr t"
  shows "authenticated t = authenticated s"
  using assms handle_authenticate_Inr(3) [of False "s\<lparr>api_calls := api_calls s @ [Authenticate l p]\<rparr>" t]
  by (auto simp: call_authenticate_def Let_def split: option.splits)
    (metis (full_types))+

lemma commit_command_rejected:
  assumes rej: "\<And>l p. api_authenticate E l p \<noteq> Some True" and "commit_command E s = Inr t"
  shows "authenticated t = authenticated s"
  using assms(2)
  by (auto simp: commit_command_def commit_login_def and_then_Inr
      dest: answer_Inr(4) call_authenticate_rejected [OF rej]
      split: option.splits command_t.splits if_splits)

lemma consume_eol_rejected:
  assumes rej: "\<And>l p. api_authenticate E l p \<noteq> Some True" and "consume_eol E s = Inr t"
  shows "authenticated t = authenticated s"
  using assms(2)
  by (auto simp: consume_eol_def and_then_Inr unexpected_token_def parser_error_def
      dest!: commit_command_rejected [OF rej] split: state_t.splits if_splits)

lemma put_field_authenticated: "put_field E tok s = Inr t \<Longrightarrow> authenticated t = authenticated s"
  by (auto simp: put_field_def Let_def split: option.splits)

lemma consume_body_authenticated:
  assumes "consume_body E tok s = Inr t" shows "authenticated t = authenticated s"
proof (cases "current_cmd s = COMMAND_BLACKBOX \<and> tok = ''|''")
  case False
  with assms obtain u where "(if estimate s \<noteq> 0 then put_field E tok s else Inr s) = Inr u"
    "t = (if estimate u = 0 then u\<lparr>state := if current_cmd u \<noteq> COMMAND_BLACKBOX then STATE_END else STATE_BAR\<rparr> else u)"
    unfolding consume_body_def and_then_Inr by (simp only: if_False) (auto simp only: and_then_Inr sum.inject)
  then show ?thesis by (auto dest: put_field_authenticated split: if_split_asm)
qed (use assms in \<open>auto simp: consume_body_def store_data_def new_tree_def split: option.split_asm\<close>)

lemma consume_token_rejected:
  assumes rej: "\<And>l p. api_authenticate E l p \<noteq> Some True" and "consume_token E tok s = Inr t"
  shows "authenticated t = authenticated s"
  using assms(2)
  by (auto simp: consume_token_def unexpected_token_def parser_error_def new_tree_def start_message_def
      consume_command_def Let_def
      dest!: consume_eol_rejected [OF rej] consume_body_authenticated
      split: state_t.splits if_splits option.splits)

lemma fold_tokens_rejected:
  assumes rej: "\<And>l p. api_authenticate E l p \<noteq> Some True"
  shows "fold_res (consume_token E) toks s = Inr t \<Longrightarrow> authenticated t = authenticated s"
  by (induction toks arbitrary: s) (auto simp: and_then_Inr dest: consume_token_rejected [OF rej])

lemma wialon_step_rejected:
  assumes rej: "\<And>l p. api_authenticate E l p \<noteq> Some True" and "ev \<noteq> Auth_done True"
    and "wialon_step E ev s = Inr t"
  shows "authenticated t = authenticated s"
proof (cases ev)
  case (Read_done bytes)
  with assms(3) have "handle_read E (s\<lparr>sbuf := sbuf s @ bytes\<rparr>) = Inr t" by simp
  then show ?thesis
  proof (cases rule: handle_read_Inr)
    case (stuck buf)
    then show ?thesis by simp
  next
    case (worked m buf s2 s3)
    have "authenticated s2 = authenticated s"
      using fold_tokens_rejected [OF rej worked(2) [unfolded parse_string_def]] by simp
    moreover have "authenticated s3 = authenticated s2"
      using consume_token_rejected [OF rej, of crlf s2 s3] worked(3) by (simp add: consume_token_def)
    ultimately show ?thesis using worked(4) by simp
  qed
next
  case (Auth_done ok)
  with assms show ?thesis by (auto dest: handle_authenticate_Inr(3))
qed (use assms in \<open>auto simp: handle_start_def handle_write_def dest: handle_process_data_Inr(3)\<close>)

lemma wialon_run_rejected:
  assumes rej: "\<And>l p. api_authenticate E l p \<noteq> Some True"
  shows "Auth_done True \<notin> set evs \<Longrightarrow> wialon_run E evs s = Inr t \<Longrightarrow> authenticated t = authenticated s"
proof (induction evs arbitrary: s)
  case (Cons ev evs)
  then obtain u where "wialon_step E ev s = Inr u" "wialon_run E evs u = Inr t" by (auto simp: and_then_Inr)
  with Cons wialon_step_rejected [OF rej, of ev s u] show ?case by auto
qed simp

text \<open>
  C5. A client that never logs in reaches no dispatcher: when every login is rejected, whatever
  bytes arrive and whatever callbacks come, the plugin makes no call of \<open>process_data\<close>.
\<close>

theorem no_login_no_data:
  assumes "wialon_world E" and "\<forall>l p. api_authenticate E l p \<noteq> Some True"
    and "Auth_done True \<notin> set evs"
    and "wialon_run E evs (wialon_init buf est multi err c) = Inr t"
  shows "Process_data r \<notin> set (api_calls t)"
proof -
  have "idle_inv t" using assms(1,4) by (rule wialon_world.run_idle)
  moreover have "\<not> authenticated t"
    using wialon_run_rejected [of E evs] assms(2-4) by (auto simp: wialon_init_def)
  ultimately show ?thesis by (simp add: idle_inv_def login_ok_def)
qed

lemma no_login_no_data_witness:
  "\<exists>t. wialon_run reject_all [Started, Read_done (''#L#353;secret'' @ crlf), Read_done (''#M#hello'' @ crlf)]
      sample_plugin = Inr t \<and> Process_data (Some 1) \<notin> set (api_calls t)"
proof -
  let ?evs = "[Started, Read_done (''#L#353;secret'' @ crlf), Read_done (''#M#hello'' @ crlf)]"
  have "\<not> isl (wialon_run reject_all ?evs sample_plugin)" by code_simp
  then obtain t where t: "wialon_run reject_all ?evs sample_plugin = Inr t" by (blast dest: returned)
  have "Process_data (Some 1) \<notin> set (api_calls t)"
    by (rule no_login_no_data [OF sample.wialon_world_axioms _ _ t [unfolded sample_plugin_def]])
      (simp_all add: sample_env_def)
  with t show ?thesis by blast
qed

subsection \<open>Faults, bounds, sharing\<close>

text \<open>
  C22. In any run from a new connection, whatever the peer sends and however the callbacks arrive,
  the parser never dereferences a missing tree, never indexes its tables out of range and never
  reads a field that is not there, neither of a login nor of an image, however short its line: the only
  faults are an empty line, an image size that is no number, and an answer longer than the answer buffer.
\<close>

theorem wialon_faults:
  assumes "wialon_world E" and "wialon_run E evs (wialon_init buf est multi err c) = Inl e"
  shows "e \<in> {Empty_line, Bad_data, Buffer_overrun}"
  using assms by (rule wialon_world.run_faults)

lemma wialon_faults_witness:
  "wialon_run accept_all [Started, Read_done (''a'' @ [LF] @ ''bc'' @ [LF] @ crlf)] sample_plugin = Inl Empty_line \<and>
   Empty_line \<in> {Empty_line, Bad_data, Buffer_overrun}"
proof
  show run: "wialon_run accept_all [Started, Read_done (''a'' @ [LF] @ ''bc'' @ [LF] @ crlf)] sample_plugin = Inl Empty_line"
    by code_simp
  show "Empty_line \<in> {Empty_line, Bad_data, Buffer_overrun}"
    by (rule wialon_faults [OF sample.wialon_world_axioms run [unfolded sample_plugin_def]])
qed

text \<open>
  C33. Reading alone never overruns the 32 byte answer buffer: as long as no callback of the router
  arrives late, every answer the parser writes fits.
\<close>

theorem read_never_overruns:
  assumes "wialon_world E" and "\<forall>ok. Data_done ok \<notin> set evs \<and> Auth_done ok \<notin> set evs"
    and "wialon_run E evs (wialon_init buf est multi err c) = Inl e"
  shows "e \<noteq> Buffer_overrun"
  using wialon_world.run_read_faults [OF assms(1,2) idle_init assms(3)] .

lemma read_never_overruns_witness:
  "wialon_run accept_all [Started, Read_done (''#L#1;2'' @ crlf), Read_done (''#I#many'' @ crlf)] sample_plugin =
     Inl Bad_data \<and> Bad_data \<noteq> Buffer_overrun"
proof
  let ?evs = "[Started, Read_done (''#L#1;2'' @ crlf), Read_done (''#I#many'' @ crlf)]"
  show run: "wialon_run accept_all ?evs sample_plugin = Inl Bad_data" by code_simp
  show "Bad_data \<noteq> Buffer_overrun"
    by (rule read_never_overruns [OF sample.wialon_world_axioms _ run [unfolded sample_plugin_def]]) simp
qed

text \<open>
  C23. A tree that was handed to the dispatchers is never written again, neither by the rest of the
  message it came in nor by anything that happens later: the dispatchers share the object with the
  parser and read it on other threads, and find what the parser had put there.
\<close>

theorem handed_tree_frozen:
  assumes "wialon_world E" and "wialon_run E evs (wialon_init buf est multi err c) = Inr s"
    and "fold_res (consume_token E) toks s = Inr u" and "Process_data (Some r) \<in> set (api_calls u)"
    and "fold_res (consume_token E) toks' u = Inr v"
    and "Process_data (Some q) \<in> set (api_calls s)" and "wialon_run E evs' s = Inr t"
  shows "trees v ! r = trees u ! r \<and> trees t ! q = trees s ! q"
proof -
  have idle: "idle_inv s" using assms(1,2) by (rule wialon_world.run_idle)
  then have "keeps s t" using assms(1,7) by (blast intro: wialon_world.run_keeps)
  moreover have "parser_inv E u"
    using wialon_world.tokens_keep(1) [OF assms(1) idle_parser_inv [OF idle] assms(3)] .
  then have "keeps u v" using wialon_world.tokens_keep(2) [OF assms(1) _ assms(5)] by blast
  ultimately show ?thesis using assms(4,6) by (auto simp: keeps_def published_def)
qed

lemma handed_tree_frozen_witness:
  "\<exists>s u v t. wialon_run accept_all [Started, Read_done (''#L#1;2'' @ crlf), Read_done (''#B#a;b|c'' @ crlf)]
        sample_plugin = Inr s \<and>
      fold_res (consume_token accept_all) [[], ''#'', ''B'', ''#'', ''d'', ''|''] s = Inr u \<and>
      fold_res (consume_token accept_all) [''e'', ''f''] u = Inr v \<and>
      wialon_run accept_all [Read_done (''#B#d;e|f'' @ crlf)] s = Inr t \<and>
      trees v ! 3 = trees u ! 3 \<and> trees t ! 1 = trees s ! 1"
proof -
  let ?es = "[Started, Read_done (''#L#1;2'' @ crlf), Read_done (''#B#a;b|c'' @ crlf)]"
    and ?ts = "[Read_done (''#B#d;e|f'' @ crlf)]"
    and ?us = "[[], ''#'', ''B'', ''#'', ''d'', ''|'']" and ?vs = "[''e'', ''f'']"
  let ?s = "projr (wialon_run accept_all ?es sample_plugin)"
  let ?u = "projr (fold_res (consume_token accept_all) ?us ?s)"
  have "\<not> isl (wialon_run accept_all ?es sample_plugin)" by code_simp
  then obtain s where s: "wialon_run accept_all ?es sample_plugin = Inr s" by (blast dest: returned)
  have "\<not> isl (fold_res (consume_token accept_all) ?us ?s)" by code_simp
  then obtain u where u: "fold_res (consume_token accept_all) ?us s = Inr u" using s by (auto dest: returned)
  have "\<not> isl (fold_res (consume_token accept_all) ?vs ?u)" by code_simp
  then obtain v where v: "fold_res (consume_token accept_all) ?vs u = Inr v" using s u by (auto dest: returned)
  have "Process_data (Some 1) \<in> set (api_calls ?s)" "Process_data (Some 3) \<in> set (api_calls ?u)"
    by code_simp+
  with s u have mem: "Process_data (Some 1) \<in> set (api_calls s)" "Process_data (Some 3) \<in> set (api_calls u)"
    by simp_all
  have "\<not> isl (wialon_run accept_all (?es @ ?ts) sample_plugin)" by code_simp
  then obtain t where t: "wialon_run accept_all ?ts s = Inr t"
    using s by (auto simp only: fold_res_append and_then.simps dest: returned)
  from handed_tree_frozen [OF sample.wialon_world_axioms s [unfolded sample_plugin_def] u mem(2) v mem(1) t] s u v t
  show ?thesis by blast
qed

text \<open>
  Between two calls the parser always waits for a new message. In particular the state that
  would read the binary data of an image command is gone by the time \<open>handle_read\<close> looks at it,
  so the bytes of the image are parsed as messages.
\<close>

theorem always_back_to_initial:
  assumes "wialon_world E" and "wialon_run E evs (wialon_init buf est multi err c) = Inr t"
  shows "state t = STATE_INITIAL"
  using wialon_world.run_idle [OF assms] by (simp add: idle_inv_def)

lemma always_back_to_initial_witness:
  "\<exists>t. wialon_run accept_all [Started, Read_done (''#L#1;2'' @ crlf), Read_done (''#I#9;1;1;d;t;n'' @ crlf)]
      sample_plugin = Inr t \<and> state t = STATE_INITIAL"
proof -
  let ?evs = "[Started, Read_done (''#L#1;2'' @ crlf), Read_done (''#I#9;1;1;d;t;n'' @ crlf)]"
  have "\<not> isl (wialon_run accept_all ?evs sample_plugin)" by code_simp
  then obtain t where t: "wialon_run accept_all ?evs sample_plugin = Inr t" by (blast dest: returned)
  with always_back_to_initial [OF sample.wialon_world_axioms t [unfolded sample_plugin_def]] show ?thesis by blast
qed

subsection \<open>Messages\<close>

lemma table_command_not_count: "map_of estimates k = Some (n, c) \<Longrightarrow> c \<noteq> COMMAND_COUNT"
  by (elim estimates_cases) simp_all

definition logged_in_plugin :: "string \<Rightarrow> dptree wialon_plugin" where
  "logged_in_plugin buf = sample_plugin\<lparr>sbuf := buf, authenticated := True\<rparr>"

lemma logged_in_idle: "idle_inv (logged_in_plugin buf)"
  by (simp add: logged_in_plugin_def sample_plugin_def wialon_init_def idle_inv_def tree_ok_def
      login_ok_def published_def)

text \<open>
  C4. For every line of every command but the black box, whatever it holds, the parser does what the
  protocol says of its tokens, written without parser states: a line that is no command, is not allowed
  before the login, or has too many fields does nothing; otherwise the command's calls are made, in order,
  on one tree of the fields under the protocol's names, and the client is logged in when the router agrees.
  Either way the parser reads on; only an image whose size is no number makes it fail.
\<close>

theorem parser_refines_protocol:
  assumes "wialon_world E" and "idle_inv s" and "LF \<notin> set m" and "sbuf s = m @ crlf"
    and "\<And>k n fs. line_meaning (authenticated s) (tokenize E m) \<noteq> Some (k, n, COMMAND_BLACKBOX, fs)"
  shows "(case line_meaning (authenticated s) (tokenize E m) of
      None \<Rightarrow> \<exists>t. handle_read E s = Inr t \<and> api_calls t = api_calls s @ [Do_read_until crlf] \<and>
        authenticated t = authenticated s
    | Some (k, n, c, fs) \<Rightarrow>
        (case command_effect E k c fs (length fs < max 1 n) (length (trees s)) of
           Inl f \<Rightarrow> handle_read E s = Inl f
         | Inr (calls, login) \<Rightarrow>
             \<exists>t. handle_read E s = Inr t \<and> api_calls t = api_calls s @ calls @ [Do_read_until crlf] \<and>
               trees t = trees s @ [record_tree E c fs] \<and> authenticated t = (authenticated s \<or> login)))"
proof (cases "line_meaning (authenticated s) (tokenize E m)")
  case None
  with wialon_world.read_line_nothing [OF assms(1-4)] show ?thesis by simp
next
  case (Some r)
  obtain k n c fs where r: "r = (k, n, c, fs)" by (cases r)
  with Some assms(5) have "c \<noteq> COMMAND_BLACKBOX" by auto
  from wialon_world.read_line_command [OF assms(1-4) Some [unfolded r] this] show ?thesis by (simp add: Some r)
qed

lemma parser_refines_protocol_witness:
  "\<exists>t. handle_read accept_all (logged_in_plugin (message ''SD'' ''d;t'' @ crlf)) = Inr t \<and>
    api_calls t = [Process_data (Some 0), Do_read_until crlf] \<and>
    trees t = [record_tree accept_all COMMAND_SHORTDATA [''d'', ''t'']]"
proof -
  let ?s = "logged_in_plugin (message ''SD'' ''d;t'' @ crlf)"
  have s: "sbuf ?s = message ''SD'' ''d;t'' @ crlf" "LF \<notin> set (message ''SD'' ''d;t'')" "api_calls ?s = []" "trees ?s = []"
    by (simp_all add: logged_in_plugin_def sample_plugin_def wialon_init_def message_def)
  have m: "line_meaning (authenticated ?s) (tokenize accept_all (message ''SD'' ''d;t'')) =
      Some (''SD'', 10, COMMAND_SHORTDATA, [''d'', ''t''])"
    by code_simp
  have "line_meaning (authenticated ?s) (tokenize accept_all (message ''SD'' ''d;t'')) \<noteq> Some (k, n, COMMAND_BLACKBOX, fs)" for k n fs
    by (simp add: m)
  from parser_refines_protocol [OF sample.wialon_world_axioms logged_in_idle s(2,1) this] show ?thesis
    by (simp add: m command_effect_def s(3,4)) blast
qed

text \<open>
  A data, short data or text message of a logged-in client with all its fields: one fresh tree
  is handed to the dispatchers, it holds every field under the name the protocol gives it at that
  place, no error is flagged, and the parser asks for more input.
\<close>

theorem data_message_stored:
  assumes "wialon_world E" and "idle_inv s" and "authenticated s"
    and k: "map_of estimates k = Some (n, c)"
    and "c \<in> {COMMAND_DATA, COMMAND_SHORTDATA, COMMAND_MESSAGE}"
    and "length fs = n" and "\<forall>f \<in> set fs. field_text f"
    and "sbuf s = message k (join_fields fs) @ crlf"
  shows "\<exists>t x. handle_read E s = Inr t \<and> trees t = trees s @ [x] \<and>
    (\<forall>i < n. tree_get E x (documented_fields c ! i) = Some (fs ! i)) \<and>
    api_calls t = api_calls s @ [Process_data (Some (length (trees s))), Do_read_until crlf] \<and>
    \<not> is_parser_error t \<and> sbuf t = []"
proof -
  have "n \<noteq> 0" using k assms(5) by (elim estimates_cases) auto
  then have "fs \<noteq> []" using assms(6) by auto
  with wialon_world.read_data [OF assms(1-3) k assms(5), of fs "[]"] assms(6-8)
  have "handle_read E s = Inr ((body_start E k n c (s\<lparr>sbuf := []\<rparr>))
      \<lparr>estimate := 0, trees := trees s @ [record_tree E c fs], is_parser_error := False,
       state := STATE_INITIAL,
       api_calls := api_calls s @ [Process_data (Some (length (trees s))), Do_read_until crlf]\<rparr>)"
    by simp
  moreover have "tree_get E (record_tree E c fs) (documented_fields c ! i) = Some (fs ! i)" if "i < n" for i
    using wialon_world.record_tree_get [OF assms(1) k, of fs i] that assms(6)
      protocol_fields_documented [OF table_command_not_count [OF k]] by simp
  ultimately show ?thesis by (simp add: body_start_def)
qed

lemma data_message_stored_witness:
  "\<exists>t x. handle_read accept_all (logged_in_plugin (message ''M'' ''hello'' @ crlf)) = Inr t \<and>
    trees t = [x] \<and> tree_get accept_all x ''message'' = Some ''hello''"
proof -
  have "\<exists>t x. handle_read accept_all (logged_in_plugin (message ''M'' ''hello'' @ crlf)) = Inr t \<and>
    trees t = trees (logged_in_plugin (message ''M'' ''hello'' @ crlf)) @ [x] \<and>
    (\<forall>i < 1. tree_get accept_all x (documented_fields COMMAND_MESSAGE ! i) = Some ([''hello''] ! i)) \<and>
    api_calls t = api_calls (logged_in_plugin (message ''M'' ''hello'' @ crlf)) @
      [Process_data (Some (length (trees (logged_in_plugin (message ''M'' ''hello'' @ crlf))))), Do_read_until crlf] \<and>
    \<not> is_parser_error t \<and> sbuf t = []"
    by (rule data_message_stored [OF sample.wialon_world_axioms logged_in_idle])
      (simp_all add: logged_in_plugin_def estimates_def field_text_def sep_free_def)
  then show ?thesis
    by (auto simp: documented_fields_def logged_in_plugin_def sample_plugin_def wialon_init_def)
qed

text \<open>
  A body that ends too early is a parser error, but the fields that came are handed to the
  dispatchers all the same: an incomplete record is stored like a complete one.
\<close>

theorem incomplete_data_stored:
  assumes "wialon_world E" and "idle_inv s" and "authenticated s"
    and "map_of estimates k = Some (n, c)"
    and "c \<in> {COMMAND_DATA, COMMAND_SHORTDATA, COMMAND_MESSAGE}"
    and "fs \<noteq> []" and "length fs < n" and "\<forall>f \<in> set fs. field_text f"
    and "sbuf s = message k (join_fields fs) @ crlf"
  shows "\<exists>t. handle_read E s = Inr t \<and> trees t = trees s @ [record_tree E c fs] \<and>
    api_calls t = api_calls s @ [Process_data (Some (length (trees s))), Do_read_until crlf] \<and>
    is_parser_error t \<and> estimate t = n - length fs"
  using wialon_world.read_data [OF assms(1-6,8), of "[]"] assms(7,9) by (simp add: body_start_def)

lemma incomplete_data_stored_witness:
  "\<exists>t. handle_read accept_all (logged_in_plugin (message ''SD'' ''d;t'' @ crlf)) = Inr t \<and> is_parser_error t"
proof -
  let ?s = "logged_in_plugin (message ''SD'' ''d;t'' @ crlf)"
  have "\<exists>t. handle_read accept_all ?s = Inr t \<and>
    trees t = trees ?s @ [record_tree accept_all COMMAND_SHORTDATA [''d'', ''t'']] \<and>
    api_calls t = api_calls ?s @ [Process_data (Some (length (trees ?s))), Do_read_until crlf] \<and>
    is_parser_error t \<and> estimate t = 10 - length [''d'', ''t'']"
    by (rule incomplete_data_stored [OF sample.wialon_world_axioms logged_in_idle, where k = "''SD''"])
      (simp_all add: logged_in_plugin_def estimates_def field_text_def sep_free_def)
  then show ?thesis by blast
qed

text \<open>
  A login message: the parser asks the router about exactly this login and password, and
  answers as the router decides, with the code 1 or 01.
\<close>

theorem login_message:
  assumes "wialon_world E" and "idle_inv s" and "field_text login" and "field_text pass"
    and "sbuf s = message ''L'' (join_fields [login, pass]) @ crlf"
    and "api_authenticate E login pass = Some ok"
  shows "\<exists>t. handle_read E s = Inr t \<and> authenticated t = (authenticated s \<or> ok) \<and>
    api_calls t = api_calls s @ [Authenticate login pass,
      Do_write (''#AL#'' @ (if ok then ''1'' else ''01'') @ crlf), Do_read_until crlf]"
  using wialon_world.read_login [OF assms(1-4), of "[]" ok] assms(5,6) by (simp add: reply_text_def)

lemma login_message_witness:
  "\<exists>t. handle_read accept_all (sample_plugin\<lparr>sbuf := message ''L'' ''353;secret'' @ crlf\<rparr>) = Inr t \<and>
    authenticated t"
proof -
  let ?s = "sample_plugin\<lparr>sbuf := message ''L'' ''353;secret'' @ crlf\<rparr>"
  have "\<exists>t. handle_read accept_all ?s = Inr t \<and> authenticated t = (authenticated ?s \<or> True) \<and>
    api_calls t = api_calls ?s @ [Authenticate ''353'' ''secret'',
      Do_write (''#AL#'' @ (if True then ''1'' else ''01'') @ crlf), Do_read_until crlf]"
    by (rule login_message [OF sample.wialon_world_axioms])
      (simp_all add: sample_idle sample_env_def field_text_def sep_free_def)
  then show ?thesis by auto
qed

text \<open>
  A command that is not in the table, or any command but the login before the client logged
  in, is skipped whatever its body: no tree reaches a dispatcher, nothing is answered, and the
  parser is ready for the next message.
\<close>

theorem refused_command_ignored:
  assumes "wialon_world E" and "idle_inv s" and "refused_command k s" and "sep_free k"
    and "LF \<notin> set (message k body)" and "sbuf s = message k body @ crlf"
  shows "\<exists>t. handle_read E s = Inr t \<and> api_calls t = api_calls s @ [Do_read_until crlf] \<and>
    authenticated t = authenticated s \<and> state t = STATE_INITIAL"
proof -
  obtain t where "handle_read E s = Inr t" "api_calls t = api_calls s @ [Do_read_until crlf]"
    "authenticated t = authenticated s"
    using wialon_world.read_refused [OF assms(1-5), of "[]"] assms(6) by auto
  moreover from this wialon_world.handle_read_idle [OF assms(1,2)] have "state t = STATE_INITIAL"
    by (simp add: idle_inv_def)
  ultimately show ?thesis by blast
qed

lemma refused_command_ignored_witness:
  "\<exists>t. handle_read accept_all (sample_plugin\<lparr>sbuf := message ''D'' ''1;2;3'' @ crlf\<rparr>) = Inr t \<and>
    api_calls t = [Do_read_until crlf]"
proof -
  let ?s = "sample_plugin\<lparr>sbuf := message ''D'' ''1;2;3'' @ crlf\<rparr>"
  have "\<exists>t. handle_read accept_all ?s = Inr t \<and> api_calls t = api_calls ?s @ [Do_read_until crlf] \<and>
    authenticated t = authenticated ?s \<and> state t = STATE_INITIAL"
    by (rule refused_command_ignored [OF sample.wialon_world_axioms, where k = "''D''" and body = "''1;2;3''"])
      (simp_all add: sep_free_def message_def refused_command_def estimates_def idle_inv_def tree_ok_def
        login_ok_def published_def sample_plugin_def wialon_init_def)
  then show ?thesis by (auto simp: sample_plugin_def wialon_init_def)
qed

text \<open>
  C36. A black box message of records shorter than sixteen fields: every record is handed over once,
  in order, in a tree of its own that holds just its fields, wherever callbacks of the router come in
  from other threads, among the tokens of its body or between its last record and its answer. The answer
  does not say how many records there were: it is the number of callbacks that came before it,
  whatever they said (modulo the 64 bits of the count). When none comes in while the handler runs, it is zero.
\<close>

theorem blackbox_records:
  assumes "wialon_world E" and "idle_inv s" and "authenticated s"
    and "rs \<noteq> []" and "\<forall>r \<in> set rs. short_record r"
    and "[[], ''#'', ''B'', ''#''] @ line_tokens xs = tokenize E (message ''B'' (join_records rs))"
  shows "(\<exists>b u v t. fold_res (consume_token E) [[], ''#'', ''B'', ''#''] s = Inr b \<and>
      fold_res (line_step E) xs b = Inr u \<and> fold_res handle_process_data oks (store_data u) = Inr v \<and>
      commit_command E v = Inr t \<and> trees t = trees s @ map (record_tree E COMMAND_BLACKBOX) rs \<and>
      api_calls t = api_calls s @
        map (\<lambda>i. Process_data (Some i)) [length (trees s)..<length (trees s) + length rs] @
        [Do_write (''#AB#'' @ decimal ((line_callbacks xs + length oks) mod 2 ^ 64) @ crlf)]) \<and>
    (\<exists>t. handle_read E (s\<lparr>sbuf := message ''B'' (join_records rs) @ crlf\<rparr>) = Inr t \<and>
      trees t = trees s @ map (record_tree E COMMAND_BLACKBOX) rs \<and>
      api_calls t = api_calls s @
        map (\<lambda>i. Process_data (Some i)) [length (trees s)..<length (trees s) + length rs] @
        [Do_write (''#AB#0'' @ crlf), Do_read_until crlf])"
proof
  let ?s = "s\<lparr>sbuf := message ''B'' (join_records rs) @ crlf\<rparr>"
  have "line_tokens xs = pieces (tokenize E) (join_records rs)"
    using wialon_world.message_tokens [OF assms(1) estimates_B, of "join_records rs"] assms(6) by simp
  moreover have "reply_text ''B'' msg = ''#AB#'' @ msg @ crlf" for msg by (simp add: reply_text_def)
  ultimately show "\<exists>b u v t. fold_res (consume_token E) [[], ''#'', ''B'', ''#''] s = Inr b \<and>
      fold_res (line_step E) xs b = Inr u \<and> fold_res handle_process_data oks (store_data u) = Inr v \<and>
      commit_command E v = Inr t \<and> trees t = trees s @ map (record_tree E COMMAND_BLACKBOX) rs \<and>
      api_calls t = api_calls s @
        map (\<lambda>i. Process_data (Some i)) [length (trees s)..<length (trees s) + length rs] @
        [Do_write (''#AB#'' @ decimal ((line_callbacks xs + length oks) mod 2 ^ 64) @ crlf)]"
    using wialon_world.read_counted_records [OF assms(1) _ assms(3-5), of xs oks] assms(2)
    by (simp only: idle_inv_def)
  show "\<exists>t. handle_read E ?s = Inr t \<and> trees t = trees s @ map (record_tree E COMMAND_BLACKBOX) rs \<and>
      api_calls t = api_calls s @
        map (\<lambda>i. Process_data (Some i)) [length (trees s)..<length (trees s) + length rs] @
        [Do_write (''#AB#0'' @ crlf), Do_read_until crlf]"
    using wialon_world.read_records [OF assms(1) _ _ assms(4,5), of ?s "[]"] assms(2,3) by (simp add: reply_text_def)
qed

lemma blackbox_records_witness:
  "\<exists>b u v t. fold_res (consume_token accept_all) [[], ''#'', ''B'', ''#''] (logged_in_plugin []) = Inr b \<and>
    fold_res (line_step accept_all) [Inl ''a'', Inl ''b'', Inl ''|'', Inr True, Inl ''c''] b = Inr u \<and>
    fold_res handle_process_data [False] (store_data u) = Inr v \<and> commit_command accept_all v = Inr t \<and>
    api_calls t = [Process_data (Some 0), Process_data (Some 1), Do_write (''#AB#2'' @ crlf)]"
proof -
  let ?s = "logged_in_plugin []" and ?rs = "[[''a'', ''b''], [''c'']]"
    and ?xs = "[Inl ''a'', Inl ''b'', Inl ''|'', Inr True, Inl ''c''] :: (string + bool) list"
  have toks: "[[], ''#'', ''B'', ''#''] @ line_tokens ?xs = tokenize accept_all (message ''B'' (join_records ?rs))"
    by code_simp
  have short: "\<forall>r \<in> set ?rs. short_record r" by (simp add: short_record_def field_text_def sep_free_def)
  have auth: "authenticated ?s" by (simp add: logged_in_plugin_def)
  have two: "decimal ((line_callbacks ?xs + length [False]) mod 2 ^ 64) = ''2''"
  proof -
    have "(line_callbacks ?xs + length [False]) mod 2 ^ 64 = 2" by simp
    moreover have "decimal 2 = ''2''" by code_simp
    ultimately show ?thesis by (simp only:)
  qed
  have empty: "trees ?s = []" "api_calls ?s = []" by (simp_all add: logged_in_plugin_def sample_plugin_def wialon_init_def)
  from conjunct1 [OF blackbox_records [OF sample.wialon_world_axioms logged_in_idle auth _ short toks, where oks = "[False]"],
      unfolded two empty] obtain b u v t where
    parts: "fold_res (consume_token accept_all) [[], ''#'', ''B'', ''#''] ?s = Inr b"
      "fold_res (line_step accept_all) ?xs b = Inr u" "fold_res handle_process_data [False] (store_data u) = Inr v"
      "commit_command accept_all v = Inr t"
    and calls: "api_calls t = [] @ map (\<lambda>i. Process_data (Some i)) [length ([] :: dptree list)..<length ([] :: dptree list) + length ?rs] @
      [Do_write (''#AB#'' @ ''2'' @ crlf)]" by blast
  from calls have "api_calls t = [Process_data (Some 0), Process_data (Some 1), Do_write (''#AB#2'' @ crlf)]" by simp
  with parts show ?thesis by (intro exI conjI)
qed

text \<open>
  C37. When the first record of a black box message has all sixteen fields, the record behind it is
  lost: its fields are in no tree, and the first record is handed over a second time in its place.
\<close>

theorem blackbox_full_record_repeated:
  assumes "wialon_world E" and "idle_inv s" and "authenticated s"
    and "length f = 16" and "\<forall>w \<in> set f. field_text w" and "g \<noteq> []" and "\<forall>w \<in> set g. field_text w"
    and "sbuf s = message ''B'' (join_fields f @ ''|'' @ join_fields g) @ crlf"
  shows "\<exists>t. handle_read E s = Inr t \<and> trees t = trees s @ [record_tree E COMMAND_BLACKBOX f] \<and>
    api_calls t = api_calls s @ [Process_data (Some (length (trees s))), Process_data (Some (length (trees s))),
      Do_write (''#AB#0'' @ crlf), Do_read_until crlf]"
  using wialon_world.read_full_records [OF assms(1-7), of "[]"] assms(8) by (simp add: reply_text_def)

lemma blackbox_full_record_repeated_witness:
  "\<exists>t. handle_read accept_all (logged_in_plugin
      (message ''B'' ''1;2;3;4;5;6;7;8;9;10;11;12;13;14;15;16|a;b;c'' @ crlf)) = Inr t \<and>
    length (trees t) = 1"
proof -
  let ?f = "[''1'', ''2'', ''3'', ''4'', ''5'', ''6'', ''7'', ''8'', ''9'', ''10'', ''11'', ''12'', ''13'',
    ''14'', ''15'', ''16'']" and ?g = "[''a'', ''b'', ''c'']"
  let ?s = "logged_in_plugin (message ''B'' ''1;2;3;4;5;6;7;8;9;10;11;12;13;14;15;16|a;b;c'' @ crlf)"
  have "\<exists>t. handle_read accept_all ?s = Inr t \<and> trees t = trees ?s @ [record_tree accept_all COMMAND_BLACKBOX ?f] \<and>
    api_calls t = api_calls ?s @ [Process_data (Some (length (trees ?s))), Process_data (Some (length (trees ?s))),
      Do_write (''#AB#0'' @ crlf), Do_read_until crlf]"
    by (rule blackbox_full_record_repeated [OF sample.wialon_world_axioms logged_in_idle, where g = ?g])
      (simp_all add: logged_in_plugin_def field_text_def sep_free_def)
  then show ?thesis by (auto simp: logged_in_plugin_def sample_plugin_def wialon_init_def)
qed

text \<open>
  What the peer sent behind a message is not kept whole: \<open>handle_read\<close> consumes the line and then
  as many bytes again as the line has, so of pipelined input the next message loses its first bytes,
  and a next message no longer than this one is lost entirely.
\<close>

theorem pipelined_input_lost:
  assumes "LF \<notin> set m" and "sbuf s = m @ crlf @ rest" and "handle_read E s = Inr t"
  shows "sbuf t = drop (length m + 2) rest"
  using assms by (blast intro: handle_read_sbuf)

lemma pipelined_input_lost_witness:
  "\<exists>t. handle_read accept_all (logged_in_plugin (''#P#'' @ crlf @ ''#P#'' @ crlf)) = Inr t \<and> sbuf t = []"
proof -
  let ?s = "logged_in_plugin (''#P#'' @ crlf @ ''#P#'' @ crlf)"
  have "\<not> isl (handle_read accept_all ?s)" by code_simp
  then obtain t where t: "handle_read accept_all ?s = Inr t" by (blast dest: returned)
  have "sbuf t = drop (length ''#P#'' + 2) (''#P#'' @ crlf)"
    by (rule pipelined_input_lost [OF _ _ t]) (simp_all add: logged_in_plugin_def)
  with t show ?thesis by simp
qed

text \<open>
  The answer to stored data is tagged with the command the parser saw last, not with the one
  that stored the data: when an unknown command of length \<open>l\<close> arrives while the router still works
  on a record, the late confirmation names that unknown command, and reads past the answer buffer
  when \<open>l\<close> is more than 26.
\<close>

theorem late_answer_wrong_command:
  assumes "wialon_world E" and "idle_inv s"
    and "current_cmd s \<in> {COMMAND_DATA, COMMAND_SHORTDATA, COMMAND_MESSAGE}"
    and "map_of estimates k = None" and "sep_free k"
    and "LF \<notin> set (message k body)" and "sbuf s = message k body @ crlf"
  shows "\<exists>t. handle_read E s = Inr t \<and>
    (if length k \<le> 26
     then \<exists>u. handle_process_data True t = Inr u \<and>
            api_calls u = api_calls t @ [Do_write (''#A'' @ k @ ''#1'' @ crlf)]
     else handle_process_data True t = Inl Buffer_overrun)"
proof -
  have "refused_command k s" using assms(4) by (simp add: refused_command_def)
  then obtain t where t: "handle_read E s = Inr t" "cmd t = k" "current_cmd t = current_cmd s"
    using wialon_world.read_refused [OF assms(1,2) _ assms(5,6), of "[]"] assms(4,7) by auto
  then have "current_cmd t \<noteq> COMMAND_BLACKBOX" using assms(3) by auto
  with t show ?thesis by (auto simp: handle_process_data_def answer_def reply_text_def Let_def)
qed

lemma late_answer_wrong_command_witness:
  "\<exists>t. handle_read accept_all ((logged_in_plugin (message (replicate 27 (CHR ''z'')) [] @ crlf))
      \<lparr>current_cmd := COMMAND_DATA\<rparr>) = Inr t \<and> handle_process_data True t = Inl Buffer_overrun"
proof -
  let ?k = "replicate 27 (CHR ''z'')"
  let ?s = "(logged_in_plugin (message ?k [] @ crlf))\<lparr>current_cmd := COMMAND_DATA\<rparr>"
  have idle: "idle_inv ?s"
    using logged_in_idle [of "message ?k [] @ crlf"]
    by (simp add: idle_inv_def tree_ok_def login_ok_def published_def)
  have k: "map_of estimates ?k = None" "sep_free ?k" "LF \<notin> set (message ?k [])"
    by (simp_all add: estimates_def sep_free_def message_def numeral_eq_Suc)
  have "\<exists>t. handle_read accept_all ?s = Inr t \<and>
    (if length ?k \<le> 26
     then \<exists>u. handle_process_data True t = Inr u \<and>
            api_calls u = api_calls t @ [Do_write (''#A'' @ ?k @ ''#1'' @ crlf)]
     else handle_process_data True t = Inl Buffer_overrun)"
    by (rule late_answer_wrong_command [OF sample.wialon_world_axioms idle _ k])
      (simp_all add: logged_in_plugin_def)
  then show ?thesis by simp
qed

end
