(* ===== verification/Redis.thy ===== *)
theory Redis
  imports Prelude
begin

text \<open>
  plugins/dispatcher_redis/redis_connection: the client's state, its requests and the handlers of
  its asynchronous operations, one definition per member function. Operations that were started
  and whose handlers have not run are in \<open>pending\<close>; calls of the requests' callbacks are in
  \<open>answers\<close>, oldest first. An endpoint iterator is the list of the endpoints from it on, so the
  end iterator is the empty list.
\<close>

subsection \<open>State\<close>

datatype redis_fault =
    End_iterator        \<comment> \<open>dereferencing the end of the endpoints\<close>
  | Reply_out_of_range  \<comment> \<open>\<open>s.at(len - 1)\<close> of an empty line, an exception nobody catches\<close>
  | Publish_overrun     \<comment> \<open>more bytes generated than the prepared buffer has\<close>
  | Assert_failed       \<comment> \<open>a \<open>BOOST_ASSERT\<close> of \<open>write\<close>\<close>
  | Not_locked          \<comment> \<open>\<open>unlock\<close> of a mutex that is not locked\<close>
  | Empty_queue         \<comment> \<open>\<open>front\<close> of an empty queue\<close>

record endpoint =
  address :: string
  host_name :: string
  service_name :: string

text \<open>A callback is a client's, or \<open>timeout_no_ping\<close> of the connection itself.\<close>

datatype 'c bool_callback = Client 'c | Timeout_no_ping

datatype redis_op =
    Resolving string string
  | Connecting "endpoint list"
  | Timer_connect "endpoint list"
  | Timer_ping
  | Writing
  | Reading

record 'c request_queue =
  data :: string
  callbacks :: "'c bool_callback list"

record 'c redis =
  timeout_connect :: "64 word"
  timeout_ping :: "64 word"
  redis_host :: string
  redis_port :: string
  is_connected :: bool
  out_buf :: "'c request_queue"
  out_tmp_buf :: "'c request_queue"
  in_buf :: string
  busy :: bool
  pending :: "redis_op list"
  answers :: "('c \<times> bool) list"

abbreviation no_requests :: "'c request_queue" where
  "no_requests \<equiv> \<lparr>data = [], callbacks = []\<rparr>"

definition redis_init :: "'c redis" where
  "redis_init = \<lparr>timeout_connect = 10, timeout_ping = 30, redis_host = [], redis_port = [], is_connected = False,
     out_buf = no_requests, out_tmp_buf = no_requests, in_buf = [], busy = False, pending = [],
     answers = []\<rparr>"

definition set_timeouts :: "64 word \<Rightarrow> 64 word \<Rightarrow> 'c redis \<Rightarrow> 'c redis" where
  "set_timeouts conn png r = r\<lparr>timeout_connect := conn, timeout_ping := png\<rparr>"

definition start_op :: "redis_op \<Rightarrow> 'c redis \<Rightarrow> 'c redis" where
  "start_op op r = r\<lparr>pending := pending r @ [op]\<rparr>"

subsection \<open>Connecting\<close>

definition connect_host :: "string \<Rightarrow> string \<Rightarrow> 'c redis \<Rightarrow> 'c redis" where
  "connect_host h p r = start_op (Resolving h p) r"

text \<open>\<open>expires_from_now\<close> and \<open>async_wait\<close> of the one timer, then \<open>async_connect\<close>.\<close>

definition connect_endpoint :: "endpoint list \<Rightarrow> 'c redis \<Rightarrow> redis_fault + 'c redis" where
  "connect_endpoint it r =
     (if it = [] then Inl End_iterator
      else Inr (start_op (Connecting it) (start_op (Timer_connect it) r)))"

definition handle_resolve :: "error_code \<Rightarrow> endpoint list \<Rightarrow> 'c redis \<Rightarrow> redis_fault + 'c redis" where
  "handle_resolve ec it r =
     (if ec = Success then
        and_then (connect_endpoint it r) (\<lambda>r1.
        Inr (r1\<lparr>redis_host := host_name (hd it), redis_port := service_name (hd it)\<rparr>))
      else case it of
        [] \<Rightarrow> Inl End_iterator
      | e # _ \<Rightarrow> Inr (connect_host (host_name e) (service_name e) r))"

definition handle_timeout_connect :: "error_code \<Rightarrow> endpoint list \<Rightarrow> 'c redis \<Rightarrow> redis_fault + 'c redis" where
  "handle_timeout_connect ec it r =
     (if ec \<noteq> Operation_aborted then
        (if timeout_connect r \<noteq> 0 then connect_endpoint it r else Inr r)
      else Inr r)"

definition timeout_no_ping :: "bool \<Rightarrow> 'c redis \<Rightarrow> 'c redis" where
  "timeout_no_ping ok r =
     (if ok then (if timeout_ping r \<noteq> 0 then start_op Timer_ping r else r) else r)"

definition call_callback :: "'c bool_callback \<Rightarrow> bool \<Rightarrow> 'c redis \<Rightarrow> 'c redis" where
  "call_callback cb ok r =
     (case cb of
        Client c \<Rightarrow> r\<lparr>answers := answers r @ [(c, ok)]\<rparr>
      | Timeout_no_ping \<Rightarrow> timeout_no_ping ok r)"

subsection \<open>Requests\<close>

text \<open>
  The bytes of a request, in the Redis protocol: an array of bulk strings. \<open>karma::uint_\<close> (outside
  src/) is the parameter \<open>kuint\<close>.
\<close>

definition publish_bytes :: "(64 word \<Rightarrow> string) \<Rightarrow> string \<Rightarrow> string \<Rightarrow> string" where
  "publish_bytes kuint channel message =
     ''*3'' @ crlf @ ''$7'' @ crlf @ ''PUBLISH'' @ crlf @
     ''$'' @ kuint (word_of_nat (length channel)) @ crlf @ channel @ crlf @
     ''$'' @ kuint (word_of_nat (length message)) @ crlf @ message @ crlf"

definition publish_size :: "string \<Rightarrow> string \<Rightarrow> nat" where
  "publish_size channel message =
     length (''*3'' @ crlf) + length (''$7'' @ crlf @ ''PUBLISH'' @ crlf) +
     (length (''$'' @ crlf @ crlf) + 10 + length channel) +
     (length (''$'' @ crlf @ crlf) + 10 + length message)"

definition ping_bytes :: string where
  "ping_bytes = ''*1'' @ crlf @ ''$4'' @ crlf @ ''PING'' @ crlf"

definition enqueue :: "string \<Rightarrow> 'c bool_callback \<Rightarrow> 'c redis \<Rightarrow> 'c redis" where
  "enqueue bytes cb r =
     r\<lparr>out_buf := \<lparr>data = data (out_buf r) @ bytes, callbacks = callbacks (out_buf r) @ [cb]\<rparr>\<rparr>"

text \<open>
  \<open>write\<close>: nothing while an operation is in flight; otherwise the queues are swapped, and the one
  that was filled is sent.
\<close>

definition redis_write :: "bool \<Rightarrow> 'c redis \<Rightarrow> redis_fault + 'c redis" where
  "redis_write already_locked r =
     (if \<not> already_locked \<and> busy r then Inr r
      else
        (let r1 = r\<lparr>busy := True, out_buf := out_tmp_buf r, out_tmp_buf := out_buf r\<rparr> in
         if callbacks (out_tmp_buf r1) = [] \<or> data (out_tmp_buf r1) = [] then Inl Assert_failed
         else Inr (start_op Writing r1)))"

definition publish ::
  "(64 word \<Rightarrow> string) \<Rightarrow> string \<Rightarrow> string \<Rightarrow> 'c bool_callback \<Rightarrow> 'c redis \<Rightarrow> redis_fault + 'c redis" where
  "publish kuint channel message cb r =
     (if \<not> is_connected r then Inr (call_callback cb False r)
      else
        (let bytes = publish_bytes kuint channel message in
         if publish_size channel message < length bytes then Inl Publish_overrun
         else redis_write False (enqueue bytes cb r)))"

definition redis_ping :: "'c bool_callback \<Rightarrow> 'c redis \<Rightarrow> redis_fault + 'c redis" where
  "redis_ping cb r =
     (if \<not> is_connected r then Inr (call_callback cb False r)
      else redis_write False (enqueue ping_bytes cb r))"

definition handle_timeout_ping :: "error_code \<Rightarrow> 'c redis \<Rightarrow> redis_fault + 'c redis" where
  "handle_timeout_ping ec r = (if ec \<noteq> Operation_aborted then redis_ping Timeout_no_ping r else Inr r)"

definition handle_connect :: "error_code \<Rightarrow> endpoint list \<Rightarrow> 'c redis \<Rightarrow> redis_fault + 'c redis" where
  "handle_connect ec it r =
     (if ec = Success then
        (let r1 = (timeout_no_ping True r)\<lparr>is_connected := True\<rparr> in
         if callbacks (out_buf r1) \<noteq> [] then redis_write False r1 else Inr r1)
      else if it = [] then Inl End_iterator
      else if tl it \<noteq> [] then connect_endpoint (tl it) r
      else Inr r)"

subsection \<open>Giving up a connection\<close>

definition redis_close :: "'c redis \<Rightarrow> 'c redis" where
  "redis_close r = r\<lparr>is_connected := False\<rparr>"

text \<open>\<open>front()(ok)\<close>, then \<open>pop()\<close>.\<close>

definition answer_front :: "bool \<Rightarrow> 'c redis \<Rightarrow> redis_fault + 'c redis" where
  "answer_front ok r =
     (case callbacks (out_tmp_buf r) of
        [] \<Rightarrow> Inl Empty_queue
      | cb # _ \<Rightarrow>
          (let r1 = call_callback cb ok r;
               q = out_tmp_buf r1 in
           Inr (r1\<lparr>out_tmp_buf := q\<lparr>callbacks := tl (callbacks q)\<rparr>\<rparr>)))"

definition unlock_busy :: "'c redis \<Rightarrow> redis_fault + 'c redis" where
  "unlock_busy r = (if busy r then Inr (r\<lparr>busy := False\<rparr>) else Inl Not_locked)"

definition drop_requests :: "'c redis \<Rightarrow> redis_fault + 'c redis" where
  "drop_requests r =
     and_then (fold_res (\<lambda>_. answer_front False) [0..<length (callbacks (out_tmp_buf r))] r) unlock_busy"

definition reconnect :: "'c redis \<Rightarrow> redis_fault + 'c redis" where
  "reconnect r = and_then (drop_requests (redis_close r)) (\<lambda>r1. Inr (connect_host (redis_host r1) (redis_port r1) r1))"

subsection \<open>Reading and writing\<close>

definition start_read :: "'c redis \<Rightarrow> 'c redis" where
  "start_read r = start_op Reading r"

definition redis_handle_write :: "error_code \<Rightarrow> 'c redis \<Rightarrow> redis_fault + 'c redis" where
  "redis_handle_write ec r = (if ec = Success then Inr (start_read r) else reconnect r)"

text \<open>
  The loop over the replies: \<open>i\<close> requests wait, \<open>left\<close> counts the unread bytes at 64 bits, the
  stream is good or not and \<open>s\<close> is the string of the previous round. It ends with the values of
  \<open>i\<close> and \<open>left\<close>, or with a reply it cannot handle.
\<close>

datatype reply_end = Stopped nat "64 word" | Bad_reply

fun reply_loop ::
  "nat \<Rightarrow> 64 word \<Rightarrow> bool \<Rightarrow> string \<Rightarrow> 'c redis \<Rightarrow> redis_fault + (reply_end \<times> 'c redis)" where
  "reply_loop 0 left good s r = Inr (Stopped 0 left, r)"
| "reply_loop (Suc i) left good s r =
     (if left < 4 then Inr (Stopped (Suc i) left, r)
      else case getline good s (in_buf r) of
        (good', s', buf) \<Rightarrow>
          (let r1 = r\<lparr>in_buf := buf\<rparr> in
           if s' = [] then Inl Reply_out_of_range
           else if last s' \<noteq> CR then Inr (Stopped (Suc i) left, r1)
           else if hd s' \<noteq> CHR '':'' \<and> s' \<noteq> ''+PONG'' @ [CR] then Inr (Bad_reply, r1)
           else and_then (answer_front True r1) (\<lambda>r2.
             reply_loop i (left - (word_of_nat (length s') + 1)) good' s' r2)))"

definition redis_handle_read :: "error_code \<Rightarrow> 'c redis \<Rightarrow> redis_fault + 'c redis" where
  "redis_handle_read ec r =
     (if ec = Success then
        and_then
          (reply_loop (length (callbacks (out_tmp_buf r))) (word_of_nat (length (in_buf r))) True [] r)
          (\<lambda>(e, r1).
           case e of
             Bad_reply \<Rightarrow> reconnect r1
           | Stopped i left \<Rightarrow>
               (let r2 = r1\<lparr>in_buf := drop (unat (word_of_nat (length (in_buf r1)) - left)) (in_buf r1)\<rparr> in
                if i > 0 then Inr (start_read r2)
                else if callbacks (out_buf r2) = [] then unlock_busy r2
                else redis_write True r2))
      else reconnect r)"

subsection \<open>Events\<close>

text \<open>
  What can happen to the client: a call of its interface, or the completion of an operation that
  is pending. A completed write took \<open>n\<close> bytes of the queue, all of them unless it failed; a
  completed read appended bytes, at least one unless it failed.
\<close>

datatype 'c redis_event =
    Set_timeouts "64 word" "64 word"
  | Connect_to string string
  | Publish string string 'c
  | Ping 'c
  | Resolved string string error_code "endpoint list"
  | Connected "endpoint list" error_code
  | Connect_timeout "endpoint list" error_code
  | Ping_timeout error_code
  | Written error_code nat
  | Read error_code string

fun event_op :: "'c redis_event \<Rightarrow> redis_op option" where
  "event_op (Resolved h p ec it) = Some (Resolving h p)"
| "event_op (Connected it ec) = Some (Connecting it)"
| "event_op (Connect_timeout it ec) = Some (Timer_connect it)"
| "event_op (Ping_timeout ec) = Some Timer_ping"
| "event_op (Written ec n) = Some Writing"
| "event_op (Read ec bytes) = Some Reading"
| "event_op _ = None"

definition sent_bytes :: "nat \<Rightarrow> 'c redis \<Rightarrow> 'c redis" where
  "sent_bytes n r =
     (let q = out_tmp_buf r in r\<lparr>out_tmp_buf := q\<lparr>data := drop n (data q)\<rparr>\<rparr>)"

text \<open>An event can happen when its operation is pending, and obeys the contract of that operation.\<close>

fun event_enabled :: "'c redis_event \<Rightarrow> 'c redis \<Rightarrow> bool" where
  "event_enabled (Written ec n) r \<longleftrightarrow> Writing \<in> set (pending r) \<and>
     n \<le> length (data (out_tmp_buf r)) \<and> (ec = Success \<longrightarrow> n = length (data (out_tmp_buf r)))"
| "event_enabled (Read ec bytes) r \<longleftrightarrow> Reading \<in> set (pending r) \<and> (ec = Success \<longrightarrow> bytes \<noteq> [])"
| "event_enabled (Resolved h p ec it) r \<longleftrightarrow> Resolving h p \<in> set (pending r) \<and> (ec = Success \<longleftrightarrow> it \<noteq> [])"
| "event_enabled ev r \<longleftrightarrow> (case event_op ev of None \<Rightarrow> True | Some op \<Rightarrow> op \<in> set (pending r))"

definition finish_op :: "'c redis_event \<Rightarrow> 'c redis \<Rightarrow> 'c redis" where
  "finish_op ev r = (case event_op ev of None \<Rightarrow> r | Some op \<Rightarrow> r\<lparr>pending := remove1 op (pending r)\<rparr>)"

fun handle_event :: "(64 word \<Rightarrow> string) \<Rightarrow> 'c redis_event \<Rightarrow> 'c redis \<Rightarrow> redis_fault + 'c redis" where
  "handle_event kuint (Set_timeouts c p) r = Inr (set_timeouts c p r)"
| "handle_event kuint (Connect_to h p) r = Inr (connect_host h p r)"
| "handle_event kuint (Publish channel message c) r = publish kuint channel message (Client c) r"
| "handle_event kuint (Ping c) r = redis_ping (Client c) r"
| "handle_event kuint (Resolved h p ec it) r = handle_resolve ec it r"
| "handle_event kuint (Connected it ec) r = handle_connect ec it r"
| "handle_event kuint (Connect_timeout it ec) r = handle_timeout_connect ec it r"
| "handle_event kuint (Ping_timeout ec) r = handle_timeout_ping ec r"
| "handle_event kuint (Written ec n) r = redis_handle_write ec (sent_bytes n r)"
| "handle_event kuint (Read ec bytes) r = redis_handle_read ec (r\<lparr>in_buf := in_buf r @ bytes\<rparr>)"

text \<open>An event that cannot happen leaves the client alone.\<close>

definition redis_step :: "(64 word \<Rightarrow> string) \<Rightarrow> 'c redis_event \<Rightarrow> 'c redis \<Rightarrow> redis_fault + 'c redis" where
  "redis_step kuint ev r =
     (if event_enabled ev r then handle_event kuint ev (finish_op ev r) else Inr r)"

abbreviation redis_run ::
  "(64 word \<Rightarrow> string) \<Rightarrow> 'c redis_event list \<Rightarrow> 'c redis \<Rightarrow> redis_fault + 'c redis" where
  "redis_run kuint \<equiv> fold_res (redis_step kuint)"

end
