(* ===== verification/Redis_Inv.thy ===== *)
theory Redis_Inv
  imports Redis "HOL-Library.Multiset"
begin

text \<open>
  The invariants of the redis client. \<open>settled\<close> holds between events: the lock \<open>busy\<close> is held
  exactly while one write or one read is in flight, and exactly then requests wait for replies.
  \<open>held\<close> holds inside the handler of that write or read. The ledger counts every request once,
  answered or queued.
\<close>

subsection \<open>States\<close>

definition io_ops :: "'c redis \<Rightarrow> nat" where
  "io_ops r = count (mset (pending r)) Writing + count (mset (pending r)) Reading"

definition op_ok :: "redis_op \<Rightarrow> bool" where
  "op_ok op \<longleftrightarrow> op \<noteq> Connecting [] \<and> op \<noteq> Timer_connect []"

definition queue_ok :: "'c request_queue \<Rightarrow> bool" where
  "queue_ok q \<longleftrightarrow> (callbacks q \<noteq> [] \<longrightarrow> data q \<noteq> [])"

definition base_inv :: "'c redis \<Rightarrow> bool" where
  "base_inv r \<longleftrightarrow> queue_ok (out_buf r) \<and> (\<forall>op \<in> set (pending r). op_ok op)"

definition settled :: "'c redis \<Rightarrow> bool" where
  "settled r \<longleftrightarrow> base_inv r \<and> io_ops r = (if busy r then 1 else 0) \<and>
     (busy r \<longleftrightarrow> callbacks (out_tmp_buf r) \<noteq> [])"

definition held :: "'c redis \<Rightarrow> bool" where
  "held r \<longleftrightarrow> base_inv r \<and> io_ops r = 0 \<and> busy r"

definition clients :: "'c bool_callback list \<Rightarrow> 'c list" where
  "clients cbs = List.map_filter (\<lambda>cb. case cb of Client c \<Rightarrow> Some c | Timeout_no_ping \<Rightarrow> None) cbs"

definition ledger :: "'c redis \<Rightarrow> 'c multiset" where
  "ledger r = mset (map fst (answers r)) + mset (clients (callbacks (out_tmp_buf r))) +
     mset (clients (callbacks (out_buf r)))"

definition owner :: "'c bool_callback \<Rightarrow> 'c multiset" where
  "owner cb = (case cb of Client c \<Rightarrow> {#c#} | Timeout_no_ping \<Rightarrow> {#})"

named_theorems redis_simps \<open>the fields an operation of the client changes\<close>

lemma clients_simps [simp]:
  "clients [] = []"
  "mset (clients (cb # cbs)) = owner cb + mset (clients cbs)"
  "mset (clients (cbs @ cbs')) = mset (clients cbs) + mset (clients cbs')"
  by (auto simp: clients_def owner_def List.map_filter_def split: bool_callback.splits)

lemma start_op_simps [redis_simps]:
  "io_ops (start_op op r) = io_ops r + (if op = Writing \<or> op = Reading then 1 else 0)"
  "base_inv (start_op op r) \<longleftrightarrow> base_inv r \<and> op_ok op"
  "busy (start_op op r) = busy r"
  "out_buf (start_op op r) = out_buf r"
  "out_tmp_buf (start_op op r) = out_tmp_buf r"
  "in_buf (start_op op r) = in_buf r"
  "answers (start_op op r) = answers r"
  "is_connected (start_op op r) = is_connected r"
  "ledger (start_op op r) = ledger r"
  by (auto simp: start_op_def io_ops_def base_inv_def ledger_def)

lemma call_callback_simps [redis_simps]:
  "io_ops (call_callback cb ok r) = io_ops r"
  "base_inv (call_callback cb ok r) = base_inv r"
  "busy (call_callback cb ok r) = busy r"
  "out_buf (call_callback cb ok r) = out_buf r"
  "out_tmp_buf (call_callback cb ok r) = out_tmp_buf r"
  "in_buf (call_callback cb ok r) = in_buf r"
  "is_connected (call_callback cb ok r) = is_connected r"
  by (auto simp: call_callback_def timeout_no_ping_def io_ops_def base_inv_def start_op_def op_ok_def
      split: bool_callback.splits)

lemma call_callback_ledger [redis_simps]: "ledger (call_callback cb ok r) = add_mset_owner"
  if "add_mset_owner = ledger r + owner cb" for add_mset_owner
  using that
  by (auto simp: call_callback_def timeout_no_ping_def start_op_def ledger_def owner_def
      split: bool_callback.splits)

subsection \<open>Answering and giving up\<close>

lemma answer_front_Cons:
  assumes "callbacks (out_tmp_buf r) = cb # cbs"
  obtains r' where "answer_front ok r = Inr r'" and "callbacks (out_tmp_buf r') = cbs"
    and "io_ops r' = io_ops r" and "base_inv r' = base_inv r" and "busy r' = busy r"
    and "out_buf r' = out_buf r" and "in_buf r' = in_buf r" and "ledger r' = ledger r"
proof
  let ?r1 = "call_callback cb ok r"
  let ?r' = "?r1\<lparr>out_tmp_buf := (out_tmp_buf ?r1)\<lparr>callbacks := tl (callbacks (out_tmp_buf ?r1))\<rparr>\<rparr>"
  show "answer_front ok r = Inr ?r'" using assms by (simp add: answer_front_def Let_def)
  show "callbacks (out_tmp_buf ?r') = cbs" using assms by (simp add: redis_simps)
  show "io_ops ?r' = io_ops r" using call_callback_simps(1) [of cb ok r] by (simp add: io_ops_def)
  show "base_inv ?r' = base_inv r" using call_callback_simps(2) [of cb ok r] by (simp add: base_inv_def)
  show "busy ?r' = busy r" "out_buf ?r' = out_buf r" "in_buf ?r' = in_buf r" by (simp_all add: redis_simps)
  show "ledger ?r' = ledger r"
    using assms call_callback_ledger [OF refl, of cb ok r] by (simp add: ledger_def redis_simps)
qed

lemma drop_loop:
  "length xs = length (callbacks (out_tmp_buf r)) \<Longrightarrow>
    \<exists>r'. fold_res (\<lambda>_. answer_front False) xs r = Inr r' \<and> callbacks (out_tmp_buf r') = [] \<and>
      io_ops r' = io_ops r \<and> base_inv r' = base_inv r \<and> busy r' = busy r \<and> ledger r' = ledger r"
proof (induction xs arbitrary: r)
  case (Cons x xs)
  then obtain cb cbs where q: "callbacks (out_tmp_buf r) = cb # cbs" by (cases "callbacks (out_tmp_buf r)") auto
  from answer_front_Cons [OF q, of False] obtain r1 where
    r1: "answer_front False r = Inr r1" "callbacks (out_tmp_buf r1) = cbs" "io_ops r1 = io_ops r"
      "base_inv r1 = base_inv r" "busy r1 = busy r" "ledger r1 = ledger r" .
  with Cons.prems q have "length xs = length (callbacks (out_tmp_buf r1))" by simp
  from Cons.IH [OF this] r1 show ?case by auto
qed simp

lemma reconnect_held:
  assumes "held r"
  shows "\<exists>r'. reconnect r = Inr r' \<and> settled r' \<and> ledger r' = ledger r"
proof -
  have close: "io_ops (redis_close r) = io_ops r" "base_inv (redis_close r) = base_inv r"
    "busy (redis_close r) = busy r" "ledger (redis_close r) = ledger r"
    by (simp_all add: redis_close_def io_ops_def base_inv_def ledger_def)
  from drop_loop [of "[0..<length (callbacks (out_tmp_buf (redis_close r)))]" "redis_close r"]
  obtain u where u: "fold_res (\<lambda>_. answer_front False)
      [0..<length (callbacks (out_tmp_buf (redis_close r)))] (redis_close r) = Inr u"
    and "callbacks (out_tmp_buf u) = []" "io_ops u = io_ops r" "base_inv u = base_inv r"
      "busy u = busy r" "ledger u = ledger r"
    by (auto simp: close)
  then have "drop_requests (redis_close r) = Inr (u\<lparr>busy := False\<rparr>)"
    "base_inv (u\<lparr>busy := False\<rparr>)" "io_ops (u\<lparr>busy := False\<rparr>) = 0" "ledger (u\<lparr>busy := False\<rparr>) = ledger r"
    "callbacks (out_tmp_buf (u\<lparr>busy := False\<rparr>)) = []"
    using assms
    by (simp_all add: drop_requests_def unlock_busy_def held_def io_ops_def base_inv_def ledger_def)
  then show ?thesis
    by (auto simp: reconnect_def settled_def connect_host_def start_op_simps op_ok_def)
qed

subsection \<open>Requests\<close>

lemma enqueue_simps [redis_simps]:
  "io_ops (enqueue b cb r) = io_ops r"
  "busy (enqueue b cb r) = busy r"
  "out_tmp_buf (enqueue b cb r) = out_tmp_buf r"
  "callbacks (out_buf (enqueue b cb r)) = callbacks (out_buf r) @ [cb]"
  "ledger (enqueue b cb r) = ledger r + owner cb"
  by (simp_all add: enqueue_def io_ops_def ledger_def)

lemma enqueue_base: "b \<noteq> [] \<Longrightarrow> base_inv r \<Longrightarrow> base_inv (enqueue b cb r)"
  by (auto simp: enqueue_def base_inv_def queue_ok_def)

text \<open>The swap: the filled queue, the lock free or just kept.\<close>

lemma write_swap:
  assumes "base_inv r" and "io_ops r = 0" and "callbacks (out_tmp_buf r) = []"
    and "callbacks (out_buf r) \<noteq> []" and "already \<or> \<not> busy r"
  shows "\<exists>r'. redis_write already r = Inr r' \<and> settled r' \<and> ledger r' = ledger r"
proof -
  let ?r1 = "r\<lparr>busy := True, out_buf := out_tmp_buf r, out_tmp_buf := out_buf r\<rparr>"
  from assms have "data (out_buf r) \<noteq> []" by (simp add: base_inv_def queue_ok_def)
  with assms have "redis_write already r = Inr (start_op Writing ?r1)" by (auto simp: redis_write_def Let_def)
  moreover have "settled (start_op Writing ?r1)"
    using assms by (simp add: settled_def start_op_def op_ok_def base_inv_def queue_ok_def io_ops_def)
  moreover have "ledger (start_op Writing ?r1) = ledger r" by (simp add: start_op_simps ledger_def)
  ultimately show ?thesis by blast
qed

lemma write_settled:
  assumes "base_inv r" and "io_ops r = (if busy r then 1 else 0)"
    and "busy r \<longleftrightarrow> callbacks (out_tmp_buf r) \<noteq> []" and "callbacks (out_buf r) \<noteq> []"
  shows "\<exists>r'. redis_write False r = Inr r' \<and> settled r' \<and> ledger r' = ledger r"
proof (cases "busy r")
  case True
  then show ?thesis using assms by (simp add: redis_write_def settled_def)
next
  case False
  with assms show ?thesis by (intro write_swap) auto
qed

lemma request_settled:
  assumes "settled r" and "b \<noteq> []"
  shows "\<exists>r'. redis_write False (enqueue b cb r) = Inr r' \<and> settled r' \<and> ledger r' = ledger r + owner cb"
  using write_settled [of "enqueue b cb r"] assms
  by (auto simp: settled_def redis_simps enqueue_base)

lemma refused_settled: "settled r \<Longrightarrow> settled (call_callback cb False r)"
  by (simp add: settled_def redis_simps)

lemma publish_settled:
  assumes "settled r"
  shows "publish kuint channel message cb r = Inl Publish_overrun \<and>
      publish_size channel message < length (publish_bytes kuint channel message) \<or>
    (\<exists>r'. publish kuint channel message cb r = Inr r' \<and> settled r' \<and> ledger r' = ledger r + owner cb)"
  using request_settled [OF assms, of "publish_bytes kuint channel message" cb] refused_settled [OF assms]
    call_callback_ledger [OF refl]
  by (auto simp: publish_def Let_def publish_bytes_def)

lemma ping_settled:
  assumes "settled r"
  shows "\<exists>r'. redis_ping cb r = Inr r' \<and> settled r' \<and> ledger r' = ledger r + owner cb"
  using request_settled [OF assms, of ping_bytes cb] refused_settled [OF assms] call_callback_ledger [OF refl]
  by (auto simp: redis_ping_def ping_bytes_def)

subsection \<open>Handlers\<close>

lemma connect_endpoint_settled:
  "settled r \<Longrightarrow> it \<noteq> [] \<Longrightarrow>
    \<exists>r'. connect_endpoint it r = Inr r' \<and> settled r' \<and> ledger r' = ledger r"
  by (auto simp: connect_endpoint_def settled_def start_op_simps op_ok_def)

lemma timeout_no_ping_settled: "settled r \<Longrightarrow> settled (timeout_no_ping ok r)"
  by (auto simp: timeout_no_ping_def settled_def start_op_simps op_ok_def)

lemma handle_connect_settled:
  assumes "settled r" and "it \<noteq> []"
  shows "\<exists>r'. handle_connect ec it r = Inr r' \<and> settled r' \<and> ledger r' = ledger r"
proof (cases "ec = Success")
  case True
  let ?r1 = "(timeout_no_ping True r)\<lparr>is_connected := True\<rparr>"
  have "settled ?r1" using timeout_no_ping_settled [OF assms(1), of True]
    by (simp add: settled_def base_inv_def io_ops_def)
  moreover have "ledger ?r1 = ledger r" by (simp add: ledger_def timeout_no_ping_def start_op_def)
  ultimately show ?thesis
    using True write_settled [of ?r1] by (auto simp: handle_connect_def Let_def settled_def)
next
  case False
  then show ?thesis using assms connect_endpoint_settled [of r "tl it"] by (auto simp: handle_connect_def)
qed

text \<open>
  The reply loop keeps the lock and the ledger, and reports the number of requests still waiting;
  it can fail only on an empty line.
\<close>

definition loop_ok :: "'c redis \<Rightarrow> redis_fault + (reply_end \<times> 'c redis) \<Rightarrow> bool" where
  "loop_ok r out = (case out of
     Inl f \<Rightarrow> f = Reply_out_of_range
   | Inr (e, r') \<Rightarrow> held r' \<and> ledger r' = ledger r \<and>
       (case e of Bad_reply \<Rightarrow> True | Stopped j l \<Rightarrow> j = length (callbacks (out_tmp_buf r'))))"

lemma loop_ok_simps [simp]:
  "loop_ok r (Inl f) \<longleftrightarrow> f = Reply_out_of_range"
  "loop_ok r (Inr (Bad_reply, r')) \<longleftrightarrow> held r' \<and> ledger r' = ledger r"
  "loop_ok r (Inr (Stopped j l, r')) \<longleftrightarrow>
     held r' \<and> ledger r' = ledger r \<and> j = length (callbacks (out_tmp_buf r'))"
  by (simp_all add: loop_ok_def)

lemma loop_ok_cong: "ledger r = ledger r' \<Longrightarrow> loop_ok r out = loop_ok r' out"
  by (simp add: loop_ok_def split: sum.split)

lemma reply_loop_held:
  assumes "held r" and "i = length (callbacks (out_tmp_buf r))"
  shows "loop_ok r (reply_loop i left good s r)"
  using assms
proof (induction i arbitrary: left good s r)
  case 0
  then show ?case by simp
next
  case (Suc i)
  obtain good' s' buf where gl: "getline good s (in_buf r) = (good', s', buf)" by (metis prod_cases3)
  let ?r1 = "r\<lparr>in_buf := buf\<rparr>"
  have r1: "held ?r1" "ledger ?r1 = ledger r" using Suc.prems(1)
    by (simp_all add: held_def base_inv_def io_ops_def ledger_def)
  from Suc.prems(2) obtain cb cbs where q: "callbacks (out_tmp_buf ?r1) = cb # cbs"
    by (cases "callbacks (out_tmp_buf r)") auto
  obtain r2 where r2: "answer_front True ?r1 = Inr r2" "callbacks (out_tmp_buf r2) = cbs"
      "io_ops r2 = io_ops ?r1" "base_inv r2 = base_inv ?r1" "busy r2 = busy ?r1" "ledger r2 = ledger ?r1"
    using answer_front_Cons [OF q, of True] by metis
  then have "held r2" and "i = length (callbacks (out_tmp_buf r2))"
    using r1(1) q Suc.prems(2) by (simp_all add: held_def)
  note IH = Suc.IH [OF this, of "left - (word_of_nat (length s') + 1)" good' s']
  have "ledger r = ledger r2" using r1(2) r2(6) by simp
  note IH' = IH [folded loop_ok_cong [OF this]]
  have eq: "reply_loop (Suc i) left good s r =
    (if left < 4 then Inr (Stopped (Suc i) left, r)
     else if s' = [] then Inl Reply_out_of_range
     else if last s' \<noteq> CR then Inr (Stopped (Suc i) left, ?r1)
     else if hd s' \<noteq> CHR '':'' \<and> s' \<noteq> ''+PONG'' @ [CR] then Inr (Bad_reply, ?r1)
     else reply_loop i (left - (word_of_nat (length s') + 1)) good' s' r2)"
    using gl r2(1) by (simp add: Let_def)
  have "Suc i = length (callbacks (out_tmp_buf ?r1))" using Suc.prems(2) by simp
  with IH' r1 Suc.prems show ?case unfolding eq
    by (simp only: loop_ok_simps split: if_split) simp
qed

lemma handle_read_held:
  assumes "held r" and "callbacks (out_tmp_buf r) \<noteq> []"
  shows "redis_handle_read ec r = Inl Reply_out_of_range \<and> ec = Success \<or>
    (\<exists>r'. redis_handle_read ec r = Inr r' \<and> settled r' \<and> ledger r' = ledger r)"
proof (cases "ec = Success")
  case False
  with reconnect_held [OF assms(1)] show ?thesis by (simp add: redis_handle_read_def)
next
  case True
  let ?loop = "reply_loop (length (callbacks (out_tmp_buf r))) (word_of_nat (length (in_buf r))) True [] r"
  have buf: "held (x\<lparr>in_buf := b\<rparr>) = held x" "ledger (x\<lparr>in_buf := b\<rparr>) = ledger x" for x :: "'a redis" and b
    by (simp_all add: held_def base_inv_def io_ops_def ledger_def)
  from reply_loop_held [OF assms(1) refl, of "word_of_nat (length (in_buf r))" True "[]"]
  consider (fault) "?loop = Inl Reply_out_of_range"
    | (bad) r1 where "?loop = Inr (Bad_reply, r1)" "held r1" "ledger r1 = ledger r"
    | (stop) r1 l where "?loop = Inr (Stopped (length (callbacks (out_tmp_buf r1))) l, r1)" "held r1"
        "ledger r1 = ledger r"
    by (cases ?loop rule: sum.exhaust; cases "fst (projr ?loop)") (auto simp: loop_ok_def split: prod.splits)
  then show ?thesis
  proof cases
    case fault
    with True show ?thesis by (simp add: redis_handle_read_def)
  next
    case bad
    with True reconnect_held [OF bad(2)] show ?thesis by (simp add: redis_handle_read_def)
  next
    case (stop r1 l)
    let ?r2 = "r1\<lparr>in_buf := drop (unat (word_of_nat (length (in_buf r1)) - l)) (in_buf r1)\<rparr>"
    have r2: "held ?r2" "ledger ?r2 = ledger r" "callbacks (out_tmp_buf ?r2) = callbacks (out_tmp_buf r1)"
      using stop by (simp_all add: buf)
    have "redis_handle_read ec r =
      (if callbacks (out_tmp_buf r1) \<noteq> [] then Inr (start_read ?r2)
       else if callbacks (out_buf ?r2) = [] then unlock_busy ?r2 else redis_write True ?r2)"
      using True stop(1) by (simp add: redis_handle_read_def Let_def)
    moreover have "settled (start_read ?r2) \<and> ledger (start_read ?r2) = ledger r"
      if "callbacks (out_tmp_buf r1) \<noteq> []"
      using that r2 by (simp add: start_read_def start_op_simps settled_def held_def op_ok_def)
    moreover have "\<exists>r'. unlock_busy ?r2 = Inr r' \<and> settled r' \<and> ledger r' = ledger r"
      if "callbacks (out_tmp_buf r1) = []"
      using that r2
      by (simp add: unlock_busy_def held_def settled_def base_inv_def io_ops_def ledger_def)
    moreover have "\<exists>r'. redis_write True ?r2 = Inr r' \<and> settled r' \<and> ledger r' = ledger r"
      if "callbacks (out_tmp_buf r1) = []" "callbacks (out_buf ?r2) \<noteq> []"
      using write_swap [of ?r2 True] that r2 by (auto simp: held_def)
    ultimately show ?thesis by auto
  qed
qed

subsection \<open>Events\<close>

fun requested :: "'c redis_event \<Rightarrow> 'c multiset" where
  "requested (Publish channel message c) = {#c#}"
| "requested (Ping c) = {#c#}"
| "requested _ = {#}"

text \<open>The faults an event can raise, and when.\<close>

fun event_faults :: "(64 word \<Rightarrow> string) \<Rightarrow> 'c redis_event \<Rightarrow> redis_fault set" where
  "event_faults kuint (Publish channel message c) =
     (if publish_size channel message < length (publish_bytes kuint channel message) then {Publish_overrun} else {})"
| "event_faults kuint (Resolved h p ec it) = (if ec \<noteq> Success then {End_iterator} else {})"
| "event_faults kuint (Read ec bytes) = (if ec = Success then {Reply_out_of_range} else {})"
| "event_faults kuint _ = {}"

definition step_ok :: "(64 word \<Rightarrow> string) \<Rightarrow> 'c redis_event \<Rightarrow> 'c redis \<Rightarrow> redis_fault + 'c redis \<Rightarrow> bool" where
  "step_ok kuint ev r out = (case out of
     Inl f \<Rightarrow> f \<in> event_faults kuint ev
   | Inr r' \<Rightarrow> settled r' \<and> ledger r' = ledger r + requested ev)"

lemma step_ok_simps [simp]:
  "step_ok kuint ev r (Inl f) \<longleftrightarrow> f \<in> event_faults kuint ev"
  "step_ok kuint ev r (Inr r') \<longleftrightarrow> settled r' \<and> ledger r' = ledger r + requested ev"
  by (simp_all add: step_ok_def)

lemma finish_settled:
  assumes "settled r" and "op \<noteq> Writing" and "op \<noteq> Reading"
  shows "settled (r\<lparr>pending := remove1 op (pending r)\<rparr>)"
    and "ledger (r\<lparr>pending := remove1 op (pending r)\<rparr>) = ledger r"
  using assms by (auto simp: settled_def base_inv_def io_ops_def ledger_def dest: notin_set_remove1)

lemma finish_held:
  assumes "settled r" and "op \<in> set (pending r)" and "op = Writing \<or> op = Reading"
  shows "held (r\<lparr>pending := remove1 op (pending r)\<rparr>)" and "callbacks (out_tmp_buf r) \<noteq> []"
    and "ledger (r\<lparr>pending := remove1 op (pending r)\<rparr>) = ledger r"
proof -
  have "0 < io_ops r" using assms(2,3) by (auto simp: io_ops_def)
  then have b: "busy r" "io_ops r = 1" using assms(1) by (auto simp: settled_def split: if_splits)
  then show "callbacks (out_tmp_buf r) \<noteq> []" using assms(1) by (simp add: settled_def)
  have "0 < count (mset (pending r)) op" using assms(2) by simp
  with b(2) assms(3) have "io_ops (r\<lparr>pending := remove1 op (pending r)\<rparr>) = 0"
    unfolding io_ops_def by (elim disjE) (simp_all del: count_mset_0_iff count_greater_zero_iff)
  with b assms show "held (r\<lparr>pending := remove1 op (pending r)\<rparr>)"
    by (auto simp: held_def settled_def base_inv_def dest: notin_set_remove1)
  show "ledger (r\<lparr>pending := remove1 op (pending r)\<rparr>) = ledger r" by (simp add: ledger_def)
qed

lemma pending_ok:
  assumes "settled r"
  shows "Connecting it \<in> set (pending r) \<Longrightarrow> it \<noteq> []" and "Timer_connect it \<in> set (pending r) \<Longrightarrow> it \<noteq> []"
  using assms by (auto simp: settled_def base_inv_def op_ok_def)

lemma held_bufs:
  "held r \<Longrightarrow> held (sent_bytes n r)" "ledger (sent_bytes n r) = ledger r"
  "held r \<Longrightarrow> held (r\<lparr>in_buf := b\<rparr>)" "ledger (r\<lparr>in_buf := b\<rparr>) = ledger r"
  "callbacks (out_tmp_buf (sent_bytes n r)) = callbacks (out_tmp_buf r)"
  by (simp_all add: held_def sent_bytes_def base_inv_def io_ops_def ledger_def Let_def)

lemma settled_params:
  "settled r \<Longrightarrow> settled (r\<lparr>redis_host := h, redis_port := p\<rparr>)" "ledger (r\<lparr>redis_host := h, redis_port := p\<rparr>) = ledger r"
  "settled r \<Longrightarrow> settled (set_timeouts a b r)" "ledger (set_timeouts a b r) = ledger r"
  by (simp_all add: settled_def base_inv_def io_ops_def ledger_def set_timeouts_def)

lemma written_ok:
  assumes "held r" and "callbacks (out_tmp_buf r) \<noteq> []"
  shows "\<exists>r'. redis_handle_write ec r = Inr r' \<and> settled r' \<and> ledger r' = ledger r"
proof (cases "ec = Success")
  case True
  then show ?thesis using assms
    by (simp add: redis_handle_write_def start_read_def settled_def held_def start_op_simps op_ok_def)
next
  case False
  with reconnect_held [OF assms(1)] show ?thesis by (simp add: redis_handle_write_def)
qed

lemma resolve_ok:
  assumes "settled r" and "ec = Success \<longleftrightarrow> it \<noteq> []"
  shows "handle_resolve ec it r = Inl End_iterator \<and> ec \<noteq> Success \<or>
    (\<exists>r'. handle_resolve ec it r = Inr r' \<and> settled r' \<and> ledger r' = ledger r)"
proof (cases "ec = Success")
  case True
  with assms(2) have "it \<noteq> []" by simp
  from connect_endpoint_settled [OF assms(1) this] obtain u where
    "connect_endpoint it r = Inr u" "settled u" "ledger u = ledger r" by blast
  with True show ?thesis by (simp add: handle_resolve_def settled_params)
qed (use assms in \<open>simp add: handle_resolve_def\<close>)

lemma redis_step_ok:
  assumes "settled r"
  shows "step_ok kuint ev r (redis_step kuint ev r)"
proof (cases "event_enabled ev r")
  case False
  then have "requested ev = {#}" by (cases ev) auto
  with False assms show ?thesis by (simp add: redis_step_def)
next
  case True
  note run = redis_step_def finish_op_def
  show ?thesis
  proof (cases ev)
    case (Set_timeouts c p)
    with assms show ?thesis by (simp add: run settled_params)
  next
    case (Connect_to h p)
    with assms show ?thesis by (simp add: run connect_host_def settled_def start_op_simps op_ok_def)
  next
    case (Publish channel message c)
    with publish_settled [OF assms, of kuint channel message "Client c"] show ?thesis
      by (auto simp: run owner_def)
  next
    case (Ping c)
    with ping_settled [OF assms, of "Client c"] show ?thesis by (auto simp: run owner_def)
  next
    case (Resolved h p ec it)
    with True resolve_ok [OF finish_settled(1) [OF assms, of "Resolving h p"], of ec it]
      finish_settled(2) [OF assms, of "Resolving h p"] show ?thesis
      by (auto simp: run)
  next
    case (Connected it ec)
    with True pending_ok(1) [OF assms, of it]
      handle_connect_settled [OF finish_settled(1) [OF assms, of "Connecting it"], of it ec]
      finish_settled(2) [OF assms, of "Connecting it"] show ?thesis
      by (auto simp: run)
  next
    case (Connect_timeout it ec)
    with True pending_ok(2) [OF assms, of it]
      connect_endpoint_settled [OF finish_settled(1) [OF assms, of "Timer_connect it"], of it]
      finish_settled [OF assms, of "Timer_connect it"] show ?thesis
      by (auto simp: run handle_timeout_connect_def)
  next
    case (Ping_timeout ec)
    with True ping_settled [OF finish_settled(1) [OF assms, of Timer_ping], of Timeout_no_ping]
      finish_settled [OF assms, of Timer_ping] show ?thesis
      by (auto simp: run handle_timeout_ping_def owner_def)
  next
    case (Written ec n)
    with True have "Writing \<in> set (pending r)" by simp
    note held = finish_held [OF assms this]
    from written_ok [OF held_bufs(1) [OF held(1)], of n ec] held(2,3) Written True show ?thesis
      by (auto simp: run held_bufs)
  next
    case (Read ec bytes)
    with True have "Reading \<in> set (pending r)" by simp
    note held = finish_held [OF assms this]
    let ?r = "r\<lparr>pending := remove1 Reading (pending r)\<rparr>"
    from handle_read_held [OF held_bufs(3) [OF held(1)], of "in_buf r @ bytes" ec] held(2,3) Read True
    show ?thesis
      by (cases "ec = Success") (auto simp: run held_bufs)
  qed
qed

lemma redis_init_settled: "settled redis_init" "ledger redis_init = {#}"
  by (simp_all add: redis_init_def settled_def base_inv_def queue_ok_def io_ops_def ledger_def)

interpretation redis: guarded_machine "redis_step kuint" settled
    "\<lambda>f. f \<in> {End_iterator, Reply_out_of_range, Publish_overrun}" for kuint
proof
  fix r :: "'a redis" and ev
  assume "settled r"
  note ok = redis_step_ok [OF this, of kuint ev]
  show "redis_step kuint ev r = Inr r' \<Longrightarrow> settled r'" for r' using ok by simp
  show "redis_step kuint ev r = Inl f \<Longrightarrow> f \<in> {End_iterator, Reply_out_of_range, Publish_overrun}" for f
    using ok by (cases ev) (auto split: if_splits)
qed

definition all_requested :: "'c redis_event list \<Rightarrow> 'c multiset" where
  "all_requested evs = sum_list (map requested evs)"

lemma redis_run_ledger:
  "settled r \<Longrightarrow> redis_run kuint evs r = Inr r' \<Longrightarrow> settled r' \<and> ledger r' = ledger r + all_requested evs"
proof (induction evs arbitrary: r)
  case (Cons ev evs)
  then obtain u where "redis_step kuint ev r = Inr u" "redis_run kuint evs u = Inr r'" by (auto simp: res_simps)
  with Cons redis_step_ok [OF Cons.prems(1), of kuint ev] show ?case by (auto simp: all_requested_def)
qed (simp add: all_requested_def)

lemma redis_run_faults:
  "settled r \<Longrightarrow> redis_run kuint evs r = Inl f \<Longrightarrow> \<exists>ev \<in> set evs. f \<in> event_faults kuint ev"
proof (induction evs arbitrary: r)
  case (Cons ev evs)
  show ?case
  proof (cases "redis_step kuint ev r")
    case (Inl e)
    with Cons.prems redis_step_ok [OF Cons.prems(1), of kuint ev] show ?thesis by auto
  next
    case (Inr u)
    with redis_step_ok [OF Cons.prems(1), of kuint ev] have "settled u" by simp
    with Cons Inr show ?thesis by auto
  qed
qed simp

end
