(* ===== verification/Redis_Replies.thy ===== *)
theory Redis_Replies
  imports Redis_Inv
begin

text \<open>
  What the client makes of the bytes it reads: whole reply lines, a line cut in two by the network,
  and the lines it cannot handle. \<open>rest_same\<close> relates two states that differ only in what reading
  replies may change.
\<close>

subsection \<open>Reply lines\<close>

text \<open>A reply as the getline of the loop sees it, with its carriage return and without its line feed.\<close>

definition reply_line :: "string \<Rightarrow> bool" where
  "reply_line l \<longleftrightarrow> 3 \<le> length l \<and> LF \<notin> set l \<and> last l = CR \<and> (hd l = CHR '':'' \<or> l = ''+PONG'' @ [CR])"

definition join_lines :: "string list \<Rightarrow> string" where
  "join_lines ls = concat (map (\<lambda>l. l @ [LF]) ls)"

lemma join_lines_simps [simp]:
  "join_lines [] = []"
  "join_lines (l # ls) = l @ LF # join_lines ls"
  by (simp_all add: join_lines_def)

lemma integer_reply: "reply_line (CHR '':'' # decimal n @ [CR])"
proof -
  have digit: "digit d \<noteq> LF" if "d < 10" for d
  proof
    assume "digit d = LF"
    with that undigit_digit [of d] have "undigit LF = d" by simp
    with \<open>digit d = LF\<close> have "of_char (digit d) = (10::nat)" by simp
    then show False using that by (simp add: digit_def)
  qed
  have "LF \<notin> set (decimal n)" using decimal_chars [of LF n] digit by metis
  moreover have "0 < length (decimal n)" by simp
  ultimately show ?thesis by (auto simp: reply_line_def Suc_le_eq numeral_eq_Suc)
qed

definition rest_same :: "'c redis \<Rightarrow> 'c redis \<Rightarrow> bool" where
  "rest_same r r' \<longleftrightarrow> out_buf r' = out_buf r \<and> data (out_tmp_buf r') = data (out_tmp_buf r) \<and>
     busy r' = busy r \<and> is_connected r' = is_connected r \<and> redis_host r' = redis_host r \<and> redis_port r' = redis_port r \<and>
     timeout_connect r' = timeout_connect r \<and> timeout_ping r' = timeout_ping r"

lemma rest_same_refl [simp]: "rest_same r r"
  by (simp add: rest_same_def)

lemma rest_same_trans: "rest_same r s \<Longrightarrow> rest_same s t \<Longrightarrow> rest_same r t"
  by (simp add: rest_same_def)

lemma answer_front_fields:
  assumes "callbacks (out_tmp_buf r) = cb # cbs"
  obtains r' where "answer_front ok r = Inr r'" and "callbacks (out_tmp_buf r') = cbs"
    and "in_buf r' = in_buf r" and "rest_same r r'"
    and "answers r' = answers r @ map (\<lambda>c. (c, ok)) (clients [cb])"
proof
  let ?r1 = "call_callback cb ok r"
  let ?r' = "?r1\<lparr>out_tmp_buf := (out_tmp_buf ?r1)\<lparr>callbacks := tl (callbacks (out_tmp_buf ?r1))\<rparr>\<rparr>"
  show "answer_front ok r = Inr ?r'" using assms by (simp add: answer_front_def Let_def)
  show "callbacks (out_tmp_buf ?r') = cbs" "in_buf ?r' = in_buf r" using assms by (simp_all add: redis_simps)
  show "rest_same r ?r'" "answers ?r' = answers r @ map (\<lambda>c. (c, ok)) (clients [cb])"
    by (auto simp: rest_same_def call_callback_def timeout_no_ping_def start_op_def clients_def
        List.map_filter_def split: bool_callback.splits)
qed

lemma clients_Cons: "clients (cb # cbs) = clients [cb] @ clients cbs"
  by (simp add: clients_def List.map_filter_def split: bool_callback.splits)

lemma size_minus: "n \<le> m \<Longrightarrow> (word_of_nat m :: 64 word) - word_of_nat n = word_of_nat (m - n)"
  by (simp add: of_nat_diff)

lemma size_less: "m < 2 ^ 64 \<Longrightarrow> (word_of_nat m :: 64 word) < 4 \<longleftrightarrow> m < 4"
  by (simp add: word_less_nat_alt unat_of_nat)

text \<open>One whole line.\<close>

lemma reply_round:
  assumes "reply_line l" and "in_buf r = l @ LF # rest" and "length (in_buf r) < 2 ^ 64"
    and "callbacks (out_tmp_buf r) = cb # cbs"
  obtains r' where
    "reply_loop (Suc i) (word_of_nat (length (in_buf r))) True s r =
       reply_loop i (word_of_nat (length rest)) True l r'"
    and "callbacks (out_tmp_buf r') = cbs" and "in_buf r' = rest" and "rest_same r r'"
    and "answers r' = answers r @ map (\<lambda>c. (c, True)) (clients [cb])"
proof -
  let ?r1 = "r\<lparr>in_buf := rest\<rparr>"
  from assms(4) have "callbacks (out_tmp_buf ?r1) = cb # cbs" by simp
  from answer_front_fields [OF this, of True] obtain r' where
    r': "answer_front True ?r1 = Inr r'" "callbacks (out_tmp_buf r') = cbs" "in_buf r' = rest"
      "rest_same ?r1 r'" "answers r' = answers r @ map (\<lambda>c. (c, True)) (clients [cb])"
    by (metis (lifting) redis.select_convs(8,11) redis.surjective redis.update_convs(8))
  have len: "length (in_buf r) = length rest + (length l + 1)" using assms(2) by simp
  have "\<not> (word_of_nat (length (in_buf r)) :: 64 word) < 4"
    using size_less [OF assms(3)] assms(1) len by (simp add: reply_line_def)
  moreover have "word_of_nat (length (in_buf r)) - (word_of_nat (length l) + 1) =
      (word_of_nat (length rest) :: 64 word)"
    unfolding len by simp
  moreover have "getline True s (in_buf r) = (True, l, rest)"
    using assms(1,2) by (simp add: reply_line_def)
  moreover have "l \<noteq> []" "last l = CR" "hd l = CHR '':'' \<or> l = ''+PONG'' @ [CR]"
    using assms(1) by (auto simp: reply_line_def)
  ultimately have "reply_loop (Suc i) (word_of_nat (length (in_buf r))) True s r =
       reply_loop i (word_of_nat (length rest)) True l r'"
    using r'(1) by (auto simp: Let_def)
  moreover have "rest_same r r'" using r'(4) by (simp add: rest_same_def)
  ultimately show thesis using r' that by blast
qed

text \<open>Whole lines, then the rest.\<close>

lemma reply_rounds:
  assumes "\<forall>l \<in> set ls. reply_line l" and "in_buf r = join_lines ls @ rest" and "length (in_buf r) < 2 ^ 64"
    and "callbacks (out_tmp_buf r) = cs @ ds" and "length cs = length ls"
  shows "\<exists>r' s'. reply_loop (length ls + m) (word_of_nat (length (in_buf r))) True s r =
      reply_loop m (word_of_nat (length rest)) True s' r' \<and>
    callbacks (out_tmp_buf r') = ds \<and> in_buf r' = rest \<and> rest_same r r' \<and>
    answers r' = answers r @ map (\<lambda>c. (c, True)) (clients cs)"
  using assms
proof (induction ls arbitrary: r s cs)
  case Nil
  then show ?case by auto
next
  case (Cons l ls)
  then obtain cb cs' where cs: "cs = cb # cs'" "length cs' = length ls" by (cases cs) auto
  obtain r1 where r1: "reply_loop (Suc (length ls + m)) (word_of_nat (length (in_buf r))) True s r =
       reply_loop (length ls + m) (word_of_nat (length (join_lines ls @ rest))) True l r1"
    "callbacks (out_tmp_buf r1) = cs' @ ds" "in_buf r1 = join_lines ls @ rest" "rest_same r r1"
    "answers r1 = answers r @ map (\<lambda>c. (c, True)) (clients [cb])"
    using reply_round [of l r "join_lines ls @ rest" cb "cs' @ ds" "length ls + m" s] Cons.prems cs by auto
  have "length (in_buf r1) < 2 ^ 64" using Cons.prems(2,3) r1(3) by simp
  from Cons.IH [OF _ r1(3) this r1(2) cs(2), of l] Cons.prems(1) obtain r' s' where
    "reply_loop (length ls + m) (word_of_nat (length (in_buf r1))) True l r1 =
      reply_loop m (word_of_nat (length rest)) True s' r'"
    "callbacks (out_tmp_buf r') = ds" "in_buf r' = rest" "rest_same r1 r'"
    "answers r' = answers r1 @ map (\<lambda>c. (c, True)) (clients cs')"
    by auto
  with r1 cs show ?case
    by (auto simp: clients_Cons [of cb cs'] intro: rest_same_trans)
qed

lemma same_in_buf: "in_buf r = b \<Longrightarrow> r\<lparr>in_buf := b\<rparr> = r"
  by simp

text \<open>The handler, when the loop stopped on a short rest or ran out of requests.\<close>

lemma handle_read_lines:
  assumes "\<forall>l \<in> set ls. reply_line l" and "in_buf r = join_lines ls @ rest" and "length (in_buf r) < 2 ^ 64"
    and "callbacks (out_tmp_buf r) = cs @ ds" and "length cs = length ls"
    and "ds = [] \<or> length rest < 4"
  shows "\<exists>r'. rest_same r r' \<and> in_buf r' = rest \<and> callbacks (out_tmp_buf r') = ds \<and>
    answers r' = answers r @ map (\<lambda>c. (c, True)) (clients cs) \<and>
    redis_handle_read Success r =
      (if ds \<noteq> [] then Inr (start_read r')
       else if callbacks (out_buf r) = [] then unlock_busy r' else redis_write True r')"
proof -
  from reply_rounds [OF assms(1-5), of "length ds" "[]"] obtain r' s' where
    loop: "reply_loop (length ls + length ds) (word_of_nat (length (in_buf r))) True [] r =
      reply_loop (length ds) (word_of_nat (length rest)) True s' r'"
    and r': "callbacks (out_tmp_buf r') = ds" "in_buf r' = rest" "rest_same r r'"
      "answers r' = answers r @ map (\<lambda>c. (c, True)) (clients cs)" by blast
  have "length rest < 2 ^ 64" using assms(2,3) by simp
  from size_less [OF this] assms(6)
  have "reply_loop (length ds) (word_of_nat (length rest)) True s' r' =
      Inr (Stopped (length ds) (word_of_nat (length rest)), r')"
    by (cases ds) auto
  moreover have "length (callbacks (out_tmp_buf r)) = length ls + length ds" using assms(4,5) by simp
  moreover have "out_buf r' = out_buf r" using r'(3) by (simp add: rest_same_def)
  ultimately show ?thesis using loop r'
    by (intro exI [of _ r']) (simp add: redis_handle_read_def Let_def same_in_buf)
qed

subsection \<open>Cut lines\<close>

text \<open>
  A line whose end has not arrived: the getline has already taken it off the buffer, so its bytes
  are gone when the next ones come.
\<close>

lemma handle_read_cut:
  assumes "\<forall>l \<in> set ls. reply_line l" and "in_buf r = join_lines ls @ part" and "length (in_buf r) < 2 ^ 64"
    and "callbacks (out_tmp_buf r) = cs @ ds" and "length cs = length ls" and "ds \<noteq> []"
    and "4 \<le> length part" and "LF \<notin> set part" and "last part \<noteq> CR"
  shows "\<exists>r'. redis_handle_read Success r = Inr (start_read r') \<and> rest_same r r' \<and> in_buf r' = [] \<and>
    callbacks (out_tmp_buf r') = ds \<and> answers r' = answers r @ map (\<lambda>c. (c, True)) (clients cs)"
proof -
  from reply_rounds [OF assms(1-5), of "length ds" "[]"] obtain r' s' where
    loop: "reply_loop (length ls + length ds) (word_of_nat (length (in_buf r))) True [] r =
      reply_loop (length ds) (word_of_nat (length part)) True s' r'"
    and r': "callbacks (out_tmp_buf r') = ds" "in_buf r' = part" "rest_same r r'"
      "answers r' = answers r @ map (\<lambda>c. (c, True)) (clients cs)" by blast
  have "length part < 2 ^ 64" using assms(2,3) by simp
  from size_less [OF this] assms(7) have "\<not> (word_of_nat (length part) :: 64 word) < 4" by simp
  moreover have "getline True s' (in_buf r') = (False, part, [])" using assms(8) r'(2) by simp
  moreover have "part \<noteq> []" using assms(7) by auto
  ultimately have "reply_loop (length ds) (word_of_nat (length part)) True s' r' =
      Inr (Stopped (length ds) (word_of_nat (length part)), r'\<lparr>in_buf := []\<rparr>)"
    using assms(6,9) by (cases ds) (auto simp: Let_def)
  moreover have "length (callbacks (out_tmp_buf r)) = length ls + length ds" using assms(4,5) by simp
  ultimately have "redis_handle_read Success r = Inr (start_read (r'\<lparr>in_buf := []\<rparr>))"
    using loop assms(6) by (simp add: redis_handle_read_def Let_def)
  moreover have "rest_same r (r'\<lparr>in_buf := []\<rparr>)" using r'(3) by (simp add: rest_same_def)
  ultimately show ?thesis using r' by (intro exI [of _ "r'\<lparr>in_buf := []\<rparr>"]) simp
qed

text \<open>
  A line whose line feed alone is missing: the stream is no longer good, so every further getline
  leaves the line in \<open>s\<close>, and \<open>left\<close> has wrapped around.
\<close>

lemma stale_rounds:
  assumes "reply_line l" and "callbacks (out_tmp_buf r) = cs" and "in_buf r = []"
    and "length cs * (length l + 1) + 4 \<le> unat (left :: 64 word)"
  shows "\<exists>r' left'. reply_loop (length cs) left False l r = Inr (Stopped 0 left', r') \<and>
    rest_same r r' \<and> in_buf r' = [] \<and> callbacks (out_tmp_buf r') = [] \<and>
    answers r' = answers r @ map (\<lambda>c. (c, True)) (clients cs)"
  using assms
proof (induction cs arbitrary: r left)
  case Nil
  then show ?case by (auto simp: clients_def List.map_filter_def)
next
  case (Cons cb cs)
  let ?r1 = "r\<lparr>in_buf := []\<rparr>" and ?step = "word_of_nat (length l) + 1 :: 64 word"
  have "?r1 = r" using Cons.prems(3) by simp
  from answer_front_fields [OF Cons.prems(2), of True] obtain r1 where
    r1: "answer_front True r = Inr r1" "callbacks (out_tmp_buf r1) = cs" "in_buf r1 = []" "rest_same r r1"
      "answers r1 = answers r @ map (\<lambda>c. (c, True)) (clients [cb])"
    using Cons.prems(3) by metis
  have "length l + 1 \<le> unat left" using Cons.prems(4) by simp
  moreover have step: "unat ?step = length l + 1"
  proof -
    have "length l + 1 < 2 ^ 64"
      using Cons.prems(4) unsigned_less [of left, where ?'a = nat] by simp
    then have "unat (word_of_nat (length l + 1) :: 64 word) = length l + 1" by (simp only: unat_of_nat) simp
    then show ?thesis by (simp add: add.commute)
  qed
  ultimately have "unat (left - ?step) = unat left - (length l + 1)"
    by (metis unat_sub word_le_nat_alt)
  then have "length cs * (length l + 1) + 4 \<le> unat (left - ?step)" using Cons.prems(4) by simp
  from Cons.IH [OF assms(1) r1(2,3) this] r1 obtain r' left' where
    IH: "reply_loop (length cs) (left - ?step) False l r1 = Inr (Stopped 0 left', r')" "rest_same r1 r'"
      "in_buf r' = []" "callbacks (out_tmp_buf r') = []"
      "answers r' = answers r1 @ map (\<lambda>c. (c, True)) (clients cs)" by blast
  have "\<not> left < 4" using Cons.prems(4) by (simp add: word_less_nat_alt)
  moreover have "getline False l (in_buf r) = (False, l, [])" using Cons.prems(3) by (simp add: getline_def)
  moreover have "l \<noteq> []" "last l = CR" "hd l = CHR '':'' \<or> l = ''+PONG'' @ [CR]"
    using assms(1) by (auto simp: reply_line_def)
  ultimately have "reply_loop (length (cb # cs)) left False l r = reply_loop (length cs) (left - ?step) False l r1"
    using r1(1) same_in_buf [OF Cons.prems(3)] by (auto simp: Let_def)
  with IH r1 show ?case by (auto simp: clients_Cons [of cb cs] intro: rest_same_trans)
qed

lemma handle_read_no_lf:
  assumes "reply_line l" and "in_buf r = l" and "4 \<le> length l" and "callbacks (out_tmp_buf r) = cs"
    and "cs \<noteq> []" and "length cs * (length l + 1) < 2 ^ 63"
  shows "\<exists>r'. rest_same r r' \<and> in_buf r' = [] \<and> callbacks (out_tmp_buf r') = [] \<and>
    answers r' = answers r @ map (\<lambda>c. (c, True)) (clients cs) \<and>
    redis_handle_read Success r =
      (if callbacks (out_buf r) = [] then unlock_busy r' else redis_write True r')"
proof -
  obtain cb cs' where cs: "cs = cb # cs'" using assms(5) by (cases cs) auto
  let ?r1 = "r\<lparr>in_buf := []\<rparr>" and ?left = "word_of_nat (length l) :: 64 word"
  have "callbacks (out_tmp_buf ?r1) = cb # cs'" using assms(4) cs by simp
  from answer_front_fields [OF this, of True] obtain r1 where
    r1: "answer_front True ?r1 = Inr r1" "callbacks (out_tmp_buf r1) = cs'" "in_buf r1 = []" "rest_same ?r1 r1"
      "answers r1 = answers r @ map (\<lambda>c. (c, True)) (clients [cb])"
    by (metis (lifting) redis.select_convs(8,11) redis.surjective redis.update_convs(8))
  have len: "length l < 2 ^ 63" "length cs' * (length l + 1) + (length l + 1) < 2 ^ 63"
    using assms(6) cs by (simp_all add: algebra_simps)
  have neg: "?left - (word_of_nat (length l) + 1) = (- 1 :: 64 word)" by simp
  have "unat (- 1 :: 64 word) = 2 ^ 64 - 1" by (simp add: unsigned_minus_1_eq_mask mask_eq_exp_minus_1)
  then have "length cs' * (length l + 1) + 4 \<le> unat (- 1 :: 64 word)" using len(2) by simp
  from stale_rounds [OF assms(1) r1(2,3) this] obtain r' left' where
    r': "reply_loop (length cs') (- 1) False l r1 = Inr (Stopped 0 left', r')" "rest_same r1 r'"
      "in_buf r' = []" "callbacks (out_tmp_buf r') = []"
      "answers r' = answers r1 @ map (\<lambda>c. (c, True)) (clients cs')" by blast
  have "\<not> ?left < 4" using size_less [of "length l"] assms(3) len(1) by simp
  moreover have "getline True [] (in_buf r) = (False, l, [])" using assms(1,2) by (simp add: reply_line_def)
  moreover have "l \<noteq> []" "last l = CR" "hd l = CHR '':'' \<or> l = ''+PONG'' @ [CR]"
    using assms(1) by (auto simp: reply_line_def)
  ultimately have "reply_loop (length cs) ?left True [] r = Inr (Stopped 0 left', r')"
    using r1(1) r'(1) neg unfolding cs by (auto simp: Let_def)
  moreover have "rest_same r r'" using r1(4) r'(2) by (simp add: rest_same_def)
  moreover have "out_buf r' = out_buf r" using calculation(2) by (simp add: rest_same_def)
  ultimately show ?thesis using assms(2,4) r' r1(5)
    by (intro exI [of _ r'])
      (simp add: redis_handle_read_def Let_def clients_Cons [of cb cs'] cs same_in_buf del: reply_loop.simps)
qed

end
