(* ===== verification/Redis_Resp.thy ===== *)
theory Redis_Resp
  imports Redis
begin

text \<open>
  The requests against the Redis protocol: a reader of commands, written from the protocol and not
  from the client, gives back the channel and the message.
\<close>

definition resp_line :: "string \<Rightarrow> (string \<times> string) option" where
  "resp_line s = (case dropWhile (\<lambda>c. c \<noteq> CR) s of
     _ # l # rest \<Rightarrow> if l = LF then Some (takeWhile (\<lambda>c. c \<noteq> CR) s, rest) else None
   | _ \<Rightarrow> None)"

definition is_digit :: "char \<Rightarrow> bool" where
  "is_digit c \<longleftrightarrow> (\<exists>d \<in> set [0..<10]. c = digit d)"

definition resp_number :: "char \<Rightarrow> string \<Rightarrow> (nat \<times> string) option" where
  "resp_number mark s = (case s of
     [] \<Rightarrow> None
   | c # t \<Rightarrow>
       if c \<noteq> mark then None
       else case resp_line t of
         None \<Rightarrow> None
       | Some (ds, rest) \<Rightarrow> if ds \<noteq> [] \<and> list_all is_digit ds then Some (undecimal ds, rest) else None)"

definition resp_bulk :: "string \<Rightarrow> (string \<times> string) option" where
  "resp_bulk s = (case resp_number (CHR ''$'') s of
     None \<Rightarrow> None
   | Some (n, rest) \<Rightarrow>
       if n \<le> length rest \<and> take 2 (drop n rest) = crlf then Some (take n rest, drop (n + 2) rest) else None)"

fun resp_bulks :: "nat \<Rightarrow> string \<Rightarrow> (string list \<times> string) option" where
  "resp_bulks 0 s = Some ([], s)"
| "resp_bulks (Suc n) s = (case resp_bulk s of
     None \<Rightarrow> None
   | Some (b, rest) \<Rightarrow> map_option (\<lambda>(bs, r). (b # bs, r)) (resp_bulks n rest))"

definition resp_command :: "string \<Rightarrow> (string list \<times> string) option" where
  "resp_command s = (case resp_number (CHR ''*'') s of
     None \<Rightarrow> None
   | Some (n, rest) \<Rightarrow> resp_bulks n rest)"

lemma digit_not_CR: "d < 10 \<Longrightarrow> digit d \<noteq> CR"
proof
  assume "d < 10" and "digit d = CR"
  then have "of_char (digit d) = (13::nat)" by simp
  with \<open>d < 10\<close> show False by (simp add: digit_def)
qed

lemma decimal_digits: "list_all is_digit (decimal n)" "CR \<notin> set (decimal n)"
  using decimal_chars [of _ n] digit_not_CR by (fastforce simp: list_all_iff is_digit_def)+

lemma resp_line_crlf: "CR \<notin> set l \<Longrightarrow> resp_line (l @ crlf @ rest) = Some (l, rest)"
  by (auto simp: resp_line_def dropWhile_append takeWhile_append)

lemma resp_number_decimal: "resp_number mark (mark # decimal n @ crlf @ rest) = Some (n, rest)"
  using resp_line_crlf [of "decimal n" rest] decimal_digits [of n] by (simp add: resp_number_def)

lemma resp_bulk_bytes:
  "resp_bulk (CHR ''$'' # decimal (length b) @ crlf @ b @ crlf @ rest) = Some (b, rest)"
  using resp_number_decimal [of "CHR ''$''" "length b" "b @ crlf @ rest"] by (simp add: resp_bulk_def)

text \<open>\<open>karma::uint_\<close> prints a number that fits an \<open>unsigned int\<close> in decimal.\<close>

definition prints_uint :: "(64 word \<Rightarrow> string) \<Rightarrow> bool" where
  "prints_uint kuint \<longleftrightarrow> (\<forall>n < 2 ^ 32. kuint (word_of_nat n) = decimal n)"

lemma decimal_counts:
  "decimal 3 = ''3''" "decimal 1 = ''1''"
  "decimal (length ''PUBLISH'') = ''7''" "decimal (length ''PING'') = ''4''"
  by code_simp+

lemma publish_bytes_resp:
  assumes "prints_uint kuint" and "length channel < 2 ^ 32" and "length message < 2 ^ 32"
  shows "resp_command (publish_bytes kuint channel message @ rest) = Some ([''PUBLISH'', channel, message], rest)"
proof -
  let ?k = "\<lambda>s. kuint (word_of_nat (length s))"
  have k: "?k channel = decimal (length channel)" "?k message = decimal (length message)"
    using assms by (simp_all add: prints_uint_def)
  let ?m = "CHR ''$'' # decimal (length message) @ crlf @ message @ crlf @ rest"
  let ?c = "CHR ''$'' # decimal (length channel) @ crlf @ channel @ crlf @ ?m"
  have "publish_bytes kuint channel message @ rest =
      CHR ''*'' # decimal 3 @ crlf @ (CHR ''$'' # decimal (length ''PUBLISH'') @ crlf @ ''PUBLISH'' @ crlf @ ?c)"
    by (simp add: publish_bytes_def k decimal_counts del: list.size)
  moreover have "resp_bulks 3 (CHR ''$'' # decimal (length ''PUBLISH'') @ crlf @ ''PUBLISH'' @ crlf @ ?c) =
      Some ([''PUBLISH'', channel, message], rest)"
    by (simp only: numeral_3_eq_3 resp_bulks.simps resp_bulk_bytes option.case prod.case option.map)
  ultimately show ?thesis
    unfolding resp_command_def by (simp only: resp_number_decimal option.case prod.case)
qed

lemma publish_bytes_size:
  assumes "prints_uint kuint" and "length channel < 2 ^ 32" and "length message < 2 ^ 32"
  shows "length (publish_bytes kuint channel message) \<le> publish_size channel message"
proof -
  have "length (kuint (word_of_nat n)) \<le> 10" if "n < 2 ^ 32" for n
  proof -
    have "n < 10 ^ 10" using that by simp
    from decimal_length [OF this] that assms(1) show ?thesis by (simp add: prints_uint_def)
  qed
  from this [OF assms(2)] this [OF assms(3)] show ?thesis
    by (simp add: publish_bytes_def publish_size_def)
qed

lemma ping_bytes_resp: "resp_command (ping_bytes @ rest) = Some ([''PING''], rest)"
proof -
  have "ping_bytes @ rest = CHR ''*'' # decimal 1 @ crlf @ (CHR ''$'' # decimal (length ''PING'') @ crlf @ ''PING'' @ crlf @ rest)"
    by (simp add: ping_bytes_def decimal_counts del: list.size One_nat_def)
  moreover have "resp_bulks 1 (CHR ''$'' # decimal (length ''PING'') @ crlf @ ''PING'' @ crlf @ rest) = Some ([''PING''], rest)"
    by (simp only: One_nat_def resp_bulks.simps resp_bulk_bytes option.case prod.case option.map)
  ultimately show ?thesis
    unfolding resp_command_def by (simp only: resp_number_decimal option.case prod.case)
qed

end
