(* ===== verification/Redis_Wire.thy ===== *)
theory Redis_Wire
  imports Redis_Replies Redis_Resp
begin

text \<open>
  What the redis server is sent. The client runs beside two histories, the bytes its writes took and
  the requests it accepted; as long as no write fails the bytes are whole requests, in order.
\<close>

subsection \<open>Histories\<close>

datatype request = Publish_request string string | Ping_request

definition encode :: "(64 word \<Rightarrow> string) \<Rightarrow> request \<Rightarrow> string" where
  "encode kuint q =
     (case q of
        Publish_request channel message \<Rightarrow> publish_bytes kuint channel message
      | Ping_request \<Rightarrow> ping_bytes)"

definition command_of :: "request \<Rightarrow> string list" where
  "command_of q =
     (case q of
        Publish_request channel message \<Rightarrow> [''PUBLISH'', channel, message]
      | Ping_request \<Rightarrow> [''PING''])"

text \<open>A client that is not connected refuses requests; its own ping is one, when its timer fires.\<close>

definition accepted_requests :: "'c redis_event \<Rightarrow> 'c redis \<Rightarrow> request list" where
  "accepted_requests ev r =
     (if \<not> event_enabled ev r \<or> \<not> is_connected r then []
      else case ev of
        Publish channel message c \<Rightarrow> [Publish_request channel message]
      | Ping c \<Rightarrow> [Ping_request]
      | Ping_timeout ec \<Rightarrow> if ec \<noteq> Operation_aborted then [Ping_request] else []
      | _ \<Rightarrow> [])"

definition bytes_taken :: "'c redis_event \<Rightarrow> 'c redis \<Rightarrow> string" where
  "bytes_taken ev r =
     (case ev of
        Written ec n \<Rightarrow> if event_enabled ev r then take n (data (out_tmp_buf r)) else []
      | _ \<Rightarrow> [])"

record 'c redis_history =
  client :: "'c redis"
  server_bytes :: string
  requests_made :: "request list"

definition history_step ::
  "(64 word \<Rightarrow> string) \<Rightarrow> 'c redis_event \<Rightarrow> 'c redis_history \<Rightarrow> redis_fault + 'c redis_history" where
  "history_step kuint ev h =
     and_then (redis_step kuint ev (client h)) (\<lambda>r.
     Inr \<lparr>client = r, server_bytes = server_bytes h @ bytes_taken ev (client h),
          requests_made = requests_made h @ accepted_requests ev (client h)\<rparr>)"

definition history_init :: "'c redis_history" where
  "history_init = \<lparr>client = redis_init, server_bytes = [], requests_made = []\<rparr>"

text \<open>The histories only watch.\<close>

lemma history_client:
  "fold_res (history_step kuint) evs h = Inr h' \<Longrightarrow> redis_run kuint evs (client h) = Inr (client h')"
  by (induction evs arbitrary: h) (fastforce simp: history_step_def and_then_Inr)+

lemma client_history:
  "redis_run kuint evs (client h) = Inr r \<Longrightarrow> \<exists>h'. fold_res (history_step kuint) evs h = Inr h' \<and> client h' = r"
  by (induction evs arbitrary: h) (fastforce simp: history_step_def and_then_Inr)+

subsection \<open>The queues\<close>

text \<open>What an operation does to the bytes that wait: nothing, or it swaps the queues and starts a write.\<close>

definition same_bytes :: "'c redis \<Rightarrow> 'c redis \<Rightarrow> bool" where
  "same_bytes r r' \<longleftrightarrow>
     data (out_buf r') = data (out_buf r) \<and> data (out_tmp_buf r') = data (out_tmp_buf r) \<and>
     (Writing \<in> set (pending r) \<longrightarrow> Writing \<in> set (pending r'))"

definition swapped :: "'c redis \<Rightarrow> 'c redis \<Rightarrow> bool" where
  "swapped r r' \<longleftrightarrow>
     data (out_buf r') = data (out_tmp_buf r) \<and> data (out_tmp_buf r') = data (out_buf r) \<and>
     Writing \<in> set (pending r')"

lemma same_bytes_refl [simp]: "same_bytes r r"
  by (simp add: same_bytes_def)

lemma same_bytes_trans: "same_bytes r s \<Longrightarrow> same_bytes s t \<Longrightarrow> same_bytes r t"
  by (simp add: same_bytes_def)

lemma same_swapped: "same_bytes r s \<Longrightarrow> swapped s t \<Longrightarrow> swapped r t"
  by (simp add: same_bytes_def swapped_def)

lemma write_swaps: "redis_write locked r = Inr r' \<Longrightarrow> r' = r \<and> busy r \<and> \<not> locked \<or> swapped r r'"
  by (auto simp: redis_write_def Let_def swapped_def start_op_def split: if_splits)

lemma start_op_bytes: "same_bytes r (start_op op r)"
  by (simp add: same_bytes_def start_op_def)

lemma call_callback_bytes: "same_bytes r (call_callback cb ok r)"
  by (simp add: same_bytes_def call_callback_def timeout_no_ping_def start_op_def split: bool_callback.split)

lemma answer_front_bytes: "answer_front ok r = Inr r' \<Longrightarrow> same_bytes r r'"
  using call_callback_bytes [of r _ ok]
  by (auto simp: answer_front_def Let_def same_bytes_def split: list.splits)

lemma answers_bytes: "fold_res (\<lambda>_. answer_front ok) xs r = Inr r' \<Longrightarrow> same_bytes r r'"
proof (induction xs arbitrary: r)
  case (Cons x xs)
  then show ?case by (auto simp: and_then_Inr intro: same_bytes_trans [OF answer_front_bytes])
qed simp

lemma reconnect_bytes: "reconnect r = Inr r' \<Longrightarrow> same_bytes r r'"
proof -
  assume "reconnect r = Inr r'"
  then obtain u v where "fold_res (\<lambda>_. answer_front False)
        [0..<length (callbacks (out_tmp_buf (redis_close r)))] (redis_close r) = Inr u"
      "unlock_busy u = Inr v" "r' = connect_host (redis_host v) (redis_port v) v"
    by (auto simp: reconnect_def drop_requests_def and_then_Inr)
  with answers_bytes [OF this(1)] show ?thesis
    by (auto simp: same_bytes_def redis_close_def unlock_busy_def connect_host_def start_op_def split: if_splits)
qed

lemma reply_loop_bytes: "reply_loop i left good s r = Inr (e, r') \<Longrightarrow> same_bytes r r'"
proof (induction i left good s r arbitrary: e rule: reply_loop.induct)
  case (2 i left good s r)
  obtain good' s' buf where g: "getline good s (in_buf r) = (good', s', buf)" by (cases "getline good s (in_buf r)")
  have buf: "same_bytes r (r\<lparr>in_buf := buf\<rparr>)" by (simp add: same_bytes_def)
  from "2.prems" g show ?case
    by (auto simp: Let_def and_then_Inr buf split: if_splits
        intro: same_bytes_trans [OF buf same_bytes_trans [OF answer_front_bytes "2.IH"]])
qed simp

lemma handle_read_bytes:
  assumes "redis_handle_read ec r = Inr r'"
  shows "same_bytes r r' \<or> swapped r r'"
proof (cases "ec = Success")
  case False
  with assms show ?thesis by (simp add: redis_handle_read_def reconnect_bytes)
next
  case True
  with assms obtain e r1 where loop: "reply_loop (length (callbacks (out_tmp_buf r)))
      (word_of_nat (length (in_buf r))) True [] r = Inr (e, r1)"
    and rest: "(case e of Bad_reply \<Rightarrow> reconnect r1
       | Stopped i left \<Rightarrow>
           (let r2 = r1\<lparr>in_buf := drop (unat (word_of_nat (length (in_buf r1)) - left)) (in_buf r1)\<rparr> in
            if i > 0 then Inr (start_read r2)
            else if callbacks (out_buf r2) = [] then unlock_busy r2 else redis_write True r2)) = Inr r'"
    by (auto simp: redis_handle_read_def and_then_Inr)
  have "same_bytes r1 r' \<or> swapped r1 r'"
  proof (cases e)
    case (Stopped i left)
    let ?r2 = "r1\<lparr>in_buf := drop (unat (word_of_nat (length (in_buf r1)) - left)) (in_buf r1)\<rparr>"
    have "same_bytes r1 ?r2" by (simp add: same_bytes_def)
    moreover have "same_bytes ?r2 r' \<or> swapped ?r2 r'"
      using rest Stopped write_swaps [of True ?r2 r']
      by (auto simp: Let_def start_read_def start_op_def unlock_busy_def same_bytes_def split: if_splits)
    ultimately show ?thesis by (blast intro: same_bytes_trans same_swapped)
  qed (use rest reconnect_bytes in auto)
  with reply_loop_bytes [OF loop] show ?thesis by (blast intro: same_bytes_trans same_swapped)
qed

text \<open>The invariant: the requests are those sent, those being sent and those that wait.\<close>

definition encode_all :: "(64 word \<Rightarrow> string) \<Rightarrow> request list \<Rightarrow> string" where
  "encode_all kuint qs = concat (map (encode kuint) qs)"

definition split_queues :: "(64 word \<Rightarrow> string) \<Rightarrow> 'c redis \<Rightarrow> request list \<Rightarrow> request list \<Rightarrow> bool" where
  "split_queues kuint r bs cs \<longleftrightarrow>
     data (out_tmp_buf r) = encode_all kuint bs \<and> data (out_buf r) = encode_all kuint cs \<and>
     (bs \<noteq> [] \<longrightarrow> Writing \<in> set (pending r))"

definition history_inv :: "(64 word \<Rightarrow> string) \<Rightarrow> 'c redis_history \<Rightarrow> bool" where
  "history_inv kuint h \<longleftrightarrow>
     settled (client h) \<and>
     (\<exists>as bs cs. requests_made h = as @ bs @ cs \<and> server_bytes h = encode_all kuint as \<and>
       split_queues kuint (client h) bs cs)"

lemma split_same: "split_queues kuint r bs cs \<Longrightarrow> same_bytes r r' \<Longrightarrow> split_queues kuint r' bs cs"
  by (auto simp: split_queues_def same_bytes_def)

lemma split_swapped:
  "split_queues kuint r [] cs \<Longrightarrow> swapped r r' \<Longrightarrow> split_queues kuint r' cs []"
  by (simp add: split_queues_def swapped_def)

text \<open>A swap happens only when nothing is being sent, so the order is kept.\<close>

lemma split_write:
  assumes "split_queues kuint r bs cs" and "\<not> busy r \<Longrightarrow> Writing \<notin> set (pending r)"
    and "redis_write False r = Inr r'"
  shows "\<exists>bs' cs'. bs' @ cs' = bs @ cs \<and> split_queues kuint r' bs' cs'"
  using write_swaps [OF assms(3)]
proof
  assume "swapped r r'"
  moreover from this assms(3) have "\<not> busy r \<or> r' = r" by (auto simp: redis_write_def split: if_splits)
  ultimately show ?thesis using assms(1,2) split_swapped [of kuint r cs r']
    by (cases "bs = []") (auto simp: split_queues_def)
qed (use assms(1) in blast)

lemma not_writing: "settled r \<Longrightarrow> \<not> busy r \<Longrightarrow> Writing \<notin> set (pending r)"
  by (auto simp: settled_def io_ops_def)

lemma split_request:
  assumes "split_queues kuint r bs cs" and "settled r" and "redis_write False (enqueue (encode kuint q) cb r) = Inr r'"
  shows "\<exists>bs' cs'. bs' @ cs' = bs @ cs @ [q] \<and> split_queues kuint r' bs' cs'"
proof -
  let ?r = "enqueue (encode kuint q) cb r"
  have "split_queues kuint ?r bs (cs @ [q])"
    using assms(1) by (simp add: split_queues_def enqueue_def encode_all_def)
  moreover have "\<not> busy ?r \<Longrightarrow> Writing \<notin> set (pending ?r)"
    using not_writing [OF assms(2)] by (simp add: enqueue_def)
  ultimately show ?thesis using split_write [OF _ _ assms(3)] by fastforce
qed

lemma call_refused:
  "split_queues kuint r bs cs \<Longrightarrow> split_queues kuint (call_callback cb ok r) bs cs"
  by (erule split_same) (rule call_callback_bytes)

subsection \<open>Every event\<close>

text \<open>A write that fails keeps its unsent bytes queued; without one, nothing is out of order.\<close>

fun write_failed :: "'c redis_event \<Rightarrow> bool" where
  "write_failed (Written ec n) = (ec \<noteq> Success)"
| "write_failed _ = False"

lemma finish_split:
  "split_queues kuint r bs cs \<Longrightarrow> \<forall>ec n. ev \<noteq> Written ec n \<Longrightarrow> split_queues kuint (finish_op ev r) bs cs"
  by (cases ev) (auto simp: split_queues_def finish_op_def in_set_remove1)

lemma finish_settled_op:
  "settled r \<Longrightarrow> \<forall>ec n. ev \<noteq> Written ec n \<Longrightarrow> \<forall>ec b. ev \<noteq> Read ec b \<Longrightarrow> settled (finish_op ev r)"
  by (cases ev) (auto simp: finish_op_def finish_settled)

lemma ping_split:
  assumes "split_queues kuint r bs cs" and "settled r" and "redis_ping cb r = Inr r'"
  shows "\<exists>bs' cs'. bs' @ cs' = bs @ cs @ (if is_connected r then [Ping_request] else []) \<and> split_queues kuint r' bs' cs'"
  using assms split_request [of kuint r bs cs Ping_request cb r'] call_refused [OF assms(1)]
  by (auto simp: redis_ping_def encode_def split: if_splits)

lemma publish_split:
  assumes "split_queues kuint r bs cs" and "settled r" and "publish kuint channel message cb r = Inr r'"
  shows "\<exists>bs' cs'. bs' @ cs' = bs @ cs @ (if is_connected r then [Publish_request channel message] else []) \<and>
    split_queues kuint r' bs' cs'"
  using assms split_request [of kuint r bs cs "Publish_request channel message" cb r'] call_refused [OF assms(1)]
  by (auto simp: publish_def encode_def Let_def split: if_splits)

lemma connect_split:
  assumes "split_queues kuint r bs cs" and "settled r" and "handle_connect ec it r = Inr r'"
  shows "\<exists>bs' cs'. bs' @ cs' = bs @ cs \<and> split_queues kuint r' bs' cs'"
proof (cases "ec = Success")
  case True
  let ?r = "(timeout_no_ping True r)\<lparr>is_connected := True\<rparr>"
  have same: "same_bytes r ?r" by (simp add: same_bytes_def timeout_no_ping_def start_op_def)
  have "\<not> busy ?r \<Longrightarrow> Writing \<notin> set (pending ?r)"
    using not_writing [OF timeout_no_ping_settled [OF assms(2)], of True] by simp
  with split_same [OF assms(1) same] assms(3) True show ?thesis
    using split_write [of kuint ?r bs cs r'] by (auto simp: handle_connect_def Let_def split: if_splits)
next
  case False
  then have "same_bytes r r'"
    using assms(3) by (auto simp: handle_connect_def connect_endpoint_def same_bytes_def start_op_def split: if_splits)
  with split_same [OF assms(1)] show ?thesis by blast
qed

lemma quiet_bytes:
  assumes "handle_event kuint ev r = Inr r'"
    and "case ev of Set_timeouts c p \<Rightarrow> True | Connect_to h p \<Rightarrow> True | Resolved h p ec it \<Rightarrow> True
      | Connect_timeout it ec \<Rightarrow> True | _ \<Rightarrow> False"
  shows "same_bytes r r'"
  using assms
  by (cases ev) (auto simp: set_timeouts_def connect_host_def handle_resolve_def connect_endpoint_def
      handle_timeout_connect_def same_bytes_def start_op_def and_then_Inr split: if_splits list.splits)

lemma step_split:
  assumes inv: "split_queues kuint r bs cs" "settled r" and step: "redis_step kuint ev r = Inr r'"
    and ok: "\<not> write_failed ev"
  shows "\<exists>as bs' cs'. as @ bs' @ cs' = bs @ cs @ accepted_requests ev r \<and> bytes_taken ev r = encode_all kuint as \<and>
    split_queues kuint r' bs' cs'"
proof (cases "event_enabled ev r")
  case False
  with step inv show ?thesis
    by (intro exI [of _ "[]"] exI [of _ bs] exI [of _ cs])
      (auto simp: redis_step_def accepted_requests_def bytes_taken_def encode_all_def split: redis_event.split)
next
  case True
  with step have h: "handle_event kuint ev (finish_op ev r) = Inr r'" by (simp add: redis_step_def)
  have none: "bytes_taken ev r = encode_all kuint []" if "\<forall>ec n. ev \<noteq> Written ec n"
    using that by (simp add: bytes_taken_def encode_all_def split: redis_event.split)
  note fin = finish_split [OF inv(1)] finish_settled_op [OF inv(2)]
  have con: "is_connected (finish_op ev r) = is_connected r" by (simp add: finish_op_def split: option.split)
  have moved: "?thesis" if "\<forall>ec n. ev \<noteq> Written ec n"
    "\<exists>bs' cs'. bs' @ cs' = bs @ cs @ accepted_requests ev r \<and> split_queues kuint r' bs' cs'"
    using that none by (metis append_Nil)
  have quiet: "?thesis" if q: "case ev of Set_timeouts c p \<Rightarrow> True | Connect_to h p \<Rightarrow> True | Resolved h p ec it \<Rightarrow> True
      | Connect_timeout it ec \<Rightarrow> True | _ \<Rightarrow> False"
  proof (rule moved)
    show not_written: "\<forall>ec n. ev \<noteq> Written ec n" using q by auto
    have "accepted_requests ev r = []" using q by (cases ev) (simp_all add: accepted_requests_def)
    with split_same [OF fin(1) [OF not_written] quiet_bytes [OF h q]]
    show "\<exists>bs' cs'. bs' @ cs' = bs @ cs @ accepted_requests ev r \<and> split_queues kuint r' bs' cs'" by auto
  qed
  show ?thesis
  proof (cases ev)
    case (Publish channel message c)
    with fin have "split_queues kuint (finish_op ev r) bs cs" "settled (finish_op ev r)" by simp_all
    from publish_split [OF this] h True con Publish show ?thesis
      by (intro moved) (auto simp: accepted_requests_def)
  next
    case (Ping c)
    with fin have "split_queues kuint (finish_op ev r) bs cs" "settled (finish_op ev r)" by simp_all
    from ping_split [OF this] h True con Ping show ?thesis by (intro moved) (auto simp: accepted_requests_def)
  next
    case (Ping_timeout ec)
    with fin have f: "split_queues kuint (finish_op ev r) bs cs" "settled (finish_op ev r)" by simp_all
    from ping_split [OF f] f(1) h True con Ping_timeout show ?thesis
      by (intro moved) (auto simp: accepted_requests_def handle_timeout_ping_def split: if_splits)
  next
    case (Connected it ec)
    with fin have "split_queues kuint (finish_op ev r) bs cs" "settled (finish_op ev r)" by simp_all
    from connect_split [OF this] h True Connected show ?thesis by (intro moved) (auto simp: accepted_requests_def)
  next
    case (Written ec n)
    let ?r = "sent_bytes n (finish_op ev r)"
    from Written ok True have n: "ec = Success" "n = length (data (out_tmp_buf r))" by simp_all
    with h Written have "r' = start_read ?r" by (simp add: redis_handle_write_def)
    then have "split_queues kuint r' [] cs"
      using inv(1) n Written
      by (simp add: split_queues_def sent_bytes_def finish_op_def start_read_def start_op_def Let_def encode_all_def)
    moreover have "bytes_taken ev r = encode_all kuint bs"
      using True Written n inv(1) by (simp add: bytes_taken_def split_queues_def)
    moreover have "accepted_requests ev r = []" using Written by (simp add: accepted_requests_def)
    ultimately show ?thesis by (intro exI [of _ bs] exI [of _ "[]"] exI [of _ cs]) simp
  next
    case (Read ec bytes)
    let ?r = "(finish_op ev r)\<lparr>in_buf := in_buf (finish_op ev r) @ bytes\<rparr>"
    from Read h have hr: "redis_handle_read ec ?r = Inr r'" by simp
    have split: "split_queues kuint ?r bs cs" using fin(1) Read by (simp add: split_queues_def)
    have "Writing \<notin> set (pending r)"
    proof
      assume "Writing \<in> set (pending r)"
      then have "0 < count (mset (pending r)) Writing" by (simp add: count_greater_zero_iff)
      moreover have "0 < count (mset (pending r)) Reading" using True Read by (simp add: count_greater_zero_iff)
      ultimately have "1 < io_ops r" unfolding io_ops_def by linarith
      with inv(2) show False by (simp add: settled_def split: if_splits)
    qed
    then have "bs = []" using inv(1) by (auto simp: split_queues_def)
    with split handle_read_bytes [OF hr] have "\<exists>bs' cs'. bs' @ cs' = bs @ cs \<and> split_queues kuint r' bs' cs'"
      using split_same split_swapped by (metis append_Nil append_Nil2)
    with Read show ?thesis by (intro moved) (simp_all add: accepted_requests_def)
  qed (rule quiet, simp)+
qed

subsection \<open>Runs\<close>

definition small_request :: "request \<Rightarrow> bool" where
  "small_request q =
     (case q of
        Publish_request channel message \<Rightarrow> length channel < 2 ^ 32 \<and> length message < 2 ^ 32
      | Ping_request \<Rightarrow> True)"

fun small_event :: "'c redis_event \<Rightarrow> bool" where
  "small_event (Publish channel message c) = (length channel < 2 ^ 32 \<and> length message < 2 ^ 32)"
| "small_event _ = True"

lemma accepted_small: "small_event ev \<Longrightarrow> list_all small_request (accepted_requests ev r)"
  by (cases ev) (simp_all add: accepted_requests_def small_request_def)

text \<open>An event that breaks neither rule keeps the invariant; the others are not considered.\<close>

definition orderly_step ::
  "(64 word \<Rightarrow> string) \<Rightarrow> 'c redis_event \<Rightarrow> 'c redis_history \<Rightarrow> redis_fault + 'c redis_history" where
  "orderly_step kuint ev h = (if write_failed ev \<or> \<not> small_event ev then Inr h else history_step kuint ev h)"

lemma orderly_run:
  "\<forall>ev \<in> set evs. \<not> write_failed ev \<and> small_event ev \<Longrightarrow>
    fold_res (orderly_step kuint) evs h = fold_res (history_step kuint) evs h"
proof (induction evs arbitrary: h)
  case (Cons ev evs)
  then have "orderly_step kuint ev = history_step kuint ev" by (intro ext) (simp add: orderly_step_def)
  with Cons show ?case by (cases "history_step kuint ev h") simp_all
qed simp

interpretation history: machine "orderly_step kuint"
    "\<lambda>h. history_inv kuint h \<and> list_all small_request (requests_made h)" for kuint
proof
  fix h h' and ev :: "'a redis_event"
  assume inv: "history_inv kuint h \<and> list_all small_request (requests_made h)" and step: "orderly_step kuint ev h = Inr h'"
  show "history_inv kuint h' \<and> list_all small_request (requests_made h')"
  proof (cases "write_failed ev \<or> \<not> small_event ev")
    case True
    with inv step show ?thesis by (simp add: orderly_step_def)
  next
    case False
    with step obtain r where r: "redis_step kuint ev (client h) = Inr r"
      "h' = \<lparr>client = r, server_bytes = server_bytes h @ bytes_taken ev (client h),
        requests_made = requests_made h @ accepted_requests ev (client h)\<rparr>"
      by (auto simp: orderly_step_def history_step_def and_then_Inr)
    from inv obtain as bs cs where q: "settled (client h)" "requests_made h = as @ bs @ cs"
      "server_bytes h = encode_all kuint as" "split_queues kuint (client h) bs cs"
      unfolding history_inv_def by blast
    from step_split [OF q(4,1) r(1)] False obtain as' bs' cs' where
      s: "as' @ bs' @ cs' = bs @ cs @ accepted_requests ev (client h)"
        "bytes_taken ev (client h) = encode_all kuint as'" "split_queues kuint r bs' cs'" by blast
    have "settled r" using redis_step_ok [OF q(1), of kuint ev] r(1) by simp
    moreover have "requests_made h' = (as @ as') @ bs' @ cs'" using q(2) s(1) r(2) by simp
    moreover have "server_bytes h' = encode_all kuint (as @ as')" using q(3) s(2) r(2) by (simp add: encode_all_def)
    ultimately have "history_inv kuint h'"
      unfolding history_inv_def using s(3) r(2) by (intro conjI exI [of _ "as @ as'"] exI [of _ bs'] exI [of _ cs']) simp_all
    with inv accepted_small [of ev "client h"] False r(2) show ?thesis by simp
  qed
qed

lemma history_init_inv: "history_inv kuint history_init"
  by (simp add: history_inv_def history_init_def redis_init_settled split_queues_def encode_all_def)
    (simp add: redis_init_def)

subsection \<open>What the server reads\<close>

fun resp_commands :: "nat \<Rightarrow> string \<Rightarrow> (string list list \<times> string) option" where
  "resp_commands 0 s = Some ([], s)"
| "resp_commands (Suc n) s =
     (case resp_command s of
        None \<Rightarrow> None
      | Some (c, rest) \<Rightarrow> map_option (\<lambda>(cs, r). (c # cs, r)) (resp_commands n rest))"

lemma encode_resp:
  "prints_uint kuint \<Longrightarrow> small_request q \<Longrightarrow> resp_command (encode kuint q @ rest) = Some (command_of q, rest)"
  by (cases q) (simp_all add: encode_def command_of_def small_request_def publish_bytes_resp ping_bytes_resp)

lemma encode_all_resp:
  "prints_uint kuint \<Longrightarrow> list_all small_request qs \<Longrightarrow>
    resp_commands (length qs) (encode_all kuint qs @ rest) = Some (map command_of qs, rest)"
proof (induction qs)
  case (Cons q qs)
  then show ?case
    using encode_resp [of kuint q "encode_all kuint qs @ rest"] by (simp add: encode_all_def)
qed (simp add: encode_all_def)

lemma history_reads:
  assumes "prints_uint kuint" and "fold_res (history_step kuint) evs history_init = Inr h"
    and "\<forall>ev \<in> set evs. \<not> write_failed ev \<and> small_event ev"
  shows "\<exists>qs rest. requests_made h = qs @ rest \<and> resp_commands (length qs) (server_bytes h) = Some (map command_of qs, []) \<and>
    (data (out_buf (client h)) = [] \<and> data (out_tmp_buf (client h)) = [] \<longrightarrow> rest = [])"
proof -
  have "history_inv kuint h \<and> list_all small_request (requests_made h)"
  proof (rule history.run_inv)
    show "fold_res (orderly_step kuint) evs history_init = Inr h" unfolding orderly_run [OF assms(3)] by (rule assms(2))
    show "history_inv kuint history_init \<and> list_all small_request (requests_made history_init)"
      by (simp add: history_init_inv) (simp add: history_init_def)
  qed
  then have inv: "history_inv kuint h" "list_all small_request (requests_made h)" by simp_all
  then obtain as bs cs where q: "requests_made h = as @ bs @ cs" "server_bytes h = encode_all kuint as"
    "split_queues kuint (client h) bs cs"
    unfolding history_inv_def by blast
  have none: "encode_all kuint qs = [] \<Longrightarrow> qs = []" for qs
    by (cases qs) (auto simp: encode_all_def encode_def publish_bytes_def ping_bytes_def split: request.splits)
  show ?thesis
    using q inv(2) encode_all_resp [OF assms(1), of as "[]"] none
    by (intro exI [of _ as] exI [of _ "bs @ cs"]) (auto simp: split_queues_def)
qed

end
