(* ===== verification/Redis_Properties.thy ===== *)
theory Redis_Properties
  imports Redis_Wire
begin

text \<open>The properties of the redis client. The witnesses print numbers with \<open>sample_uint\<close>.\<close>

definition sample_uint :: "64 word \<Rightarrow> string" where
  "sample_uint w = decimal (unat w)"

lemma sample_prints: "prints_uint sample_uint"
  by (simp add: prints_uint_def sample_uint_def unat_of_nat)

definition sample_endpoint :: endpoint where
  "sample_endpoint = \<lparr>address = ''127.0.0.1'', host_name = ''localhost'', service_name = ''6379''\<rparr>"

definition connected_events :: "nat redis_event list" where
  "connected_events = [Connect_to ''localhost'' ''6379'',
     Resolved ''localhost'' ''6379'' Success [sample_endpoint], Connected [sample_endpoint] Success]"

text \<open>A client whose requests \<open>cs\<close> were sent and wait for their replies.\<close>

definition waiting_client :: "nat list \<Rightarrow> string \<Rightarrow> nat redis" where
  "waiting_client cs buf = redis_init\<lparr>is_connected := True, busy := True, pending := [Reading], in_buf := buf,
     out_tmp_buf := \<lparr>data = [], callbacks = map Client cs\<rparr>\<rparr>"

lemma clients_Client [simp]: "clients (Client c # cbs) = c # clients cbs"
  by (simp add: clients_def List.map_filter_def)

lemma drop_answers:
  assumes "callbacks (out_tmp_buf r) = cbs" and "length xs = length cbs"
  shows "\<exists>r'. fold_res (\<lambda>_. answer_front False) xs r = Inr r' \<and> callbacks (out_tmp_buf r') = [] \<and>
    answers r' = answers r @ map (\<lambda>c. (c, False)) (clients cbs) \<and> rest_same r r' \<and>
    in_buf r' = in_buf r \<and> pending r' = pending r"
  using assms
proof (induction xs arbitrary: r cbs)
  case (Cons x xs)
  then obtain cb cbs' where cbs: "cbs = cb # cbs'" by (cases cbs) auto
  with Cons.prems have q: "callbacks (out_tmp_buf r) = cb # cbs'" by simp
  let ?r1 = "call_callback cb False r"
  let ?u = "?r1\<lparr>out_tmp_buf := (out_tmp_buf ?r1)\<lparr>callbacks := tl (callbacks (out_tmp_buf ?r1))\<rparr>\<rparr>"
  have u: "answer_front False r = Inr ?u" using q by (simp add: answer_front_def Let_def)
  have f: "callbacks (out_tmp_buf ?u) = cbs'" "in_buf ?u = in_buf r" "pending ?u = pending r"
    "answers ?u = answers r @ map (\<lambda>c. (c, False)) (clients [cb])" "rest_same r ?u"
    using q by (auto simp: call_callback_def timeout_no_ping_def rest_same_def clients_def
        List.map_filter_def split: bool_callback.splits)
  from Cons.IH [OF f(1)] Cons.prems(2) cbs obtain r' where
    "fold_res (\<lambda>_. answer_front False) xs ?u = Inr r'" "callbacks (out_tmp_buf r') = []"
    "answers r' = answers ?u @ map (\<lambda>c. (c, False)) (clients cbs')" "rest_same ?u r'"
    "in_buf r' = in_buf ?u" "pending r' = pending ?u" by auto
  with u f cbs show ?case by (auto simp: clients_Cons [of cb cbs'] intro: rest_same_trans)
qed (simp add: clients_def List.map_filter_def)

lemma reconnect_fields:
  assumes "busy r"
  shows "\<exists>r'. reconnect r = Inr r' \<and> \<not> is_connected r' \<and> \<not> busy r' \<and>
    out_tmp_buf r' = (out_tmp_buf r)\<lparr>callbacks := []\<rparr> \<and> out_buf r' = out_buf r \<and> in_buf r' = in_buf r \<and>
    answers r' = answers r @ map (\<lambda>c. (c, False)) (clients (callbacks (out_tmp_buf r))) \<and>
    pending r' = pending r @ [Resolving (redis_host r) (redis_port r)] \<and>
    timeout_ping r' = timeout_ping r \<and> timeout_connect r' = timeout_connect r"
proof -
  from drop_answers [of "redis_close r" _ "[0..<length (callbacks (out_tmp_buf (redis_close r)))]", OF refl]
  obtain u where u: "fold_res (\<lambda>_. answer_front False)
      [0..<length (callbacks (out_tmp_buf (redis_close r)))] (redis_close r) = Inr u"
    and f: "callbacks (out_tmp_buf u) = []" "rest_same (redis_close r) u" "in_buf u = in_buf r" "pending u = pending r"
      "answers u = answers r @ map (\<lambda>c. (c, False)) (clients (callbacks (out_tmp_buf r)))"
    by (auto simp: redis_close_def)
  then have "drop_requests (redis_close r) = Inr (u\<lparr>busy := False\<rparr>)"
    using assms by (simp add: drop_requests_def unlock_busy_def rest_same_def redis_close_def)
  moreover have "out_tmp_buf u = (out_tmp_buf r)\<lparr>callbacks := []\<rparr>"
    using f(1,2) by (simp add: rest_same_def redis_close_def)
  ultimately show ?thesis using f
    by (simp add: reconnect_def connect_host_def start_op_def rest_same_def redis_close_def)
qed

subsection \<open>Requests\<close>

text \<open>
  C16. What \<open>publish\<close> appends to the queue is one command of the Redis protocol: a reader of the
  protocol gives back the channel and the message byte for byte, whatever bytes they hold and
  whatever follows, and the command fits the buffer that was prepared for it.
\<close>

theorem publish_roundtrip:
  assumes "prints_uint kuint" and "is_connected r"
    and "length channel < 2 ^ 32" and "length message < 2 ^ 32"
  shows "\<exists>bytes. publish kuint channel message cb r = redis_write False (enqueue bytes cb r) \<and>
    length bytes \<le> publish_size channel message \<and>
    resp_command (bytes @ rest) = Some ([''PUBLISH'', channel, message], rest)"
  using publish_bytes_resp [OF assms(1,3,4), of rest] publish_bytes_size [OF assms(1,3,4)] assms(2)
  by (auto simp: publish_def Let_def not_less)

lemma publish_roundtrip_witness:
  "\<exists>bytes. publish sample_uint ''foo'' ''{}'' (Client 1) (redis_init\<lparr>is_connected := True\<rparr>) =
      redis_write False (enqueue bytes (Client (1::nat)) (redis_init\<lparr>is_connected := True\<rparr>)) \<and>
    length bytes \<le> publish_size ''foo'' ''{}'' \<and>
    resp_command (bytes @ ping_bytes) = Some ([''PUBLISH'', ''foo'', ''{}''], ping_bytes)"
  by (rule publish_roundtrip [OF sample_prints]) simp_all

subsection \<open>Runs\<close>

text \<open>
  C24. Whatever the server sends, whatever the network does and however its handlers interleave,
  a client that resolves its host and publishes messages below 4 GB never fails an assertion,
  never unlocks a free lock, never reads past a queue or an endpoint list and never overruns a
  buffer: the one fault left is a reply line without any byte.
\<close>

theorem redis_faults:
  assumes "prints_uint kuint" and "redis_run kuint evs redis_init = Inl f"
    and "\<forall>ev \<in> set evs. case ev of
        Publish channel message c \<Rightarrow> length channel < 2 ^ 32 \<and> length message < 2 ^ 32
      | Resolved h p ec it \<Rightarrow> ec = Success
      | _ \<Rightarrow> True"
  shows "f = Reply_out_of_range"
proof -
  from redis_run_faults [OF redis_init_settled(1) assms(2)] obtain ev where
    ev: "ev \<in> set evs" "f \<in> event_faults kuint ev" by blast
  with assms(3) publish_bytes_size [OF assms(1)] show ?thesis
    by (cases ev) (fastforce split: if_splits)+
qed

lemma redis_faults_witness:
  "redis_run sample_uint (connected_events @ [Publish ''foo'' ''{}'' 1, Written Success 34, Read Success ([LF] @ '':1'' @ crlf)]) redis_init =
     Inl Reply_out_of_range"
proof -
  let ?evs = "connected_events @ [Publish ''foo'' ''{}'' 1, Written Success 34, Read Success ([LF] @ '':1'' @ crlf)]"
  have "isl (redis_run sample_uint ?evs redis_init)" by code_simp
  then obtain f where f: "redis_run sample_uint ?evs redis_init = Inl f" by (meson isl_def)
  have "f = Reply_out_of_range"
    by (rule redis_faults [OF sample_prints f]) (simp add: connected_events_def)
  with f show ?thesis by simp
qed

text \<open>
  C13. The lock \<open>busy\<close> serializes the connection: at any time at most one write or read is in flight,
  the lock is held exactly then, and exactly then requests wait for their replies.
\<close>

theorem one_operation_in_flight:
  assumes "redis_run kuint evs redis_init = Inr r"
  shows "count (mset (pending r)) Writing + count (mset (pending r)) Reading = (if busy r then 1 else 0) \<and>
    (busy r \<longleftrightarrow> callbacks (out_tmp_buf r) \<noteq> [])"
  using redis_run_ledger [OF redis_init_settled(1) assms] by (simp add: settled_def io_ops_def)

lemma one_operation_in_flight_witness:
  "\<exists>r. redis_run sample_uint (connected_events @ [Publish ''foo'' ''{}'' 1, Ping 2]) redis_init = Inr r \<and>
    count (mset (pending r)) Writing + count (mset (pending r)) Reading = (if busy r then 1 else 0)"
proof -
  let ?evs = "connected_events @ [Publish ''foo'' ''{}'' 1, Ping 2]"
  have "\<not> isl (redis_run sample_uint ?evs redis_init)" by code_simp
  then obtain r where r: "redis_run sample_uint ?evs redis_init = Inr r"
    by (blast dest: returned)
  with one_operation_in_flight [OF r] show ?thesis by blast
qed

text \<open>
  C6. Every request's callback is called at most once and never forgotten: at any time, the
  requests that were answered together with those in the two queues are exactly the requests that
  were made, each as often as it was made.
\<close>

theorem every_request_accounted:
  assumes "redis_run kuint evs redis_init = Inr r"
  shows "mset (map fst (answers r)) + mset (clients (callbacks (out_tmp_buf r))) +
      mset (clients (callbacks (out_buf r))) = all_requested evs"
  using redis_run_ledger [OF redis_init_settled(1) assms] redis_init_settled(2) by (simp add: ledger_def)

lemma every_request_accounted_witness:
  "\<exists>r. redis_run sample_uint (connected_events @ [Publish ''foo'' ''{}'' 1, Ping 2, Written (Error_value 32) 0]) redis_init = Inr r \<and>
    mset (map fst (answers r)) + mset (clients (callbacks (out_tmp_buf r))) +
      mset (clients (callbacks (out_buf r))) = {#1, 2#}"
proof -
  let ?evs = "connected_events @ [Publish ''foo'' ''{}'' 1, Ping 2, Written (Error_value 32) 0]"
  have "\<not> isl (redis_run sample_uint ?evs redis_init)" by code_simp
  then obtain r where r: "redis_run sample_uint ?evs redis_init = Inr r"
    by (blast dest: returned)
  moreover have "all_requested ?evs = {#1, 2#}" by (simp add: all_requested_def connected_events_def)
  ultimately show ?thesis using every_request_accounted [OF r] by auto
qed

text \<open>
  C10. The server gets what was asked for: in every run in which no write fails, whatever is published,
  pinged or answered meanwhile and however the handlers interleave, a reader of the protocol finds in
  the bytes sent to the server exactly the first of the accepted requests, whole, unchanged and in the
  order they were made; all of them when both queues are empty.
\<close>

theorem server_reads_requests:
  assumes "prints_uint kuint" and "fold_res (history_step kuint) evs history_init = Inr h"
    and "\<forall>ev \<in> set evs. \<not> write_failed ev \<and> small_event ev"
  shows "redis_run kuint evs redis_init = Inr (client h) \<and>
    (\<exists>qs rest. requests_made h = qs @ rest \<and>
      resp_commands (length qs) (server_bytes h) = Some (map command_of qs, []) \<and>
      (data (out_buf (client h)) = [] \<and> data (out_tmp_buf (client h)) = [] \<longrightarrow> rest = []))"
  using history_reads [OF assms] history_client [OF assms(2)] by (simp add: history_init_def)

lemma server_reads_requests_witness:
  "\<exists>h qs rest. fold_res (history_step sample_uint)
      (connected_events @ [Publish ''foo'' ''{}'' 1, Ping 2, Written Success 34]) history_init = Inr h \<and>
    requests_made h = qs @ rest \<and> requests_made h = [Publish_request ''foo'' ''{}'', Ping_request] \<and>
    resp_commands (length qs) (server_bytes h) = Some (map command_of qs, [])"
proof -
  let ?evs = "connected_events @ [Publish ''foo'' ''{}'' 1, Ping 2, Written Success 34]"
  have "case fold_res (history_step sample_uint) ?evs history_init of
      Inl _ \<Rightarrow> False | Inr h \<Rightarrow> requests_made h = [Publish_request ''foo'' ''{}'', Ping_request]"
    by code_simp
  then obtain h where h: "fold_res (history_step sample_uint) ?evs history_init = Inr h"
    "requests_made h = [Publish_request ''foo'' ''{}'', Ping_request]"
    by (auto split: sum.splits)
  have "\<forall>ev \<in> set ?evs. \<not> write_failed ev \<and> small_event ev" by (simp add: connected_events_def)
  from server_reads_requests [OF sample_prints h(1) this] h show ?thesis by blast
qed

subsection \<open>Replies\<close>

text \<open>
  C25. When whole reply lines arrive, one for each of the first requests that wait, these requests
  are confirmed in the order they were made, each by its own line. With requests left the client
  reads on; otherwise it sends the next batch when there is one, and frees the lock when not.
\<close>

theorem replies_confirm_in_order:
  assumes "\<forall>l \<in> set ls. reply_line l" and "in_buf r = join_lines ls" and "length (in_buf r) < 2 ^ 64"
    and "callbacks (out_tmp_buf r) = cs @ ds" and "length cs = length ls" and "settled r" and "busy r"
    and "Reading \<in> set (pending r)"
  shows "\<exists>r'. redis_handle_read Success (r\<lparr>pending := remove1 Reading (pending r)\<rparr>) = Inr r' \<and>
    settled r' \<and> answers r' = answers r @ map (\<lambda>c. (c, True)) (clients cs) \<and> in_buf r' = [] \<and>
    (if ds \<noteq> [] then busy r' \<and> callbacks (out_tmp_buf r') = ds \<and> Reading \<in> set (pending r')
     else if callbacks (out_buf r) = [] then \<not> busy r'
     else busy r' \<and> out_tmp_buf r' = out_buf r \<and> Writing \<in> set (pending r'))"
proof -
  let ?r = "r\<lparr>pending := remove1 Reading (pending r)\<rparr>"
  note held = finish_held [OF assms(6,8)]
  obtain u where u: "rest_same ?r u" "in_buf u = []" "callbacks (out_tmp_buf u) = ds"
      "answers u = answers r @ map (\<lambda>c. (c, True)) (clients cs)"
    and read: "redis_handle_read Success ?r = (if ds \<noteq> [] then Inr (start_read u)
       else if callbacks (out_buf r) = [] then unlock_busy u else redis_write True u)"
    using handle_read_lines [OF assms(1), of ?r "[]" cs ds] assms(2-5) by auto
  have "\<not> isl (redis_handle_read Success ?r)"
    using u assms(6,7) unfolding read
    by (auto simp: unlock_busy_def redis_write_def Let_def rest_same_def settled_def base_inv_def queue_ok_def)
  then have "\<exists>r'. redis_handle_read Success ?r = Inr r' \<and> settled r'"
    using handle_read_held [OF held(1), of Success] held(2) by auto
  then obtain r' where r': "redis_handle_read Success ?r = Inr r'" "settled r'" by blast
  with read u show ?thesis
    by (auto simp: start_read_def start_op_def unlock_busy_def redis_write_def Let_def rest_same_def assms(7)
        split: if_splits)
qed

lemma replies_confirm_in_order_witness:
  "\<exists>r'. redis_handle_read Success ((waiting_client [1, 2] ('':1'' @ crlf @ ''+PONG'' @ crlf))\<lparr>pending := []\<rparr>) = Inr r' \<and>
    answers r' = [(1, True), (2, True)]"
proof -
  let ?r = "waiting_client [1, 2] ('':1'' @ crlf @ ''+PONG'' @ crlf)"
  have settled: "settled ?r"
    by (simp add: waiting_client_def redis_init_def settled_def base_inv_def queue_ok_def io_ops_def op_ok_def)
  show ?thesis
    using replies_confirm_in_order [of "['':1'' @ [CR], ''+PONG'' @ [CR]]" ?r "[Client 1, Client 2]" "[]", OF _ _ _ _ _ settled]
    by (auto simp: waiting_client_def redis_init_def reply_line_def)
qed

text \<open>
  C26. When a write or a read fails, every request that waits for a reply is told so, in order, the
  requests not yet sent stay queued, the lock is free and the client resolves its host again.
\<close>

theorem failure_tells_all:
  assumes "ec \<noteq> Success" and "busy r"
  shows "\<exists>r'. redis_handle_write ec r = Inr r' \<and> redis_handle_read ec r = Inr r' \<and>
    answers r' = answers r @ map (\<lambda>c. (c, False)) (clients (callbacks (out_tmp_buf r))) \<and>
    callbacks (out_tmp_buf r') = [] \<and> out_buf r' = out_buf r \<and> \<not> busy r' \<and> \<not> is_connected r' \<and>
    pending r' = pending r @ [Resolving (redis_host r) (redis_port r)]"
  using reconnect_fields [OF assms(2)] assms(1)
  by (auto simp: redis_handle_write_def redis_handle_read_def)

lemma failure_tells_all_witness:
  "\<exists>r'. redis_handle_read Eof (waiting_client [1, 2] []) = Inr r' \<and> answers r' = [(1, False), (2, False)]"
  using failure_tells_all [of Eof "waiting_client [1, 2] []"]
  by (auto simp: waiting_client_def redis_init_def)

subsection \<open>What goes wrong\<close>

text \<open>
  A reply that the network cuts in two is lost: with at least four bytes but not yet its end
  in the buffer, they are taken off and dropped; when the end of the line comes it is too short to
  be looked at, so the request keeps waiting, the lock stays held and nothing is sent any more.
\<close>

theorem cut_reply_lost:
  assumes "in_buf r = part" and "4 \<le> length part" and "LF \<notin> set part" and "last part \<noteq> CR"
    and "length part < 2 ^ 64" and "callbacks (out_tmp_buf r) = cbs" and "cbs \<noteq> []" and "length fin < 4"
  shows "\<exists>u v. redis_handle_read Success r = Inr u \<and>
    redis_handle_read Success (u\<lparr>in_buf := in_buf u @ fin\<rparr>) = Inr v \<and>
    callbacks (out_tmp_buf v) = cbs \<and> answers v = answers r \<and> busy v = busy r \<and> in_buf v = fin"
proof -
  from handle_read_cut [of "[]" r part "[]" cbs] assms obtain r1 where
    r1: "redis_handle_read Success r = Inr (start_read r1)" "rest_same r r1" "in_buf r1 = []"
      "callbacks (out_tmp_buf r1) = cbs" "answers r1 = answers r"
    by (auto simp: clients_def List.map_filter_def)
  let ?u = "(start_read r1)\<lparr>in_buf := in_buf (start_read r1) @ fin\<rparr>"
  from handle_read_lines [of "[]" ?u fin "[]" cbs] r1 assms(7,8) obtain r2 where
    "redis_handle_read Success ?u = Inr (start_read r2)" "rest_same ?u r2" "in_buf r2 = fin"
    "callbacks (out_tmp_buf r2) = cbs" "answers r2 = answers r"
    by (auto simp: clients_def List.map_filter_def start_read_def start_op_def)
  with r1 show ?thesis
    by (intro exI [of _ "start_read r1"] exI [of _ "start_read r2"])
      (simp add: start_read_def start_op_def rest_same_def)
qed

lemma cut_reply_lost_witness:
  "\<exists>u v. redis_handle_read Success (waiting_client [1] '':123'') = Inr u \<and>
    redis_handle_read Success (u\<lparr>in_buf := in_buf u @ crlf\<rparr>) = Inr v \<and>
    callbacks (out_tmp_buf v) = [Client 1] \<and> busy v"
proof -
  have "\<exists>u v. redis_handle_read Success (waiting_client [1] '':123'') = Inr u \<and>
    redis_handle_read Success (u\<lparr>in_buf := in_buf u @ crlf\<rparr>) = Inr v \<and>
    callbacks (out_tmp_buf v) = [Client 1] \<and> answers v = answers (waiting_client [1] '':123'') \<and>
    busy v = busy (waiting_client [1] '':123'') \<and> in_buf v = crlf"
    by (rule cut_reply_lost [where part = "'':123''"]) (simp_all add: waiting_client_def)
  then show ?thesis by (auto simp: waiting_client_def)
qed

text \<open>
  C39. When the network cuts between the carriage return and the line feed of a reply, and this reply
  is all the client has to read, its length decides. With at least four bytes, its carriage return
  counted, the count of unread bytes wraps around and this one reply confirms every request that
  waits, answered by the server or not. A reply of three bytes, one digit, is not looked at: no
  request is answered and the client reads on, with the reply kept for its line feed.
\<close>

theorem reply_without_lf_confirms_all:
  assumes "reply_line l" and "in_buf r = l" and "callbacks (out_tmp_buf r) = cbs"
    and "cbs \<noteq> []" and "length cbs * (length l + 1) < 2 ^ 63" and "busy r" and "queue_ok (out_buf r)"
  shows "\<exists>r'. redis_handle_read Success r = Inr r' \<and>
    (if 4 \<le> length l then answers r' = answers r @ map (\<lambda>c. (c, True)) (clients cbs)
     else answers r' = answers r \<and> callbacks (out_tmp_buf r') = cbs \<and> in_buf r' = l \<and> Reading \<in> set (pending r'))"
proof (cases "4 \<le> length l")
  case True
  then show ?thesis using handle_read_no_lf [OF assms(1,2) True assms(3-5)] assms(6,7)
    by (auto simp: unlock_busy_def redis_write_def start_op_def rest_same_def Let_def queue_ok_def)
next
  case False
  then show ?thesis using handle_read_lines [of "[]" r l "[]" cbs] assms(2-4)
    by (auto simp: clients_def List.map_filter_def start_read_def start_op_def)
qed

lemma reply_without_lf_confirms_all_witness:
  "(\<exists>r'. redis_handle_read Success (waiting_client [1, 2, 3] ('':12'' @ [CR])) = Inr r' \<and>
      answers r' = [(1, True), (2, True), (3, True)]) \<and>
    (\<exists>r'. redis_handle_read Success (waiting_client [1, 2, 3] ('':1'' @ [CR])) = Inr r' \<and> answers r' = [])"
proof -
  let ?r = "\<lambda>l. waiting_client [1, 2, 3] l"
  have "\<exists>r'. redis_handle_read Success (?r l) = Inr r' \<and>
      (if 4 \<le> length l then answers r' = answers (?r l) @ map (\<lambda>c. (c, True)) (clients (map Client [1, 2, 3]))
       else answers r' = answers (?r l) \<and> callbacks (out_tmp_buf r') = map Client [1, 2, 3] \<and> in_buf r' = l \<and>
         Reading \<in> set (pending r'))"
    if "l \<in> {'':12'' @ [CR], '':1'' @ [CR]}" for l
    by (rule reply_without_lf_confirms_all) (use that in \<open>auto simp: waiting_client_def redis_init_def reply_line_def queue_ok_def\<close>)
  from this [of "'':12'' @ [CR]"] this [of "'':1'' @ [CR]"] show ?thesis
    by (simp add: waiting_client_def redis_init_def) blast
qed

text \<open>
  The line feed of such a reply comes later, in front of the next one, and stops the program: the
  loop reads an empty line and asks for its last character.
\<close>

lemma late_lf_faults:
  assumes "in_buf r = LF # rest" and "3 \<le> length rest" and "length rest < 2 ^ 63"
    and "callbacks (out_tmp_buf r) \<noteq> []"
  shows "redis_handle_read Success r = Inl Reply_out_of_range"
proof -
  obtain i where i: "length (callbacks (out_tmp_buf r)) = Suc i"
    using assms(4) by (cases "callbacks (out_tmp_buf r)") auto
  have "\<not> (word_of_nat (length (in_buf r)) :: 64 word) < 4"
    using size_less [of "length (in_buf r)"] assms(1-3) by simp
  moreover have "getline True [] (in_buf r) = (True, [], rest)"
    using getline_line [of "[]" "[]" rest] assms(1) by simp
  ultimately show ?thesis by (simp add: redis_handle_read_def i)
qed

text \<open>After a failed write the client is connected again with its queues as the failure left them.\<close>

lemma reconnected:
  assumes "data (out_tmp_buf (client h)) = part @ stale" and "out_buf (client h) = no_requests"
    and "in_buf (client h) = []" and "busy (client h)" and "Writing \<in> set (pending (client h))"
    and "ec \<noteq> Success" and "it \<noteq> []"
  shows "\<exists>u. fold_res (history_step kuint) [Written ec (length part),
      Resolved (redis_host (client h)) (redis_port (client h)) Success it, Connected it Success] h = Inr u \<and>
    server_bytes u = server_bytes h @ part \<and> is_connected (client u) \<and> \<not> busy (client u) \<and>
    out_buf (client u) = no_requests \<and> out_tmp_buf (client u) = \<lparr>data = stale, callbacks = []\<rparr> \<and> in_buf (client u) = [] \<and>
    answers (client u) = answers (client h) @ map (\<lambda>c. (c, False)) (clients (callbacks (out_tmp_buf (client h))))"
proof -
  let ?r = "sent_bytes (length part) ((client h)\<lparr>pending := remove1 Writing (pending (client h))\<rparr>)"
  have "busy ?r" using assms(4) by (simp add: sent_bytes_def Let_def)
  from reconnect_fields [OF this] obtain r1 where r1: "reconnect ?r = Inr r1" "\<not> busy r1"
    "out_tmp_buf r1 = \<lparr>data = stale, callbacks = []\<rparr>" "out_buf r1 = no_requests" "in_buf r1 = []"
    "answers r1 = answers (client h) @ map (\<lambda>c. (c, False)) (clients (callbacks (out_tmp_buf (client h))))"
    "Resolving (redis_host (client h)) (redis_port (client h)) \<in> set (pending r1)"
    using assms(1-3) by (auto simp: sent_bytes_def Let_def)
  have "redis_step kuint (Written ec (length part)) (client h) = Inr r1"
    using assms(1,5,6) r1(1) by (simp add: redis_step_def finish_op_def redis_handle_write_def)
  with r1 assms(1,5-7) show ?thesis
    by (simp add: history_step_def bytes_taken_def redis_step_def finish_op_def handle_resolve_def connect_endpoint_def
        start_op_def handle_connect_def timeout_no_ping_def Let_def)
qed

text \<open>
  A request on a free connection is sent behind whatever its queue still held, the other queue is
  kept for the next one, and the reply frees the connection.
\<close>

lemma publish_sent:
  fixes h :: "'c redis_history"
  assumes "is_connected (client h)" and "\<not> busy (client h)"
    and "out_buf (client h) = \<lparr>data = d, callbacks = []\<rparr>" and "out_tmp_buf (client h) = \<lparr>data = t, callbacks = []\<rparr>"
    and "length (publish_bytes kuint channel message) \<le> publish_size channel message"
  defines "b \<equiv> publish_bytes kuint channel message"
  shows "\<exists>h'. fold_res (history_step kuint) [Publish channel message c, Written Success (length (d @ b))] h = Inr h' \<and>
    server_bytes h' = server_bytes h @ d @ b \<and> is_connected (client h') \<and> busy (client h') \<and>
    out_buf (client h') = \<lparr>data = t, callbacks = []\<rparr> \<and> out_tmp_buf (client h') = \<lparr>data = [], callbacks = [Client c]\<rparr> \<and>
    Reading \<in> set (pending (client h')) \<and> in_buf (client h') = in_buf (client h) \<and>
    answers (client h') = answers (client h)"
proof -
  have "b \<noteq> []" by (simp add: b_def publish_bytes_def)
  with assms(1-5) show ?thesis
    by (simp add: b_def [symmetric] history_step_def redis_step_def finish_op_def publish_def Let_def enqueue_def
        redis_write_def start_op_def bytes_taken_def sent_bytes_def redis_handle_write_def start_read_def)
qed

lemma reply_frees:
  assumes "reply_line l" and "length l < 2 ^ 63" and "busy (client h)" and "in_buf (client h) = []"
    and "callbacks (out_tmp_buf (client h)) = [Client c]" and "callbacks (out_buf (client h)) = []"
    and "Reading \<in> set (pending (client h))"
  shows "\<exists>h'. fold_res (history_step kuint) [Read Success (l @ [LF])] h = Inr h' \<and>
    server_bytes h' = server_bytes h \<and> is_connected (client h') = is_connected (client h) \<and> \<not> busy (client h') \<and>
    out_buf (client h') = out_buf (client h) \<and> in_buf (client h') = [] \<and>
    out_tmp_buf (client h') = (out_tmp_buf (client h))\<lparr>callbacks := []\<rparr> \<and>
    answers (client h') = answers (client h) @ [(c, True)]"
proof -
  let ?r = "(client h)\<lparr>pending := remove1 Reading (pending (client h)), in_buf := l @ [LF]\<rparr>"
  obtain u where u: "rest_same ?r u" "in_buf u = []" "callbacks (out_tmp_buf u) = []"
      "answers u = answers (client h) @ [(c, True)]" "redis_handle_read Success ?r = unlock_busy u"
    using handle_read_lines [of "[l]" ?r "[]" "[Client c]" "[]"] assms(1,2,5,6)
    by (auto simp: join_lines_def clients_def List.map_filter_def)
  moreover have "redis_step kuint (Read Success (l @ [LF])) (client h) = redis_handle_read Success ?r"
    using assms(4,7) by (simp add: redis_step_def finish_op_def)
  ultimately show ?thesis using assms(3)
    by (simp add: history_step_def unlock_busy_def rest_same_def bytes_taken_def)
qed

text \<open>
  C40. A write that fails half way, with no request queued behind it and no reply unread, leaves the unsent
  rest of the old requests in a queue of the client. After the reconnect the first request (messages are below 4 GB) is
  sent alone and confirmed; the second is sent with the stale rest in front of it, on the new connection and after
  the old requests were told to have failed. A rest that does not begin with the star of a command is
  none, so the server reads the first request and then no command; when the write failed between two
  requests, the rest is a command and the request that was told to have failed is made.
\<close>

theorem stale_bytes_resent:
  fixes h :: "'c redis_history"
  assumes "data (out_tmp_buf (client h)) = part @ stale" and "out_buf (client h) = no_requests"
    and "in_buf (client h) = []" and "busy (client h)" and "Writing \<in> set (pending (client h))"
    and "ec \<noteq> Success" and "it \<noteq> []" and "reply_line l" and "length l < 2 ^ 63" and "prints_uint kuint"
    and "length ch < 2 ^ 32" and "length m < 2 ^ 32" and "length ch' < 2 ^ 32" and "length m' < 2 ^ 32"
  defines "b \<equiv> publish_bytes kuint ch m" and "b' \<equiv> publish_bytes kuint ch' m'"
  shows "\<exists>h'. fold_res (history_step kuint)
      [Written ec (length part), Resolved (redis_host (client h)) (redis_port (client h)) Success it,
       Connected it Success, Publish ch m c, Written Success (length b), Read Success (l @ [LF]),
       Publish ch' m' c', Written Success (length (stale @ b'))] h = Inr h' \<and>
    server_bytes h' = server_bytes h @ part @ b @ stale @ b' \<and>
    resp_command (b @ stale @ b') = Some ([''PUBLISH'', ch, m], stale @ b') \<and>
    (stale \<noteq> [] \<and> hd stale \<noteq> CHR ''*'' \<longrightarrow> resp_command (stale @ b') = None) \<and>
    (\<forall>ch0 m0 rest. length ch0 < 2 ^ 32 \<and> length m0 < 2 ^ 32 \<and> stale = publish_bytes kuint ch0 m0 @ rest \<longrightarrow>
      resp_command (stale @ b') = Some ([''PUBLISH'', ch0, m0], rest @ b')) \<and>
    answers (client h') = answers (client h) @
      map (\<lambda>c. (c, False)) (clients (callbacks (out_tmp_buf (client h)))) @ [(c, True)] \<and>
    callbacks (out_tmp_buf (client h')) = [Client c']"
proof -
  note small = publish_bytes_size [OF assms(10)]
  obtain u where u: "fold_res (history_step kuint) [Written ec (length part),
      Resolved (redis_host (client h)) (redis_port (client h)) Success it, Connected it Success] h = Inr u"
    "server_bytes u = server_bytes h @ part" "is_connected (client u)" "\<not> busy (client u)"
    "out_buf (client u) = no_requests" "out_tmp_buf (client u) = \<lparr>data = stale, callbacks = []\<rparr>" "in_buf (client u) = []"
    "answers (client u) = answers (client h) @ map (\<lambda>c. (c, False)) (clients (callbacks (out_tmp_buf (client h))))"
    using reconnected [OF assms(1-7)] by blast
  from publish_sent [OF u(3-6) small [OF assms(11,12)], where c = c] obtain v where
    v: "fold_res (history_step kuint) [Publish ch m c, Written Success (length b)] u = Inr v"
    "server_bytes v = server_bytes u @ b" "is_connected (client v)" "busy (client v)"
    "out_buf (client v) = \<lparr>data = stale, callbacks = []\<rparr>" "out_tmp_buf (client v) = \<lparr>data = [], callbacks = [Client c]\<rparr>"
    "Reading \<in> set (pending (client v))" "in_buf (client v) = in_buf (client u)" "answers (client v) = answers (client u)"
    by (auto simp: b_def)
  from reply_frees [OF assms(8,9) v(4) _ _ _ v(7), where kuint = kuint and c = c] v u obtain w where
    w: "fold_res (history_step kuint) [Read Success (l @ [LF])] v = Inr w" "server_bytes w = server_bytes v"
    "is_connected (client w)" "\<not> busy (client w)" "out_buf (client w) = \<lparr>data = stale, callbacks = []\<rparr>"
    "out_tmp_buf (client w) = \<lparr>data = [], callbacks = []\<rparr>" "answers (client w) = answers (client v) @ [(c, True)]"
    by auto
  from publish_sent [OF w(3-6) small [OF assms(13,14)], where c = c'] obtain x where
    x: "fold_res (history_step kuint) [Publish ch' m' c', Written Success (length (stale @ b'))] w = Inr x"
    "server_bytes x = server_bytes w @ stale @ b'" "out_tmp_buf (client x) = \<lparr>data = [], callbacks = [Client c']\<rparr>"
    "answers (client x) = answers (client w)"
    unfolding b'_def by blast
  have "fold_res (history_step kuint)
      ([Written ec (length part), Resolved (redis_host (client h)) (redis_port (client h)) Success it,
       Connected it Success] @ [Publish ch m c, Written Success (length b)] @ [Read Success (l @ [LF])] @
       [Publish ch' m' c', Written Success (length (stale @ b'))]) h = Inr x"
    by (simp only: fold_res_append u(1) v(1) w(1) x(1) and_then.simps)
  moreover have "resp_command (stale @ b') = None" if "stale \<noteq> []" "hd stale \<noteq> CHR ''*''"
    using that by (cases stale) (simp_all add: resp_command_def resp_number_def)
  moreover have "resp_command (stale @ b') = Some ([''PUBLISH'', ch0, m0], rest @ b')"
    if "length ch0 < 2 ^ 32" "length m0 < 2 ^ 32" "stale = publish_bytes kuint ch0 m0 @ rest" for ch0 m0 rest
    using publish_bytes_resp [OF assms(10) that(1,2)] that(3) by simp
  ultimately show ?thesis
    using u v w x publish_bytes_resp [OF assms(10-12)] by (intro exI [of _ x]) (simp add: b_def)
qed

lemma stale_bytes_resent_witness:
  defines "b \<equiv> publish_bytes sample_uint ''foo'' ''{}''"
  defines "h \<equiv> \<lparr>client = (waiting_client [1] [])\<lparr>pending := [Writing], out_tmp_buf := \<lparr>data = b, callbacks = [Client 1]\<rparr>\<rparr>,
    server_bytes = [], requests_made = []\<rparr>"
  shows "\<exists>h'. fold_res (history_step sample_uint)
      [Written (Error_value 32) 4, Resolved [] [] Success [sample_endpoint], Connected [sample_endpoint] Success,
       Publish ''foo'' ''{}'' 2, Written Success (length b), Read Success ('':1'' @ [CR] @ [LF]),
       Publish ''foo'' ''{}'' 3, Written Success (length (drop 4 b @ b))] h = Inr h' \<and>
    server_bytes h' = take 4 b @ b @ drop 4 b @ b \<and> resp_command (drop 4 b @ b) = None \<and>
    answers (client h') = [(1, False), (2, True)]"
proof -
  obtain p st where d: "take 4 b = p" "drop 4 b = st" "st \<noteq> []" "hd st \<noteq> CHR ''*''" "length p = 4" "p @ st = b"
    using append_take_drop_id [of 4 b] by (simp add: b_def publish_bytes_def)
  have f: "data (out_tmp_buf (client h)) = p @ st" "out_buf (client h) = no_requests" "in_buf (client h) = []"
    "busy (client h)" "Writing \<in> set (pending (client h))" "redis_host (client h) = []" "redis_port (client h) = []"
    "callbacks (out_tmp_buf (client h)) = [Client 1]" "answers (client h) = []" "server_bytes h = []"
    by (simp_all add: d(6) h_def waiting_client_def redis_init_def)
  have l: "reply_line ('':1'' @ [CR])" by (simp add: reply_line_def)
  from stale_bytes_resent [OF f(1-5) _ _ l _ sample_prints, of "Error_value 32" "[sample_endpoint]" "''foo''" "''{}''" "''foo''" "''{}''" 2 3]
  show ?thesis unfolding d(1,2) by (fold b_def) (auto simp: f(6-10) d(3-5))
qed

end
