(* ===== verification/Plugin_Api.thy ===== *)
theory Plugin_Api
  imports Ptree
begin

text \<open>
  Plugins as the core sees them (include/plugin): the type tag, the description read from a loaded
  library, and the contract shared by every registry of plugins.
\<close>

datatype plugin_type =
    PLUGIN_TRANSLATOR
  | PLUGIN_DISPATCHER
  | plugin_type_value nat   \<comment> \<open>a value a library returned that is no enumerator\<close>

text \<open>What \<open>create_shared\<close> of a library returns answers these four questions.\<close>

record plugin_interface =
  iface_type :: plugin_type
  iface_uid :: string
  iface_name :: string
  iface_version :: string

record plugin_info =
  info_library :: string
  info_type :: plugin_type
  info_puid :: string
  info_name :: string
  info_version :: string

text \<open>
  What stops the configuration of the program: a library that cannot be loaded, a directory that
  cannot be read, an address that cannot be bound, a settings file that is no JSON, settings
  Boost.Log refuses, a plugin that was never loaded, a port that is no 16-bit number, an assertion,
  a plugin that refuses its settings; and, once connections come, a socket whose peer is gone.
\<close>

datatype config_error =
    Library_failed
  | Directory_failed
  | Bind_failed
  | Json_failed
  | Log_failed
  | Not_loaded string
  | Bad_port
  | Assertion_failed
  | Plugin_refused string
  | Not_connected

text \<open>
  The \<open>plugin_info\<close> constructor opens the library (outside src/: a parameter that gives the
  instance the library creates, or nothing) and copies what the instance says of itself.
\<close>

definition make_plugin_info ::
  "(string \<Rightarrow> plugin_interface option) \<Rightarrow> string \<Rightarrow> config_error + plugin_info" where
  "make_plugin_info open_library path =
     and_then (of_option Library_failed (open_library path)) (\<lambda>i.
       Inr \<lparr>info_library = path, info_type = iface_type i, info_puid = iface_uid i,
            info_name = iface_name i, info_version = iface_version i\<rparr>)"

text \<open>
  A registry: plugins go in with \<open>reg\<close>, come out by uid with \<open>find\<close>, and the first plugin of a uid
  keeps its place.
\<close>

locale registry =
  fixes reg :: "plugin_info \<Rightarrow> 's \<Rightarrow> 's" and lookup :: "'s \<Rightarrow> string \<Rightarrow> plugin_info option"
  assumes lookup_reg: "lookup (reg i s) u = (if u = info_puid i \<and> lookup s u = None then Some i else lookup s u)"
begin

lemma lookup_fold:
  "lookup (fold reg is s) u =
    (case lookup s u of Some i \<Rightarrow> Some i | None \<Rightarrow> List.find (\<lambda>i. info_puid i = u) is)"
proof (induction "is" arbitrary: s)
  case Nil
  then show ?case by (simp split: option.splits)
next
  case (Cons i "is")
  then show ?case by (auto simp: lookup_reg split: option.splits)
qed

lemma lookup_reg_uid:
  assumes "\<forall>u i. lookup s u = Some i \<longrightarrow> info_puid i = u"
  shows "lookup (reg j s) u = Some i \<Longrightarrow> info_puid i = u"
  using assms by (auto simp: lookup_reg split: if_splits)

end

text \<open>
  What the configuration code takes from outside: whether \<open>BOOST_ASSERT\<close> is compiled in, the
  conversion of a node to a 16-bit port, and whether a plugin accepts the settings it is given
  (\<open>load_settings\<close> of the plugin may throw).
\<close>

record config_env =
  asserts_on :: bool
  port_of :: "config \<Rightarrow> 16 word option"
  accepts :: "string \<Rightarrow> config \<Rightarrow> bool"

definition plugin_load_settings :: "config_env \<Rightarrow> string \<Rightarrow> config \<Rightarrow> config_error + unit" where
  "plugin_load_settings C uid settings = (if accepts C uid settings then Inr () else Inl (Plugin_refused uid))"

end
