(* ===== verification/Translator_Manager.thy ===== *)
theory Translator_Manager
  imports Plugin_Api
begin

text \<open>
  src/translator_manager: the loaded translators and the ports they serve. The port table is a
  \<open>flat_multimap\<close>, a list ordered by port in which a new entry goes behind its equals.
\<close>

subsection \<open>Ordered multimaps\<close>

fun multi_emplace :: "'k::linorder \<Rightarrow> 'v \<Rightarrow> ('k \<times> 'v) list \<Rightarrow> ('k \<times> 'v) list" where
  "multi_emplace k v [] = [(k, v)]"
| "multi_emplace k v (e # es) = (if fst e \<le> k then e # multi_emplace k v es else (k, v) # e # es)"

definition multi_range :: "'k::linorder \<Rightarrow> ('k \<times> 'v) list \<Rightarrow> ('k \<times> 'v) list" where
  "multi_range k es = takeWhile (\<lambda>e. fst e \<le> k) (dropWhile (\<lambda>e. fst e < k) es)"

abbreviation multi_sorted :: "('k::linorder \<times> 'v) list \<Rightarrow> bool" where
  "multi_sorted es \<equiv> sorted (map fst es)"

lemma set_multi_emplace: "set (multi_emplace k v es) = insert (k, v) (set es)"
  by (induction es) auto

lemma multi_emplace_sorted: "multi_sorted es \<Longrightarrow> multi_sorted (multi_emplace k v es)"
  by (induction es) (auto simp: set_multi_emplace)

lemma filter_above: "\<forall>x \<in> set es. (k :: 'k::linorder) < fst x \<Longrightarrow> filter (\<lambda>x. fst x = k) es = []"
  by (fastforce simp: filter_empty_conv)

lemma multi_range_filter: "multi_sorted es \<Longrightarrow> multi_range k es = filter (\<lambda>e. fst e = k) es"
proof (induction es)
  case Nil
  then show ?case by (simp add: multi_range_def)
next
  case (Cons e es)
  show ?case
  proof (cases "fst e < k")
    case True
    with Cons show ?thesis by (simp add: multi_range_def)
  next
    case False
    with Cons.prems have "\<forall>x \<in> set es. k \<le> fst x" by auto
    then have "takeWhile (\<lambda>x. fst x \<le> k) es = filter (\<lambda>x. fst x = k) es"
      using Cons.prems
    proof (induction es)
      case (Cons x xs)
      show ?case
      proof (cases "fst x = k")
        case False
        with Cons.prems have "\<forall>y \<in> set (x # xs). k < fst y" by force
        from filter_above [OF this] False Cons.prems show ?thesis by (auto simp: less_le)
      qed (use Cons in simp)
    qed simp
    moreover have "filter (\<lambda>x. fst x = k) es = []" if "fst e \<noteq> k"
      by (rule filter_above) (use False Cons.prems that in force)
    ultimately show ?thesis using False by (auto simp: multi_range_def)
  qed
qed

lemma filter_multi_emplace:
  assumes "multi_sorted es"
  shows "filter (\<lambda>e. fst e = j) (multi_emplace k v es) =
    filter (\<lambda>e. fst e = j) es @ (if j = k then [(k, v)] else [])"
  using assms
proof (induction es)
  case (Cons e es)
  have "filter (\<lambda>x. fst x = k) es = []" if "\<not> fst e \<le> k"
    by (rule filter_above) (use Cons.prems that in force)
  with Cons show ?case by auto
qed simp

lemma map_of_filter_first: "map_of es k = (case filter (\<lambda>e. fst e = k) es of [] \<Rightarrow> None | e # _ \<Rightarrow> Some (snd e))"
  by (induction es) auto

subsection \<open>The manager\<close>

record translator_manager =
  loaded_translators :: "string \<rightharpoonup> plugin_info"
  port_mapping :: "(16 word \<times> string) list"

definition tm_init :: translator_manager where
  "tm_init = \<lparr>loaded_translators = Map.empty, port_mapping = []\<rparr>"

definition tm_add :: "plugin_info \<Rightarrow> translator_manager \<Rightarrow> translator_manager" where
  "tm_add i tm = tm\<lparr>loaded_translators := emplace (info_puid i) i (loaded_translators tm)\<rparr>"

text \<open>\<open>create\<close> calls the constructor of the plugin it finds; the instance is named by its description.\<close>

definition tm_create :: "string \<Rightarrow> translator_manager \<Rightarrow> config_error + plugin_info" where
  "tm_create uid tm = of_option (Not_loaded uid) (loaded_translators tm uid)"

definition map_port :: "16 word \<Rightarrow> string \<Rightarrow> translator_manager \<Rightarrow> bool \<times> translator_manager" where
  "map_port port uid tm =
     (case loaded_translators tm uid of
        None \<Rightarrow> (False, tm)
      | Some p \<Rightarrow>
          if info_type p \<noteq> PLUGIN_TRANSLATOR then (False, tm)
          else if map_of (port_mapping tm) port = Some uid then (False, tm)
          else (True, tm\<lparr>port_mapping := multi_emplace port uid (port_mapping tm)\<rparr>))"

definition list_ports :: "translator_manager \<Rightarrow> (16 word \<times> string) list" where
  "list_ports tm = port_mapping tm"

definition list_port :: "16 word \<Rightarrow> translator_manager \<Rightarrow> (16 word \<times> string) list" where
  "list_port port tm = multi_range port (port_mapping tm)"

text \<open>One entry of the \<open>tcp\<close> array of a translator, then all of them, then all translators.\<close>

definition tm_load_port ::
  "config_env \<Rightarrow> string \<Rightarrow> string \<times> config \<Rightarrow> translator_manager \<Rightarrow> config_error + translator_manager" where
  "tm_load_port C uid arr tm =
     (if asserts_on C \<and> fst arr \<noteq> [] then Inl Assertion_failed
      else and_then (of_option Bad_port (port_of C (snd arr))) (\<lambda>port. Inr (snd (map_port port uid tm))))"

definition tm_load_plugin ::
  "config_env \<Rightarrow> string \<times> config \<Rightarrow> translator_manager \<Rightarrow> config_error + translator_manager" where
  "tm_load_plugin C plugin tm =
     and_then (tm_create (fst plugin) tm) (\<lambda>_.
     and_then (plugin_load_settings C (fst plugin) (snd plugin)) (\<lambda>_.
     fold_res (tm_load_port C (fst plugin))
       (pt_children (get_child_or ''tcp'' (snd plugin) empty_ptree)) tm))"

definition tm_load_settings ::
  "config_env \<Rightarrow> config \<Rightarrow> translator_manager \<Rightarrow> config_error + translator_manager" where
  "tm_load_settings C settings tm = fold_res (tm_load_plugin C) (pt_children settings) tm"

subsection \<open>Its invariant\<close>

interpretation tm_reg: registry tm_add loaded_translators
  by unfold_locales (auto simp: tm_add_def emplace_apply)

text \<open>Ports are ordered, and each is mapped to plugins that are loaded and are translators.\<close>

definition tm_inv :: "translator_manager \<Rightarrow> bool" where
  "tm_inv tm \<longleftrightarrow> multi_sorted (port_mapping tm) \<and>
     (\<forall>(port, uid) \<in> set (port_mapping tm).
        \<exists>i. loaded_translators tm uid = Some i \<and> info_type i = PLUGIN_TRANSLATOR)"

lemma tm_init_inv: "tm_inv tm_init"
  by (simp add: tm_inv_def tm_init_def)

lemma tm_add_inv: "tm_inv tm \<Longrightarrow> tm_inv (tm_add i tm)"
  by (fastforce simp: tm_inv_def tm_add_def emplace_apply)

lemma map_port_inv: "tm_inv tm \<Longrightarrow> tm_inv (snd (map_port port uid tm))"
  by (auto simp: tm_inv_def map_port_def multi_emplace_sorted set_multi_emplace split: option.splits)

lemma map_port_loaded [simp]: "loaded_translators (snd (map_port port uid tm)) = loaded_translators tm"
  by (auto simp: map_port_def split: option.splits)

interpretation tm_ports: machine "tm_load_port C uid" tm_inv for C uid
  by unfold_locales (auto simp: tm_load_port_def res_simps map_port_inv split: if_splits)

interpretation tm_plugins: machine "tm_load_plugin C" tm_inv for C
  by unfold_locales (auto simp: tm_load_plugin_def res_simps intro: tm_ports.run_inv)

lemma list_port_filter: "tm_inv tm \<Longrightarrow> list_port port tm = filter (\<lambda>e. fst e = port) (port_mapping tm)"
  by (simp add: list_port_def tm_inv_def multi_range_filter)

lemma map_port_True:
  "fst (map_port port uid tm) \<longleftrightarrow>
    (\<exists>i. loaded_translators tm uid = Some i \<and> info_type i = PLUGIN_TRANSLATOR) \<and>
    map_of (port_mapping tm) port \<noteq> Some uid"
  by (auto simp: map_port_def split: option.splits)

lemma map_port_list:
  assumes "tm_inv tm"
  shows "list_port q (snd (map_port port uid tm)) =
    list_port q tm @ (if fst (map_port port uid tm) \<and> q = port then [(port, uid)] else [])"
  using map_port_inv [OF assms, of port uid] assms
  by (auto simp: list_port_filter tm_inv_def map_port_def filter_multi_emplace split: option.splits if_splits)

end
