(* ===== verification/Request_Router.thy ===== *)
theory Request_Router
  imports Plugin_Api "HOL-Library.Multiset"
begin

text \<open>
  src/request_router: the combiner that joins the answers of several dispatchers, the loaded
  dispatchers and their instances, the routing table from a port and a translator to dispatchers,
  and the fan-out of a data tree. Work posted to the \<open>io_service\<close> is a queue of tasks. A shared
  vector of a route is written only while settings are loaded, before any connection has a copy of
  the pointer, so it is a plain list here.
\<close>

subsection \<open>The combiner\<close>

text \<open>
  Shared copies of one combiner: \<open>combine\<close> stores a result as long as the stored one is still
  the initial \<open>true\<close> (one compare-exchange), and the destructor, run when the last copy goes,
  calls the callback. What happens to the copies on any threads is a sequence of operations.
  \<open>fired\<close> lists the calls of the callback.
\<close>

record 'c combiner =
  comb_callback :: 'c
  comb_result :: bool
  comb_copies :: nat
  fired :: "bool list"

datatype combiner_op = Copy | Call bool | Release

datatype combiner_fault = Destroyed

definition combiner_new :: "'c \<Rightarrow> 'c combiner" where
  "combiner_new cb = \<lparr>comb_callback = cb, comb_result = True, comb_copies = 1, fired = []\<rparr>"

definition combine :: "bool \<Rightarrow> 'c combiner \<Rightarrow> 'c combiner" where
  "combine result c = (if comb_result c = True then c\<lparr>comb_result := result\<rparr> else c)"

definition combiner_destroy :: "'c combiner \<Rightarrow> 'c combiner" where
  "combiner_destroy c = c\<lparr>fired := fired c @ [comb_result c]\<rparr>"

definition combiner_step :: "combiner_op \<Rightarrow> 'c combiner \<Rightarrow> combiner_fault + 'c combiner" where
  "combiner_step op c =
     (if comb_copies c = 0 then Inl Destroyed
      else case op of
        Copy \<Rightarrow> Inr (c\<lparr>comb_copies := comb_copies c + 1\<rparr>)
      | Call b \<Rightarrow> Inr (combine b c)
      | Release \<Rightarrow>
          (let c' = c\<lparr>comb_copies := comb_copies c - 1\<rparr> in
           Inr (if comb_copies c' = 0 then combiner_destroy c' else c')))"

abbreviation combiner_run :: "combiner_op list \<Rightarrow> 'c combiner \<Rightarrow> combiner_fault + 'c combiner" where
  "combiner_run \<equiv> fold_res combiner_step"

text \<open>A combiner whose stored result is \<open>r\<close>: it has fired exactly when no copy is left.\<close>

definition combiner_ok :: "'c combiner \<Rightarrow> bool" where
  "combiner_ok c \<longleftrightarrow> fired c = (if comb_copies c = 0 then [comb_result c] else [])"

interpretation comb: machine combiner_step combiner_ok
  by unfold_locales
    (auto simp: combiner_step_def combiner_ok_def combine_def combiner_destroy_def Let_def
      split: if_splits combiner_op.splits)

lemma combiner_new_ok: "combiner_ok (combiner_new cb)"
  by (simp add: combiner_ok_def combiner_new_def)

lemma combiner_run_fields:
  assumes "combiner_run ops c = Inr d"
  shows "comb_result d \<longleftrightarrow> comb_result c \<and> Call False \<notin> set ops"
    and "comb_copies d + count (mset ops) Release = comb_copies c + count (mset ops) Copy"
    and "comb_callback d = comb_callback c"
  using assms
  by (induction ops arbitrary: c)
    (auto simp: res_simps combiner_step_def combine_def combiner_destroy_def Let_def
      split: if_splits combiner_op.splits)

lemma combiner_run_live:
  assumes "count (mset ops) Release < comb_copies c"
  shows "\<exists>d. combiner_run ops c = Inr d"
  using assms
  by (induction ops arbitrary: c)
    (auto simp: combiner_step_def combine_def combiner_destroy_def Let_def split: combiner_op.splits)

text \<open>Ending in the release of the last copy: the operations before it all find the combiner alive.\<close>

lemma combiner_run_last:
  assumes "combiner_ok c" and "count (mset ops) Copy = 0"
    and "count (mset ops) Release + 1 = comb_copies c"
  shows "\<exists>d. combiner_run (ops @ [Release]) c = Inr d \<and> comb_copies d = 0 \<and>
    comb_callback d = comb_callback c \<and> fired d = [comb_result c \<and> Call False \<notin> set ops]"
proof -
  obtain u where u: "combiner_run ops c = Inr u" using combiner_run_live [of ops c] assms(3) by auto
  with combiner_run_fields(2) [OF u] assms(2,3) have "comb_copies u = 1" by simp
  moreover from comb.run_inv [OF assms(1) u] have "combiner_ok u" .
  ultimately show ?thesis
    using u combiner_run_fields(1,3) [OF u]
    by (auto simp: fold_res_append combiner_step_def combiner_destroy_def combiner_ok_def Let_def)
qed

subsection \<open>State\<close>

text \<open>An instance of a dispatcher plugin: its description, and its number among the instances made.\<close>

record dispatcher =
  disp_info :: plugin_info
  disp_id :: nat

type_synonym route_key = "16 word \<times> string"

record request_router =
  loaded_dispatchers :: "string \<rightharpoonup> plugin_info"
  dispatchers :: "string \<rightharpoonup> dispatcher"
  routes :: "route_key \<rightharpoonup> dispatcher list"
  instances :: nat

definition rr_init :: request_router where
  "rr_init = \<lparr>loaded_dispatchers = Map.empty, dispatchers = Map.empty, routes = Map.empty, instances = 0\<rparr>"

definition rr_add :: "plugin_info \<Rightarrow> request_router \<Rightarrow> request_router" where
  "rr_add i rr = rr\<lparr>loaded_dispatchers := emplace (info_puid i) i (loaded_dispatchers rr)\<rparr>"

definition rr_create :: "string \<Rightarrow> request_router \<Rightarrow> config_error + (dispatcher \<times> request_router)" where
  "rr_create uid rr =
     (case loaded_dispatchers rr uid of
        Some i \<Rightarrow> Inr (\<lparr>disp_info = i, disp_id = instances rr\<rparr>, rr\<lparr>instances := instances rr + 1\<rparr>)
      | None \<Rightarrow> Inl (Not_loaded uid))"

interpretation rr_reg: registry rr_add loaded_dispatchers
  by unfold_locales (auto simp: rr_add_def emplace_apply)

text \<open>The callback of \<open>authenticate\<close> runs before it returns, with \<open>ok\<close>.\<close>

definition rr_authenticate :: "string \<Rightarrow> string \<Rightarrow> string \<Rightarrow> bool option" where
  "rr_authenticate address login password = (let ok = True in Some ok)"

subsection \<open>Fan-out\<close>

datatype 'c data_callback = Direct 'c | Combined nat

datatype ('t, 'c) task =
    Handle_data dispatcher 't "'c data_callback"
  | Callback_false 'c

record ('t, 'c) router_io =
  posted :: "('t, 'c) task list"
  combiners :: "'c combiner list"

definition post :: "('t, 'c) task \<Rightarrow> ('t, 'c) router_io \<Rightarrow> ('t, 'c) router_io" where
  "post t io = io\<lparr>posted := posted io @ [t]\<rparr>"

text \<open>
  \<open>process_data\<close>: with several targets, one combiner; the function holds two copies of it (\<open>comb\<close>
  and \<open>comb_cb\<close>), every task one, and the two go when it returns.
\<close>

definition combiner_for :: "nat \<Rightarrow> 'c \<Rightarrow> combiner_fault + 'c combiner" where
  "combiner_for n callback = combiner_run ([Copy] @ replicate n Copy @ [Release, Release]) (combiner_new callback)"

definition rr_process_data ::
  "dispatcher list \<Rightarrow> 't \<Rightarrow> 'c \<Rightarrow> ('t, 'c) router_io \<Rightarrow> combiner_fault + ('t, 'c) router_io" where
  "rr_process_data targets tree callback io =
     (let n = length targets in
      if n > 1 then
        and_then (combiner_for n callback) (\<lambda>comb.
        Inr (fold (\<lambda>target. post (Handle_data target tree (Combined (length (combiners io))))) targets
               (io\<lparr>combiners := combiners io @ [comb]\<rparr>)))
      else if n > 0 then Inr (post (Handle_data (hd targets) tree (Direct callback)) io)
      else Inr (post (Callback_false callback) io))"

definition helper_callback_false :: "'c \<Rightarrow> ('t, 'c) router_io \<Rightarrow> ('t, 'c) router_io" where
  "helper_callback_false callback io = post (Callback_false callback) io"

text \<open>What \<open>setup_connection_routes\<close> binds to \<open>process_data\<close> of a connection.\<close>

datatype process_data_fn = Routed "dispatcher list" | No_route

definition setup_connection_routes :: "string \<Rightarrow> 16 word \<Rightarrow> request_router \<Rightarrow> process_data_fn" where
  "setup_connection_routes uid port rr =
     (case routes rr (port, uid) of Some targets \<Rightarrow> Routed targets | None \<Rightarrow> No_route)"

definition api_process_data ::
  "process_data_fn \<Rightarrow> 't \<Rightarrow> 'c \<Rightarrow> ('t, 'c) router_io \<Rightarrow> combiner_fault + ('t, 'c) router_io" where
  "api_process_data fn tree callback io =
     (case fn of
        Routed targets \<Rightarrow> rr_process_data targets tree callback io
      | No_route \<Rightarrow> Inr (helper_callback_false callback io))"

lemma post_posted [simp]: "posted (post t io) = posted io @ [t]" "combiners (post t io) = combiners io"
  by (simp_all add: post_def)

lemma fold_post [simp]:
  "posted (fold (\<lambda>x. post (f x)) xs io) = posted io @ map f xs"
  "combiners (fold (\<lambda>x. post (f x)) xs io) = combiners io"
  by (induction xs arbitrary: io) auto

lemma combiner_copies:
  "0 < comb_copies c \<Longrightarrow> combiner_run (replicate n Copy) c = Inr (c\<lparr>comb_copies := comb_copies c + n\<rparr>)"
  by (induction n arbitrary: c) (auto simp: combiner_step_def)

lemma combiner_for_eq:
  assumes "0 < n"
  shows "combiner_for n cb = Inr \<lparr>comb_callback = cb, comb_result = True, comb_copies = n, fired = []\<rparr>"
  using assms unfolding combiner_for_def fold_res_append
  by (auto simp: combiner_new_def combiner_step_def combiner_copies Let_def)

lemma rr_process_data_posted:
  "\<exists>io'. rr_process_data targets tree cb io = Inr io' \<and>
     posted io' = posted io @
       (if targets = [] then [Callback_false cb]
        else map (\<lambda>d. Handle_data d tree
               (if length targets = 1 then Direct cb else Combined (length (combiners io)))) targets) \<and>
     combiners io' = combiners io @ (if 1 < length targets
       then [\<lparr>comb_callback = cb, comb_result = True, comb_copies = length targets, fired = []\<rparr>] else [])"
  by (cases targets; cases "tl targets") (auto simp: rr_process_data_def Let_def combiner_for_eq)

subsection \<open>Settings\<close>

text \<open>
  One entry of a \<open>tcp\<close> array: the iterator \<open>it\<close> kept from the previous entry (the key it points at,
  \<open>None\<close> for \<open>end()\<close>) is looked up again only when it does not point at the key.
\<close>

definition find_route :: "route_key \<Rightarrow> request_router \<Rightarrow> route_key option" where
  "find_route key rr = (if routes rr key = None then None else Some key)"

definition rr_add_route ::
  "dispatcher \<Rightarrow> route_key \<Rightarrow> route_key option \<times> request_router \<Rightarrow> route_key option \<times> request_router" where
  "rr_add_route d key st = (case st of (it, rr) \<Rightarrow>
     (let it1 = (if it = None \<or> it \<noteq> Some key then find_route key rr else it) in
      case it1 of
        None \<Rightarrow> (Some key, rr\<lparr>routes := (routes rr)(key \<mapsto> [d])\<rparr>)
      | Some k \<Rightarrow> (it1, rr\<lparr>routes := (routes rr)(k := map_option (\<lambda>v. v @ [d]) (routes rr k))\<rparr>)))"

definition rr_load_arr ::
  "config_env \<Rightarrow> dispatcher \<Rightarrow> string \<Rightarrow> string \<times> config \<Rightarrow> route_key option \<times> request_router \<Rightarrow>
   config_error + (route_key option \<times> request_router)" where
  "rr_load_arr C d uid arr st =
     and_then (of_option Bad_port (port_of C (snd arr))) (\<lambda>port. Inr (rr_add_route d (port, uid) st))"

definition rr_load_source ::
  "config_env \<Rightarrow> dispatcher \<Rightarrow> string \<times> config \<Rightarrow> route_key option \<times> request_router \<Rightarrow>
   config_error + (route_key option \<times> request_router)" where
  "rr_load_source C d translator st =
     fold_res (rr_load_arr C d (fst translator))
       (pt_children (get_child_or ''tcp'' (snd translator) empty_ptree)) st"

definition rr_load_dispatcher ::
  "config_env \<Rightarrow> string \<times> config \<Rightarrow> request_router \<Rightarrow> config_error + request_router" where
  "rr_load_dispatcher C section rr =
     and_then (rr_create (fst section) rr) (\<lambda>(d, rr1).
     and_then (plugin_load_settings C (fst section) (snd section)) (\<lambda>_.
     (let rr2 = rr1\<lparr>dispatchers := emplace (fst section) d (dispatchers rr1)\<rparr> in
      and_then
        (fold_res (rr_load_source C d)
          (pt_children (get_child_or ''source'' (snd section) empty_ptree)) (None, rr2))
        (\<lambda>(it, rr3). Inr rr3))))"

definition rr_load_settings :: "config_env \<Rightarrow> config \<Rightarrow> request_router \<Rightarrow> config_error + request_router" where
  "rr_load_settings C settings rr = fold_res (rr_load_dispatcher C) (pt_children settings) rr"

end
