(* ===== verification/Routes.thy ===== *)
theory Routes
  imports Request_Router
begin

text \<open>
  The routing table against its specification: the routes a settings tree declares, in order, as a
  list of pairs of a key and a dispatcher instance.
\<close>

subsection \<open>Abstract routes\<close>

definition targets :: "request_router \<Rightarrow> route_key \<Rightarrow> dispatcher list" where
  "targets rr key = (case routes rr key of None \<Rightarrow> [] | Some v \<Rightarrow> v)"

definition add_route :: "dispatcher \<Rightarrow> route_key \<Rightarrow> request_router \<Rightarrow> request_router" where
  "add_route d key rr = rr\<lparr>routes := (routes rr)(key \<mapsto> targets rr key @ [d])\<rparr>"

text \<open>A cached iterator that points at an entry, or at the end.\<close>

definition it_ok :: "route_key option \<Rightarrow> request_router \<Rightarrow> bool" where
  "it_ok it rr \<longleftrightarrow> (case it of None \<Rightarrow> True | Some k \<Rightarrow> routes rr k \<noteq> None)"

lemma it_ok_None [simp]: "it_ok None rr"
  by (simp add: it_ok_def)

lemma rr_add_route_plain: "it_ok it rr \<Longrightarrow> rr_add_route d key (it, rr) = (Some key, add_route d key rr)"
  by (auto simp: rr_add_route_def add_route_def find_route_def targets_def it_ok_def Let_def
      split: option.splits)

lemma add_route_simps [simp]:
  "targets (add_route d key rr) k = targets rr k @ (if k = key then [d] else [])"
  "it_ok (Some key) (add_route d key rr)"
  "loaded_dispatchers (add_route d key rr) = loaded_dispatchers rr"
  "dispatchers (add_route d key rr) = dispatchers rr"
  "instances (add_route d key rr) = instances rr"
  by (auto simp: add_route_def targets_def it_ok_def)

text \<open>The keys of a route are its ports, in order, under the name of the translator.\<close>

definition tcp_ports :: "config \<Rightarrow> config list" where
  "tcp_ports t = map snd (pt_children (get_child_or ''tcp'' t empty_ptree))"

definition translator_keys :: "config_env \<Rightarrow> string \<times> config \<Rightarrow> route_key list" where
  "translator_keys C translator =
     List.map_filter (\<lambda>a. map_option (\<lambda>port. (port, fst translator)) (port_of C a)) (tcp_ports (snd translator))"

definition section_sources :: "config \<Rightarrow> (string \<times> config) list" where
  "section_sources section = pt_children (get_child_or ''source'' section empty_ptree)"

definition section_keys :: "config_env \<Rightarrow> config \<Rightarrow> route_key list" where
  "section_keys C section = concat (map (translator_keys C) (section_sources section))"

fun declared_routes ::
  "config_env \<Rightarrow> (string \<rightharpoonup> plugin_info) \<Rightarrow> nat \<Rightarrow> (string \<times> config) list \<Rightarrow> (route_key \<times> dispatcher) list" where
  "declared_routes C loaded n [] = []"
| "declared_routes C loaded n (section # sections) =
     (case loaded (fst section) of
        None \<Rightarrow> []
      | Some i \<Rightarrow> map (\<lambda>k. (k, \<lparr>disp_info = i, disp_id = n\<rparr>)) (section_keys C (snd section))) @
     declared_routes C loaded (Suc n) sections"

definition declared_targets ::
  "config_env \<Rightarrow> (string \<rightharpoonup> plugin_info) \<Rightarrow> config \<Rightarrow> route_key \<Rightarrow> dispatcher list" where
  "declared_targets C loaded settings key =
     map snd (filter (\<lambda>r. fst r = key) (declared_routes C loaded 0 (pt_children settings)))"

text \<open>Settings that load: every port is a port, every dispatcher is loaded and takes its settings.\<close>

definition all_ports :: "config_env \<Rightarrow> config list \<Rightarrow> bool" where
  "all_ports C as \<longleftrightarrow> (\<forall>a \<in> set as. port_of C a \<noteq> None)"

lemma all_ports_simps [simp]:
  "all_ports C []"
  "all_ports C (a # as) \<longleftrightarrow> port_of C a \<noteq> None \<and> all_ports C as"
  by (simp_all add: all_ports_def)

definition ports_ok :: "config_env \<Rightarrow> config \<Rightarrow> bool" where
  "ports_ok C section \<longleftrightarrow>
     (\<forall>t \<in> set (section_sources section). all_ports C (tcp_ports (snd t)))"

definition section_ok :: "config_env \<Rightarrow> (string \<rightharpoonup> plugin_info) \<Rightarrow> string \<times> config \<Rightarrow> bool" where
  "section_ok C loaded section \<longleftrightarrow> loaded (fst section) \<noteq> None \<and>
     accepts C (fst section) (snd section) \<and> ports_ok C (snd section)"

subsection \<open>Loading a section\<close>

abbreviation add_routes :: "dispatcher \<Rightarrow> route_key list \<Rightarrow> request_router \<Rightarrow> request_router" where
  "add_routes d keys rr \<equiv> fold (add_route d) keys rr"

definition last_key :: "'k option \<Rightarrow> 'k list \<Rightarrow> 'k option" where
  "last_key it keys = (if keys = [] then it else Some (last keys))"

lemma last_key_simps [simp]:
  "last_key it [] = it"
  "last_key (Some k) keys = last_key it (k # keys)"
  "last_key (last_key it keys) keys' = last_key it (keys @ keys')"
  by (auto simp: last_key_def)

lemma add_routes_simps [simp]:
  "targets (add_routes d keys rr) k = targets rr k @ map (\<lambda>_. d) (filter (\<lambda>j. j = k) keys)"
  "loaded_dispatchers (add_routes d keys rr) = loaded_dispatchers rr"
  "instances (add_routes d keys rr) = instances rr"
  by (induction keys arbitrary: rr) auto

lemma it_ok_add_routes [simp]:
  "it_ok it rr \<Longrightarrow> it_ok (last_key it keys) (add_routes d keys rr)"
  by (cases keys rule: rev_cases) (auto simp: last_key_def)

lemma map_filter_Cons:
  "List.map_filter f (x # xs) = (case f x of None \<Rightarrow> [] | Some y \<Rightarrow> [y]) @ List.map_filter f xs"
  by (simp add: List.map_filter_def split: option.splits)

lemma load_arrs:
  assumes "it_ok it rr"
  shows "fold_res (rr_load_arr C d uid) arrs (it, rr) =
    (if \<not> all_ports C (map snd arrs) then Inl Bad_port
     else let keys = List.map_filter (\<lambda>a. map_option (\<lambda>port. (port, uid)) (port_of C a)) (map snd arrs) in
       Inr (last_key it keys, add_routes d keys rr))"
  using assms
proof (induction arrs arbitrary: it rr)
  case Nil
  then show ?case by (simp add: List.map_filter_def)
next
  case (Cons a arrs)
  show ?case
  proof (cases "port_of C (snd a)")
    case None
    then show ?thesis by (simp add: rr_load_arr_def)
  next
    case (Some port)
    with Cons have "fold_res (rr_load_arr C d uid) (a # arrs) (it, rr) =
        fold_res (rr_load_arr C d uid) arrs (Some (port, uid), add_route d (port, uid) rr)"
      by (simp add: rr_load_arr_def rr_add_route_plain)
    then show ?thesis using Some by (auto simp: Cons.IH Let_def map_filter_Cons)
  qed
qed

lemma load_source:
  assumes "it_ok it rr"
  shows "rr_load_source C d t (it, rr) =
    (if \<not> all_ports C (tcp_ports (snd t)) then Inl Bad_port
     else Inr (last_key it (translator_keys C t), add_routes d (translator_keys C t) rr))"
  using load_arrs [OF assms, of C d "fst t" "pt_children (get_child_or ''tcp'' (snd t) empty_ptree)"]
  by (simp add: rr_load_source_def translator_keys_def tcp_ports_def Let_def)

lemma load_sources:
  assumes "it_ok it rr"
  shows "fold_res (rr_load_source C d) ts (it, rr) =
    (if \<not> (\<forall>t \<in> set ts. all_ports C (tcp_ports (snd t))) then Inl Bad_port
     else let keys = concat (map (translator_keys C) ts) in Inr (last_key it keys, add_routes d keys rr))"
  using assms
proof (induction ts arbitrary: it rr)
  case Nil
  then show ?case by simp
next
  case (Cons t ts)
  show ?case
  proof (cases "all_ports C (tcp_ports (snd t))")
    case False
    with Cons.prems show ?thesis by (simp add: load_source)
  next
    case True
    with Cons.prems have "fold_res (rr_load_source C d) (t # ts) (it, rr) =
        fold_res (rr_load_source C d) ts (last_key it (translator_keys C t), add_routes d (translator_keys C t) rr)"
      by (simp add: load_source)
    with True Cons.IH [OF it_ok_add_routes [OF Cons.prems], of "translator_keys C t" d] show ?thesis
      by (simp add: load_source Cons.prems Let_def)
  qed
qed

lemma load_dispatcher:
  "rr_load_dispatcher C section rr =
    (case loaded_dispatchers rr (fst section) of
       None \<Rightarrow> Inl (Not_loaded (fst section))
     | Some i \<Rightarrow>
         if \<not> accepts C (fst section) (snd section) then Inl (Plugin_refused (fst section))
         else if \<not> ports_ok C (snd section) then Inl Bad_port
         else (let d = \<lparr>disp_info = i, disp_id = instances rr\<rparr> in
           Inr (add_routes d (section_keys C (snd section))
             (rr\<lparr>instances := instances rr + 1,
                 dispatchers := emplace (fst section) d (dispatchers rr)\<rparr>))))"
  by (auto simp: rr_load_dispatcher_def rr_create_def plugin_load_settings_def load_sources
      section_sources_def [symmetric] ports_ok_def section_keys_def Let_def split: option.splits)

lemma load_dispatcher_fields:
  assumes "rr_load_dispatcher C section rr = Inr rr'"
  shows "loaded_dispatchers rr' = loaded_dispatchers rr" and "instances rr' = Suc (instances rr)"
    and "section_ok C (loaded_dispatchers rr) section"
    and "targets rr' key = targets rr key @
      map snd (filter (\<lambda>r. fst r = key) (declared_routes C (loaded_dispatchers rr) (instances rr) [section]))"
proof -
  have keep: "targets (rr\<lparr>instances := n, dispatchers := m\<rparr>) k = targets rr k" for n m k
    by (simp add: targets_def)
  show "loaded_dispatchers rr' = loaded_dispatchers rr" "instances rr' = Suc (instances rr)"
    "section_ok C (loaded_dispatchers rr) section"
    "targets rr' key = targets rr key @
      map snd (filter (\<lambda>r. fst r = key) (declared_routes C (loaded_dispatchers rr) (instances rr) [section]))"
    using assms
    by (auto simp: load_dispatcher Let_def section_ok_def keep filter_map comp_def
        split: option.splits if_splits)
qed

lemma declared_routes_Cons:
  "declared_routes C l n (s # ss) = declared_routes C l n [s] @ declared_routes C l (Suc n) ss"
  by simp

lemma load_sections:
  assumes "fold_res (rr_load_dispatcher C) sections rr = Inr rr'"
  shows "targets rr' key = targets rr key @
      map snd (filter (\<lambda>r. fst r = key) (declared_routes C (loaded_dispatchers rr) (instances rr) sections))"
    and "loaded_dispatchers rr' = loaded_dispatchers rr"
    and "instances rr' = instances rr + length sections"
  using assms
proof (induction sections arbitrary: rr)
  case (Cons s ss)
  {
    case 1
    then obtain u where u: "rr_load_dispatcher C s rr = Inr u" "fold_res (rr_load_dispatcher C) ss u = Inr rr'"
      by (auto simp: res_simps)
    from Cons.IH(1) [OF u(2)] load_dispatcher_fields [OF u(1)] show ?case
      by (subst declared_routes_Cons) (simp del: declared_routes.simps)
  next
    case 2
    then obtain u where u: "rr_load_dispatcher C s rr = Inr u" "fold_res (rr_load_dispatcher C) ss u = Inr rr'"
      by (auto simp: res_simps)
    from Cons.IH(2) [OF u(2)] load_dispatcher_fields [OF u(1)] show ?case by simp
  next
    case 3
    then obtain u where u: "rr_load_dispatcher C s rr = Inr u" "fold_res (rr_load_dispatcher C) ss u = Inr rr'"
      by (auto simp: res_simps)
    from Cons.IH(3) [OF u(2)] load_dispatcher_fields [OF u(1)] show ?case by simp
  }
qed simp_all

lemma load_sections_iff:
  "\<not> isl (fold_res (rr_load_dispatcher C) sections rr) \<longleftrightarrow>
    (\<forall>s \<in> set sections. section_ok C (loaded_dispatchers rr) s)"
proof (induction sections arbitrary: rr)
  case (Cons s ss)
  have iff: "\<not> isl (rr_load_dispatcher C s rr) \<longleftrightarrow> section_ok C (loaded_dispatchers rr) s"
    by (auto simp: load_dispatcher section_ok_def Let_def split: option.splits)
  show ?case
  proof (cases "rr_load_dispatcher C s rr")
    case (Inl e)
    with iff show ?thesis by simp
  next
    case (Inr u)
    with load_dispatcher_fields(1) [OF Inr] Cons [of u] iff show ?thesis by simp
  qed
qed simp

lemma load_settings_targets:
  assumes "rr_load_settings C settings rr = Inr rr'" and "routes rr = Map.empty" and "instances rr = 0"
  shows "targets rr' key = declared_targets C (loaded_dispatchers rr) settings key"
  using load_sections(1) [OF assms(1) [unfolded rr_load_settings_def], of key] assms(2,3)
  by (simp add: targets_def declared_targets_def)

text \<open>No route is ever an empty vector.\<close>

lemma add_routes_nonempty: "(\<forall>k. routes rr k \<noteq> Some []) \<Longrightarrow> routes (add_routes d keys rr) j \<noteq> Some []"
proof (induction keys arbitrary: rr)
  case Nil
  then show ?case by (simp del: split_paired_All)
next
  case (Cons k keys)
  have "\<forall>j. routes (add_route d k rr) j \<noteq> Some []" using Cons.prems by (simp add: add_route_def)
  then show ?case using Cons.IH by simp
qed

definition routes_nonempty :: "request_router \<Rightarrow> bool" where
  "routes_nonempty rr \<longleftrightarrow> (\<forall>k. routes rr k \<noteq> Some [])"

lemma load_dispatcher_nonempty:
  assumes "routes_nonempty rr" and "rr_load_dispatcher C section rr = Inr rr'"
  shows "routes_nonempty rr'"
  using assms add_routes_nonempty [of "rr\<lparr>instances := n, dispatchers := m\<rparr>" for n m]
  by (fastforce simp: load_dispatcher Let_def routes_nonempty_def split: option.splits if_splits)

interpretation rr_sections: machine "rr_load_dispatcher C" routes_nonempty for C
  by unfold_locales (rule load_dispatcher_nonempty)

end
