(* ===== verification/Plugin_Factory.thy ===== *)
theory Plugin_Factory
  imports Translator_Manager Routes
begin

text \<open>
  src/plugin_factory: plugins found in directories are opened, and each goes, under its uid, to the
  translator manager or to the request router. The file system and the dynamic loader are the
  record \<open>fs_env\<close>.
\<close>

record fs_env =
  list_dir :: "string \<Rightarrow> string list option"   \<comment> \<open>\<open>directory_iterator\<close>; \<open>None\<close> when it throws\<close>
  extension :: "string \<Rightarrow> string"
  lib_suffix :: string
  open_library :: "string \<Rightarrow> plugin_interface option"
  is_absolute :: "string \<Rightarrow> bool"
  current_path :: string
  path_join :: "string \<Rightarrow> string \<Rightarrow> string"

record plugin_factory =
  translators :: translator_manager
  router :: request_router
  plugins :: "string \<rightharpoonup> plugin_info"

definition pf_init :: plugin_factory where
  "pf_init = \<lparr>translators = tm_init, router = rr_init, plugins = Map.empty\<rparr>"

text \<open>ASCII \<open>boost::algorithm::to_lower\<close>.\<close>

definition to_lower :: "char \<Rightarrow> char" where
  "to_lower c = (if 65 \<le> (of_char c :: nat) \<and> (of_char c :: nat) \<le> 90
     then char_of (of_char c + 32 :: nat) else c)"

subsection \<open>Loading\<close>

text \<open>What \<open>load\<close> does with the description of the plugin it opened.\<close>

definition pf_register :: "plugin_info \<Rightarrow> plugin_factory \<Rightarrow> plugin_factory" where
  "pf_register i pf =
     (case plugins pf (info_puid i) of
        Some _ \<Rightarrow> pf
      | None \<Rightarrow>
          (case info_type i of
             PLUGIN_TRANSLATOR \<Rightarrow>
               pf\<lparr>translators := tm_add i (translators pf), plugins := emplace (info_puid i) i (plugins pf)\<rparr>
           | PLUGIN_DISPATCHER \<Rightarrow>
               pf\<lparr>router := rr_add i (router pf), plugins := emplace (info_puid i) i (plugins pf)\<rparr>
           | plugin_type_value _ \<Rightarrow> pf))"

definition pf_load :: "fs_env \<Rightarrow> string \<Rightarrow> plugin_factory \<Rightarrow> config_error + plugin_factory" where
  "pf_load F path_name pf =
     and_then (make_plugin_info (open_library F) path_name) (\<lambda>i. Inr (pf_register i pf))"

definition pf_load_file :: "fs_env \<Rightarrow> string \<Rightarrow> plugin_factory \<Rightarrow> config_error + plugin_factory" where
  "pf_load_file F path_name pf =
     (if lib_suffix F = map to_lower (extension F path_name) then pf_load F path_name pf else Inr pf)"

definition pf_load_dir :: "fs_env \<Rightarrow> string \<Rightarrow> plugin_factory \<Rightarrow> config_error + plugin_factory" where
  "pf_load_dir F path_dir pf =
     and_then (of_option Directory_failed (list_dir F path_dir)) (\<lambda>files.
       fold_res (pf_load_file F) files pf)"

definition pf_create :: "string \<Rightarrow> plugin_factory \<Rightarrow> config_error + plugin_info" where
  "pf_create uid pf = of_option (Not_loaded uid) (plugins pf uid)"

definition plugin_dir :: "fs_env \<Rightarrow> string \<Rightarrow> string" where
  "plugin_dir F path = (if is_absolute F path then path else path_join F (current_path F) path)"

definition pf_load_paths :: "fs_env \<Rightarrow> config \<Rightarrow> plugin_factory \<Rightarrow> config_error + plugin_factory" where
  "pf_load_paths F settings pf =
     (case get_child (split_path ''path'') settings of
        Some path \<Rightarrow> fold_res (\<lambda>v. pf_load_dir F (plugin_dir F (pt_data (snd v)))) (pt_children path) pf
      | None \<Rightarrow> pf_load_dir F (current_path F) pf)"

definition pf_load_settings ::
  "config_env \<Rightarrow> fs_env \<Rightarrow> config \<Rightarrow> plugin_factory \<Rightarrow> config_error + plugin_factory" where
  "pf_load_settings C F settings pf =
     and_then (pf_load_paths F settings pf) (\<lambda>pf1.
     and_then (tm_load_settings C (get_child_or ''translator'' settings empty_ptree) (translators pf1)) (\<lambda>t.
     (let pf2 = pf1\<lparr>translators := t\<rparr> in
      and_then (rr_load_settings C (get_child_or ''dispatcher'' settings empty_ptree) (router pf2)) (\<lambda>r.
      Inr (pf2\<lparr>router := r\<rparr>)))))"

subsection \<open>Which plugins are loaded\<close>

definition known_type :: "plugin_info \<Rightarrow> bool" where
  "known_type i \<longleftrightarrow> info_type i = PLUGIN_TRANSLATOR \<or> info_type i = PLUGIN_DISPATCHER"

text \<open>The libraries the settings name, in the order of the scan: directories, then their files.\<close>

definition dir_libraries :: "fs_env \<Rightarrow> string \<Rightarrow> string list" where
  "dir_libraries F dir =
     (case list_dir F dir of None \<Rightarrow> []
      | Some files \<Rightarrow> filter (\<lambda>p. lib_suffix F = map to_lower (extension F p)) files)"

definition plugin_dirs :: "fs_env \<Rightarrow> config \<Rightarrow> string list" where
  "plugin_dirs F settings =
     (case get_child (split_path ''path'') settings of
        Some path \<Rightarrow> map (\<lambda>v. plugin_dir F (pt_data (snd v))) (pt_children path)
      | None \<Rightarrow> [current_path F])"

definition scanned_plugins :: "fs_env \<Rightarrow> config \<Rightarrow> plugin_info list" where
  "scanned_plugins F settings =
     List.map_filter (\<lambda>p. case make_plugin_info (open_library F) p of Inl _ \<Rightarrow> None | Inr i \<Rightarrow> Some i)
       (concat (map (dir_libraries F) (plugin_dirs F settings)))"

abbreviation info_of :: "fs_env \<Rightarrow> string \<Rightarrow> plugin_info option" where
  "info_of F p \<equiv> (case make_plugin_info (open_library F) p of Inl _ \<Rightarrow> None | Inr i \<Rightarrow> Some i)"

lemma pf_load_register:
  "pf_load F p pf = Inr pf' \<longleftrightarrow> (\<exists>i. info_of F p = Some i \<and> pf' = pf_register i pf)"
  by (auto simp: pf_load_def res_simps split: sum.splits)

lemma map_filter_append: "List.map_filter f (xs @ ys) = List.map_filter f xs @ List.map_filter f ys"
  by (simp add: List.map_filter_def)

lemma load_files:
  assumes "fold_res (pf_load_file F) files pf = Inr pf'"
  shows "pf' = fold pf_register (List.map_filter (info_of F)
    (filter (\<lambda>p. lib_suffix F = map to_lower (extension F p)) files)) pf"
  using assms
  by (induction files arbitrary: pf)
    (auto simp: res_simps pf_load_file_def pf_load_register map_filter_Cons split: if_splits)

lemma load_dir:
  assumes "pf_load_dir F dir pf = Inr pf'"
  shows "pf' = fold pf_register (List.map_filter (info_of F) (dir_libraries F dir)) pf"
  using assms by (auto simp: pf_load_dir_def res_simps dir_libraries_def dest: load_files)

lemma load_dirs:
  assumes "fold_res (\<lambda>v. pf_load_dir F (f v)) vs pf = Inr pf'"
  shows "pf' = fold pf_register (List.map_filter (info_of F) (concat (map (dir_libraries F) (map f vs)))) pf"
  using assms
  by (induction vs arbitrary: pf) (auto simp: res_simps map_filter_append dest!: load_dir)

lemma load_paths:
  assumes "pf_load_paths F settings pf = Inr pf'"
  shows "pf' = fold pf_register (scanned_plugins F settings) pf"
  using assms load_dirs [of F "\<lambda>v. plugin_dir F (pt_data (snd v))"]
  by (auto simp: pf_load_paths_def scanned_plugins_def plugin_dirs_def
      dest: load_dir split: option.splits)

text \<open>The first library of a uid, among those of a known type, is the plugin of that uid.\<close>

definition chosen :: "plugin_info list \<Rightarrow> string \<Rightarrow> plugin_info option" where
  "chosen is u = List.find (\<lambda>i. info_puid i = u \<and> known_type i) is"

lemma register_plugins:
  "plugins (pf_register i pf) u =
    (if u = info_puid i \<and> known_type i \<and> plugins pf u = None then Some i else plugins pf u)"
  by (auto simp: pf_register_def known_type_def emplace_apply split: option.splits plugin_type.splits)

lemma registers_plugins:
  "plugins (fold pf_register is pf) u =
    (case plugins pf u of Some i \<Rightarrow> Some i | None \<Rightarrow> chosen is u)"
  by (induction "is" arbitrary: pf) (auto simp: register_plugins chosen_def split: option.splits)

subsection \<open>The two managers share the plugins\<close>

definition of_type :: "plugin_type \<Rightarrow> plugin_info option \<Rightarrow> plugin_info option" where
  "of_type ty r = (case r of None \<Rightarrow> None | Some i \<Rightarrow> if info_type i = ty then Some i else None)"

definition pf_inv :: "plugin_factory \<Rightarrow> bool" where
  "pf_inv pf \<longleftrightarrow>
     (\<forall>u i. plugins pf u = Some i \<longrightarrow> info_puid i = u \<and> known_type i) \<and>
     (\<forall>u. loaded_translators (translators pf) u = of_type PLUGIN_TRANSLATOR (plugins pf u)) \<and>
     (\<forall>u. loaded_dispatchers (router pf) u = of_type PLUGIN_DISPATCHER (plugins pf u)) \<and>
     tm_inv (translators pf) \<and> routes_nonempty (router pf)"

lemma pf_init_inv: "pf_inv pf_init"
  by (simp add: pf_inv_def pf_init_def of_type_def tm_init_def rr_init_def tm_init_inv [unfolded tm_init_def]
      routes_nonempty_def)

lemma pf_register_inv:
  assumes "pf_inv pf"
  shows "pf_inv (pf_register i pf)"
proof (cases "plugins pf (info_puid i) = None \<and> known_type i")
  case True
  then have new: "loaded_translators (translators pf) (info_puid i) = None" "loaded_dispatchers (router pf) (info_puid i) = None"
    using assms by (simp_all add: pf_inv_def of_type_def)
  have "tm_inv (tm_add i (translators pf))" "routes_nonempty (rr_add i (router pf))"
    using assms by (simp_all add: pf_inv_def tm_add_inv routes_nonempty_def rr_add_def)
  then show ?thesis using assms True new
    by (auto simp: pf_inv_def pf_register_def known_type_def of_type_def tm_reg.lookup_reg rr_reg.lookup_reg
        emplace_apply split: plugin_type.splits)
next
  case False
  then have "pf_register i pf = pf"
    by (auto simp: pf_register_def known_type_def split: option.splits plugin_type.splits)
  with assms show ?thesis by simp
qed

lemma pf_registers_inv: "pf_inv pf \<Longrightarrow> pf_inv (fold pf_register is pf)"
  by (induction "is" arbitrary: pf) (auto intro: pf_register_inv)

lemma tm_load_port_loaded:
  "tm_load_port C uid arr t = Inr t' \<Longrightarrow> loaded_translators t' = loaded_translators t"
  by (auto simp: tm_load_port_def res_simps split: if_splits)

lemma tm_load_ports_loaded:
  "fold_res (tm_load_port C uid) arrs t = Inr t' \<Longrightarrow> loaded_translators t' = loaded_translators t"
  by (induction arrs arbitrary: t) (auto simp: res_simps dest: tm_load_port_loaded)

lemma tm_load_settings_loaded:
  assumes "tm_load_settings C settings t = Inr t'"
  shows "loaded_translators t' = loaded_translators t"
proof -
  have "fold_res (tm_load_plugin C) ps t = Inr t' \<Longrightarrow> loaded_translators t' = loaded_translators t" for ps
    by (induction ps arbitrary: t) (auto simp: res_simps tm_load_plugin_def dest: tm_load_ports_loaded)
  with assms show ?thesis by (simp add: tm_load_settings_def)
qed

lemma pf_load_settings_parts:
  assumes "pf_load_settings C F settings pf = Inr pf'"
  defines "pf1 \<equiv> fold pf_register (scanned_plugins F settings) pf"
  shows "plugins pf' = plugins pf1"
    and "tm_load_settings C (get_child_or ''translator'' settings empty_ptree) (translators pf1) = Inr (translators pf')"
    and "rr_load_settings C (get_child_or ''dispatcher'' settings empty_ptree) (router pf1) = Inr (router pf')"
  using assms by (auto simp: pf_load_settings_def res_simps Let_def dest!: load_paths)

lemma pf_load_settings_inv:
  assumes "pf_inv pf" and "pf_load_settings C F settings pf = Inr pf'"
  shows "pf_inv pf'"
proof -
  note parts = pf_load_settings_parts [OF assms(2)]
  let ?pf1 = "fold pf_register (scanned_plugins F settings) pf"
  have one: "pf_inv ?pf1" by (rule pf_registers_inv [OF assms(1)])
  have "tm_inv (translators pf')"
    using tm_plugins.run_inv parts(2) one by (auto simp: tm_load_settings_def pf_inv_def)
  moreover have "routes_nonempty (router pf')"
    using rr_sections.run_inv parts(3) one by (auto simp: rr_load_settings_def pf_inv_def)
  moreover have "loaded_translators (translators pf') = loaded_translators (translators ?pf1)"
    by (rule tm_load_settings_loaded [OF parts(2)])
  moreover have "loaded_dispatchers (router pf') = loaded_dispatchers (router ?pf1)"
    by (rule load_sections(2) [OF parts(3) [unfolded rr_load_settings_def]])
  ultimately show ?thesis using one parts(1) by (simp add: pf_inv_def)
qed

text \<open>Scanning leaves the routes and the ports as they were.\<close>

lemma pf_register_tables [simp]:
  "port_mapping (translators (pf_register i pf)) = port_mapping (translators pf)"
  "routes (router (pf_register i pf)) = routes (router pf)"
  "instances (router (pf_register i pf)) = instances (router pf)"
  by (auto simp: pf_register_def tm_add_def rr_add_def split: option.splits plugin_type.splits)

lemma pf_registers_tables [simp]:
  "port_mapping (translators (fold pf_register is pf)) = port_mapping (translators pf)"
  "routes (router (fold pf_register is pf)) = routes (router pf)"
  "instances (router (fold pf_register is pf)) = instances (router pf)"
  by (induction "is" arbitrary: pf) auto

end
