(* ===== verification/Routing_Properties.thy ===== *)
theory Routing_Properties
  imports Plugin_Factory
begin

text \<open>The properties of the combiner, the request router, the translator manager and the plugin factory.\<close>

definition sample_config_env :: config_env where
  "sample_config_env = \<lparr>asserts_on = True,
     port_of = (\<lambda>c. map_of [(''9999'', 9999), (''20'', 20)] (pt_data c)),
     accepts = (\<lambda>uid settings. True)\<rparr>"

abbreviation leaf :: "string \<Rightarrow> config" where
  "leaf s \<equiv> Node s []"

text \<open>Two dispatchers that take the data of the translator \<open>wialon\<close>, both on port 9999.\<close>

definition sample_routes :: config where
  "sample_routes =
     Node [] [(''redis'', Node [] [(''source'', Node [] [(''wialon'', Node [] [(''tcp'', Node [] [([], leaf ''9999'')])])])]),
              (''log'', Node [] [(''source'', Node [] [(''wialon'', Node [] [(''tcp'', Node [] [([], leaf ''9999''), ([], leaf ''20'')])])])])]"

definition sample_info :: "string \<Rightarrow> plugin_type \<Rightarrow> plugin_info" where
  "sample_info uid ty = \<lparr>info_library = uid @ ''.so'', info_type = ty, info_puid = uid, info_name = uid, info_version = ''1''\<rparr>"

definition sample_router :: request_router where
  "sample_router = rr_add (sample_info ''log'' PLUGIN_DISPATCHER) (rr_add (sample_info ''redis'' PLUGIN_DISPATCHER) rr_init)"

definition no_io :: "(nat, nat) router_io" where
  "no_io = \<lparr>posted = [], combiners = []\<rparr>"

subsection \<open>The combiner\<close>

text \<open>
  However the copies of a combiner are made, called and released on any threads, its callback is
  called once, when the last copy goes and not before, with true unless some call reported false.
\<close>

theorem combiner_fires_once:
  assumes "combiner_run ops (combiner_new cb) = Inr c"
  shows "fired c = (if comb_copies c = 0 then [Call False \<notin> set ops] else []) \<and>
    comb_copies c + count (mset ops) Release = 1 + count (mset ops) Copy \<and> comb_callback c = cb"
  using comb.run_inv [OF combiner_new_ok assms] combiner_run_fields [OF assms]
  by (simp add: combiner_ok_def combiner_new_def)

lemma combiner_fires_once_witness:
  "\<exists>c. combiner_run [Copy, Call True, Release, Call False, Release] (combiner_new (7::nat)) = Inr c \<and> fired c = [False]"
proof -
  let ?ops = "[Copy, Call True, Release, Call False, Release]"
  have "\<not> isl (combiner_run ?ops (combiner_new (7::nat)))" by code_simp
  then obtain c where c: "combiner_run ?ops (combiner_new (7::nat)) = Inr c" by (blast dest: returned)
  with combiner_fires_once [OF c] show ?thesis by auto
qed

text \<open>
  C11. With several targets, when each of them answers once and lets go of its callback, in any
  interleaving of all their steps, the caller's callback is called exactly once, with the
  conjunction of the answers.
\<close>

theorem fan_out_answers_once:
  assumes "1 < length ts" and "rr_process_data ts tree cb io = Inr io'" and "length bs = length ts"
    and "mset steps = mset (map Call bs) + replicate_mset (length ts) Release" and "steps = steps' @ [Release]"
  shows "\<exists>c d. combiners io' = combiners io @ [c] \<and> combiner_run steps c = Inr d \<and>
    comb_callback d = cb \<and> fired d = [\<forall>b \<in> set bs. b]"
proof -
  let ?c = "\<lparr>comb_callback = cb, comb_result = True, comb_copies = length ts, fired = []\<rparr>"
  have io': "combiners io' = combiners io @ [?c]"
    using rr_process_data_posted [of ts tree cb io] assms(1,2) by auto
  have counts: "count (mset steps) Copy = 0" "count (mset steps) Release = length ts"
    unfolding assms(4) by (auto simp: count_eq_zero_iff)
  moreover have "ts \<noteq> []" using assms(1) by (cases ts) simp_all
  ultimately have "count (mset steps') Copy = 0" "count (mset steps') Release + 1 = length ts"
    using assms(5) by simp_all
  moreover have "combiner_ok ?c" using assms(1) by (cases ts) (simp_all add: combiner_ok_def)
  ultimately obtain d where d: "combiner_run steps ?c = Inr d" "comb_callback d = cb"
      "fired d = [Call False \<notin> set steps']"
    using combiner_run_last [of ?c steps'] assms(5) by auto
  have "Call False \<in> set steps' \<longleftrightarrow> Call False \<in># mset steps" using assms(5) by simp
  also have "\<dots> \<longleftrightarrow> \<not> (\<forall>b \<in> set bs. b)" unfolding assms(4) by (auto simp: image_iff)
  finally have "fired d = [\<forall>b \<in> set bs. b]" using d(3) by simp
  with d io' show ?thesis by blast
qed

lemma fan_out_answers_once_witness:
  "\<exists>io'. rr_process_data [\<lparr>disp_info = sample_info ''a'' PLUGIN_DISPATCHER, disp_id = 0\<rparr>,
      \<lparr>disp_info = sample_info ''b'' PLUGIN_DISPATCHER, disp_id = 1\<rparr>] (5::nat) (7::nat) no_io = Inr io' \<and>
    (\<exists>c d. combiners io' = [c] \<and> combiner_run [Call True, Call False, Release, Release] c = Inr d \<and> fired d = [False])"
proof -
  let ?ts = "[\<lparr>disp_info = sample_info ''a'' PLUGIN_DISPATCHER, disp_id = 0\<rparr>,
      \<lparr>disp_info = sample_info ''b'' PLUGIN_DISPATCHER, disp_id = 1\<rparr>]"
  obtain io' where io': "rr_process_data ?ts (5::nat) (7::nat) no_io = Inr io'"
    using rr_process_data_posted [of ?ts "5::nat" "7::nat" no_io] by blast
  have "\<exists>c d. combiners io' = combiners no_io @ [c] \<and> combiner_run [Call True, Call False, Release, Release] c = Inr d \<and>
      comb_callback d = 7 \<and> fired d = [\<forall>b \<in> set [True, False]. b]"
    by (rule fan_out_answers_once [OF _ io']) (simp_all add: numeral_2_eq_2)
  with io' show ?thesis by (auto simp: no_io_def)
qed

subsection \<open>Routes\<close>

text \<open>
  Remembering the last route between two entries changes nothing: as long as the remembered
  iterator points at a route or at the end, an entry appends the dispatcher to the targets of its
  key, leaves all other routes alone, and leaves the iterator at that key.
\<close>

theorem cached_route_iterator:
  assumes "it_ok it rr"
  shows "rr_add_route d key (it, rr) = (Some key, rr\<lparr>routes := (routes rr)(key \<mapsto> targets rr key @ [d])\<rparr>) \<and>
    it_ok (Some key) (rr\<lparr>routes := (routes rr)(key \<mapsto> targets rr key @ [d])\<rparr>)"
  using rr_add_route_plain [OF assms] add_route_simps(2) [of key d rr] by (simp add: add_route_def)

lemma cached_route_iterator_witness:
  "rr_add_route \<lparr>disp_info = sample_info ''a'' PLUGIN_DISPATCHER, disp_id = 0\<rparr> (1, ''u'') (None, rr_init) =
    (Some (1, ''u''), rr_init\<lparr>routes := [(1, ''u'') \<mapsto> [\<lparr>disp_info = sample_info ''a'' PLUGIN_DISPATCHER, disp_id = 0\<rparr>]]\<rparr>)"
  using cached_route_iterator [of None rr_init "\<lparr>disp_info = sample_info ''a'' PLUGIN_DISPATCHER, disp_id = 0\<rparr>" "(1, ''u'')"]
  by (simp add: rr_init_def targets_def)

text \<open>
  C8. A tree that a translator hands over on a port reaches exactly the dispatchers that the
  settings declare for this port and translator, each as often as declared and in that order, and
  all get the same tree; when none is declared, the translator is told that the data was not stored.
\<close>

theorem data_reaches_declared_dispatchers:
  assumes "rr_load_settings C settings rr = Inr rr'" and "routes rr = Map.empty" and "instances rr = 0"
    and "declared_targets C (loaded_dispatchers rr) settings (port, uid) = ts"
  shows "\<exists>io'. api_process_data (setup_connection_routes uid port rr') tree cb io = Inr io' \<and>
    posted io' = posted io @
      (if ts = [] then [Callback_false cb]
       else map (\<lambda>d. Handle_data d tree (if length ts = 1 then Direct cb else Combined (length (combiners io)))) ts)"
proof -
  have ts: "targets rr' (port, uid) = ts"
    using load_settings_targets [OF assms(1-3)] assms(4) by simp
  have "routes_nonempty rr'"
    using rr_sections.run_inv [OF _ assms(1) [unfolded rr_load_settings_def]] assms(2)
    by (simp add: routes_nonempty_def)
  then have "routes rr' (port, uid) \<noteq> Some []" by (simp add: routes_nonempty_def)
  with ts rr_process_data_posted [of ts tree cb io] show ?thesis
    by (auto simp: api_process_data_def setup_connection_routes_def targets_def helper_callback_false_def
        split: option.splits)
qed

lemma data_reaches_declared_dispatchers_witness:
  "\<exists>rr' io'. rr_load_settings sample_config_env sample_routes sample_router = Inr rr' \<and>
    api_process_data (setup_connection_routes ''wialon'' 20 rr') (5::nat) (7::nat) no_io = Inr io' \<and>
    posted io' = [Handle_data \<lparr>disp_info = sample_info ''log'' PLUGIN_DISPATCHER, disp_id = 1\<rparr> 5 (Direct 7)]"
proof -
  have "\<not> isl (rr_load_settings sample_config_env sample_routes sample_router)" by code_simp
  then obtain rr' where rr': "rr_load_settings sample_config_env sample_routes sample_router = Inr rr'"
    by (blast dest: returned)
  have empty: "routes sample_router = Map.empty" "instances sample_router = 0"
    by (simp_all add: sample_router_def rr_add_def rr_init_def)
  have "declared_targets sample_config_env (loaded_dispatchers sample_router) sample_routes (20, ''wialon'') =
      [\<lparr>disp_info = sample_info ''log'' PLUGIN_DISPATCHER, disp_id = 1\<rparr>]"
    by code_simp
  from data_reaches_declared_dispatchers [OF rr' empty this, of 5 7 no_io] rr' show ?thesis
    by (auto simp: no_io_def)
qed

subsection \<open>Ports\<close>

text \<open>
  \<open>map_port\<close> succeeds exactly when the uid is a loaded translator and is not the first one
  mapped on the port; then it goes behind the translators of the port, and otherwise nothing
  changes. Other ports keep their translators and their order.
\<close>

theorem map_port_effect:
  assumes "tm_inv tm"
  shows "(fst (map_port port uid tm) \<longleftrightarrow>
      (\<exists>i. loaded_translators tm uid = Some i \<and> info_type i = PLUGIN_TRANSLATOR) \<and>
      (\<forall>u us. list_port port tm = u # us \<longrightarrow> snd u \<noteq> uid)) \<and>
    list_port q (snd (map_port port uid tm)) =
      list_port q tm @ (if fst (map_port port uid tm) \<and> q = port then [(port, uid)] else [])"
proof -
  have "map_of (port_mapping tm) port \<noteq> Some uid \<longleftrightarrow>
      (\<forall>u us. list_port port tm = u # us \<longrightarrow> snd u \<noteq> uid)"
    using list_port_filter [OF assms, of port] by (auto simp: map_of_filter_first split: list.splits)
  with map_port_list [OF assms, of q port uid] show ?thesis by (simp add: map_port_True)
qed

definition sample_manager :: translator_manager where
  "sample_manager = (tm_add (sample_info ''echo'' PLUGIN_TRANSLATOR)
     (tm_add (sample_info ''wialon'' PLUGIN_TRANSLATOR) tm_init))
     \<lparr>port_mapping := [(20, ''wialon''), (20, ''echo''), (9999, ''wialon'')]\<rparr>"

lemma sample_manager_inv: "tm_inv sample_manager"
  by (simp add: tm_inv_def sample_manager_def tm_add_def tm_init_def emplace_apply sample_info_def)

lemma map_port_effect_witness:
  "list_port 9999 (snd (map_port 9999 ''echo'' sample_manager)) = [(9999, ''wialon''), (9999, ''echo'')]"
proof -
  have "fst (map_port 9999 ''echo'' sample_manager)"
    by (simp add: map_port_True)
      (simp add: sample_manager_def tm_add_def tm_init_def emplace_apply sample_info_def)
  moreover have "list_port 9999 sample_manager = [(9999, ''wialon'')]"
    by (simp add: list_port_def multi_range_def sample_manager_def)
  ultimately show ?thesis using map_port_effect [OF sample_manager_inv, of 9999 "''echo''" 9999] by auto
qed

text \<open>
  Because only the first translator of a port is compared, a translator mapped behind another
  one can be mapped again: the call reports success and the port then lists it once more.
\<close>

theorem port_mapped_twice:
  assumes "tm_inv tm" and "list_port port tm = (port, u) # us" and "u \<noteq> uid" and "(port, uid) \<in> set us"
  shows "fst (map_port port uid tm) \<and>
    list_port port (snd (map_port port uid tm)) = (port, u) # us @ [(port, uid)]"
proof -
  have "(port, uid) \<in> set (port_mapping tm)"
    using assms(2,4) list_port_filter [OF assms(1), of port] by (metis filter_is_subset list.set_intros(2) subsetD)
  then have "\<exists>i. loaded_translators tm uid = Some i \<and> info_type i = PLUGIN_TRANSLATOR"
    using assms(1) by (auto simp: tm_inv_def)
  moreover have "map_of (port_mapping tm) port = Some u"
    using assms(2) list_port_filter [OF assms(1), of port] by (simp add: map_of_filter_first)
  ultimately have "fst (map_port port uid tm)" using assms(3) by (simp add: map_port_True)
  with map_port_list [OF assms(1), of port port uid] assms(2) show ?thesis by simp
qed

lemma port_mapped_twice_witness:
  "list_port 20 (snd (map_port 20 ''echo'' sample_manager)) = [(20, ''wialon''), (20, ''echo''), (20, ''echo'')]"
proof -
  have "list_port 20 sample_manager = (20, ''wialon'') # [(20, ''echo'')]"
    by (simp add: list_port_def multi_range_def sample_manager_def)
  from port_mapped_twice [OF sample_manager_inv this] show ?thesis by simp
qed

subsection \<open>Plugins\<close>

definition sample_iface :: "string \<Rightarrow> plugin_type \<Rightarrow> plugin_interface" where
  "sample_iface uid ty = \<lparr>iface_type = ty, iface_uid = uid, iface_name = uid, iface_version = ''1''\<rparr>"

definition sample_fs :: fs_env where
  "sample_fs = \<lparr>list_dir = (\<lambda>d. if d = ''/opt'' then Some [''a.SO'', ''notes.txt'', ''b.so'', ''c.so''] else None),
     extension = (\<lambda>p. drop (length p - 3) p), lib_suffix = ''.so'',
     open_library = (\<lambda>p. map_of [(''a.SO'', sample_iface ''wialon'' PLUGIN_TRANSLATOR),
        (''b.so'', sample_iface ''redis'' PLUGIN_DISPATCHER), (''c.so'', sample_iface ''wialon'' PLUGIN_DISPATCHER)] p),
     is_absolute = (\<lambda>p. True), current_path = ''/opt'', path_join = (\<lambda>a b. a @ ''/'' @ b)\<rparr>"

definition sample_plugins :: config where
  "sample_plugins = Node []
     [(''path'', Node [] [([], leaf ''/opt'')]),
      (''translator'', Node [] [(''wialon'', Node [] [(''tcp'', Node [] [([], leaf ''9999'')])])]),
      (''dispatcher'', Node [] [(''redis'', Node [] [(''source'', Node [] [(''wialon'', Node [] [(''tcp'', Node [] [([], leaf ''9999'')])])])])])]"

lemma sample_loads: "\<not> isl (pf_load_settings sample_config_env sample_fs sample_plugins pf_init)"
  by code_simp

text \<open>
  C31. After the settings have loaded, the plugin of a uid is the first library of the scan that
  reports this uid and a type the program knows; later ones are ignored. It is with the translator
  manager or with the request router, never with both, as its type says, and both know it under its
  own uid.
\<close>

theorem plugins_in_place:
  assumes "pf_load_settings C F settings pf_init = Inr pf"
  shows "plugins pf uid = chosen (scanned_plugins F settings) uid \<and>
    loaded_translators (translators pf) uid = of_type PLUGIN_TRANSLATOR (chosen (scanned_plugins F settings) uid) \<and>
    loaded_dispatchers (router pf) uid = of_type PLUGIN_DISPATCHER (chosen (scanned_plugins F settings) uid) \<and>
    (\<forall>i. plugins pf uid = Some i \<longrightarrow> info_puid i = uid)"
proof -
  have "plugins pf uid = chosen (scanned_plugins F settings) uid"
    using pf_load_settings_parts(1) [OF assms] registers_plugins [of "scanned_plugins F settings" pf_init uid]
    by (simp add: pf_init_def)
  with pf_load_settings_inv [OF pf_init_inv assms] show ?thesis by (simp add: pf_inv_def)
qed

lemma plugins_in_place_witness:
  "\<exists>pf. pf_load_settings sample_config_env sample_fs sample_plugins pf_init = Inr pf \<and>
    map_option info_library (plugins pf ''wialon'') = Some ''a.SO''"
proof -
  obtain pf where pf: "pf_load_settings sample_config_env sample_fs sample_plugins pf_init = Inr pf"
    using sample_loads by (blast dest: returned)
  have "map_option info_library (chosen (scanned_plugins sample_fs sample_plugins) ''wialon'') = Some ''a.SO''"
    by code_simp
  with pf plugins_in_place [OF pf, of "''wialon''"] show ?thesis by simp
qed

end
