(* ===== verification/Connection.thy ===== *)
theory Connection
  imports Plugin_Factory
begin

text \<open>
  src/connection and src/tcp_server: what an accepted connection is given (its translator and the
  routes of its data), which completions reach the translator, and the accept loop of a listener.
\<close>

subsection \<open>A connection\<close>

record session =
  handler :: plugin_info
  remote :: string
  session_port :: "16 word"
  route :: process_data_fn

text \<open>
  The loop over the translators of the local port keeps the last one. \<open>remote_endpoint\<close> of the socket
  (outside src/: the argument) gives the peer, or throws when the peer is gone already.
\<close>

definition port_translator :: "16 word \<Rightarrow> translator_manager \<Rightarrow> string" where
  "port_translator port tm = foldl (\<lambda>puid i. snd i) [] (list_port port tm)"

definition on_connection :: "plugin_factory \<Rightarrow> 16 word \<Rightarrow> string option \<Rightarrow> config_error + session" where
  "on_connection pf local_port remote_endpoint =
     and_then (of_option Not_connected remote_endpoint) (\<lambda>remote_addr.
     (let puid = port_translator local_port (translators pf);
          fn = setup_connection_routes puid local_port (router pf) in
      and_then (tm_create puid (translators pf)) (\<lambda>i.
      Inr \<lparr>handler = i, remote = remote_addr, session_port = local_port, route = fn\<rparr>)))"

text \<open>What \<open>papi\<close> holds for the translator's calls.\<close>

definition session_authenticate :: "session \<Rightarrow> string \<Rightarrow> string \<Rightarrow> bool option" where
  "session_authenticate s login password = rr_authenticate (remote s) login password"

definition session_process_data ::
  "session \<Rightarrow> 't \<Rightarrow> 'c \<Rightarrow> ('t, 'c) router_io \<Rightarrow> combiner_fault + ('t, 'c) router_io" where
  "session_process_data s tree callback io = api_process_data (route s) tree callback io"

text \<open>
  A completed read reaches the translator when it succeeded and brought bytes; the other cases are
  logged, and the connection starts nothing more.
\<close>

datatype conn_log = Closed_by_peer nat | Closed_unexpectedly | Failed_with error_code

definition conn_handle_read ::
  "(nat \<Rightarrow> 's \<Rightarrow> 'e + 's) \<Rightarrow> error_code \<Rightarrow> nat \<Rightarrow> 's \<Rightarrow> 'e + (conn_log list \<times> 's)" where
  "conn_handle_read handle ec n s =
     (if ec = Success \<and> n > 0 then and_then (handle n s) (\<lambda>s'. Inr ([], s'))
      else if ec = Eof then Inr ([Closed_by_peer n], s)
      else if ec = Operation_aborted then Inr ([Closed_unexpectedly], s)
      else Inr ([Failed_with ec], s))"

definition conn_handle_write ::
  "('s \<Rightarrow> 'e + 's) \<Rightarrow> error_code \<Rightarrow> 's \<Rightarrow> 'e + (conn_log list \<times> 's)" where
  "conn_handle_write handle ec s =
     (if ec = Success then and_then (handle s) (\<lambda>s'. Inr ([], s')) else Inr ([Failed_with ec], s))"

lemma foldl_last: "foldl (\<lambda>a i. f i) a xs = (if xs = [] then a else f (last xs))"
  by (induction xs rule: rev_induct) auto

lemma port_translator_last:
  "port_translator port tm = (if list_port port tm = [] then [] else snd (last (list_port port tm)))"
  by (simp add: port_translator_def foldl_last)

text \<open>A port with translators is served, by its last one.\<close>

lemma on_connection_mapped:
  assumes "pf_inv pf" and "list_port port (translators pf) \<noteq> []"
  shows "\<exists>i. loaded_translators (translators pf) (snd (last (list_port port (translators pf)))) = Some i \<and>
    info_type i = PLUGIN_TRANSLATOR \<and>
    on_connection pf port (Some addr) = Inr \<lparr>handler = i, remote = addr, session_port = port,
      route = setup_connection_routes (snd (last (list_port port (translators pf)))) port (router pf)\<rparr>"
proof -
  have tm: "tm_inv (translators pf)" using assms(1) by (simp add: pf_inv_def)
  have "last (list_port port (translators pf)) \<in> set (port_mapping (translators pf))"
    using last_in_set [OF assms(2)] list_port_filter [OF tm, of port] by auto
  with tm obtain i where "loaded_translators (translators pf) (snd (last (list_port port (translators pf)))) = Some i"
    "info_type i = PLUGIN_TRANSLATOR" by (fastforce simp: tm_inv_def)
  with assms(2) show ?thesis
    by (simp add: on_connection_def port_translator_last tm_create_def)
qed

subsection \<open>A listener\<close>

record tcp_server =
  bind_addr :: string
  bind_port :: "16 word"
  accepting :: nat
  sessions :: "session list"

text \<open>The constructor binds (outside src/: it may fail); \<open>start_accept\<close> starts one accept.\<close>

definition tcp_server_new ::
  "(string \<Rightarrow> 16 word \<Rightarrow> bool) \<Rightarrow> string \<Rightarrow> 16 word \<Rightarrow> config_error + tcp_server" where
  "tcp_server_new can_bind addr port =
     (if can_bind addr port then Inr \<lparr>bind_addr = addr, bind_port = port, accepting = 0, sessions = []\<rparr>
      else Inl Bind_failed)"

definition start_accept :: "tcp_server \<Rightarrow> tcp_server" where
  "start_accept srv = srv\<lparr>accepting := accepting srv + 1\<rparr>"

definition handle_accept ::
  "plugin_factory \<Rightarrow> error_code \<Rightarrow> string option \<Rightarrow> tcp_server \<Rightarrow> config_error + tcp_server" where
  "handle_accept pf ec remote_endpoint srv =
     (if ec = Success then
        and_then (on_connection pf (bind_port srv) remote_endpoint) (\<lambda>s.
        Inr (start_accept (srv\<lparr>sessions := sessions srv @ [s]\<rparr>)))
      else Inr srv)"

text \<open>\<open>cancel\<close> leaves no accept pending that could succeed.\<close>

definition tcp_server_cancel :: "tcp_server \<Rightarrow> tcp_server" where
  "tcp_server_cancel srv = srv\<lparr>accepting := 0\<rparr>"

text \<open>The completion of a pending accept; without one, nothing can complete.\<close>

definition accept_step ::
  "plugin_factory \<Rightarrow> error_code \<times> string option \<Rightarrow> tcp_server \<Rightarrow> config_error + tcp_server" where
  "accept_step pf ev srv =
     (if accepting srv = 0 then Inr srv
      else handle_accept pf (fst ev) (snd ev) (srv\<lparr>accepting := accepting srv - 1\<rparr>))"

text \<open>The accepts up to the first that fails.\<close>

abbreviation accepted :: "(error_code \<times> string option) list \<Rightarrow> (error_code \<times> string option) list" where
  "accepted evs \<equiv> takeWhile (\<lambda>ev. fst ev = Success) evs"

lemma accept_run_idle: "accepting srv = 0 \<Longrightarrow> fold_res (accept_step pf) evs srv = Inr srv"
  by (induction evs) (simp_all add: accept_step_def)

definition accept_result ::
  "(error_code \<times> string option) list \<Rightarrow> tcp_server \<Rightarrow> config_error + tcp_server \<Rightarrow> bool" where
  "accept_result evs srv r \<longleftrightarrow>
     (case r of
        Inl e \<Rightarrow> e = Not_connected \<and> (Success, None) \<in> set (accepted evs)
      | Inr srv' \<Rightarrow> (Success, None) \<notin> set (accepted evs) \<and>
          map (Some \<circ> remote) (sessions srv') = map (Some \<circ> remote) (sessions srv) @ map snd (accepted evs) \<and>
          accepting srv' = (if accepted evs = evs then 1 else 0))"

lemma accept_run:
  assumes "pf_inv pf" and "list_port (bind_port srv) (translators pf) \<noteq> []" and "accepting srv = 1"
  shows "accept_result evs srv (fold_res (accept_step pf) evs srv)"
  using assms(2-)
proof (induction evs arbitrary: srv)
  case Nil
  then show ?case by (simp add: accept_result_def)
next
  case (Cons ev evs)
  obtain ec peer where ev: "ev = (ec, peer)" by (cases ev)
  consider (failed) "ec \<noteq> Success" | (gone) "ec = Success" "peer = None"
    | (served) addr where "ec = Success" "peer = Some addr" by (cases peer) auto
  then show ?case
  proof cases
    case failed
    with ev Cons.prems(2) have "fold_res (accept_step pf) (ev # evs) srv = Inr (srv\<lparr>accepting := 0\<rparr>)"
      by (simp add: accept_step_def handle_accept_def accept_run_idle)
    then show ?thesis using ev failed by (simp only: accept_result_def) simp
  next
    case gone
    with ev Cons.prems(2) show ?thesis
      by (simp add: accept_step_def handle_accept_def on_connection_def accept_result_def)
  next
    case served
    let ?puid = "snd (last (list_port (bind_port srv) (translators pf)))"
    from on_connection_mapped [OF assms(1) Cons.prems(1), of addr] obtain s where
      conn: "on_connection pf (bind_port srv) (Some addr) = Inr s" "remote s = addr" by auto
    let ?srv = "srv\<lparr>accepting := 1, sessions := sessions srv @ [s]\<rparr>"
    have step: "accept_step pf ev srv = Inr ?srv"
      using ev served conn Cons.prems(2) by (simp add: accept_step_def handle_accept_def start_accept_def)
    have "accept_result evs ?srv (fold_res (accept_step pf) evs ?srv)"
      by (rule Cons.IH) (simp_all add: Cons.prems)
    with step ev served conn(2) show ?thesis
      by (simp add: accept_result_def split: sum.splits)
  qed
qed

end
