(* ===== verification/Core.thy ===== *)
theory Core
  imports Connection
begin

text \<open>
  src/core and src/main: the log settings, the listeners, the run of the daemon and its exit codes.
  The command line (Boost.Program_options), the settings file's reader and the initialization of
  Boost.Log are the record \<open>daemon_env\<close>.
\<close>

subsection \<open>Log settings\<close>

text \<open>
  A tree of settings becomes a flat map: a node without children is a value, and its name is the
  path to it, with dots.
\<close>

lemma children_smaller: "size_list (size_prod (\<lambda>_. 0) size) (pt_children v) < size v"
  by (cases v) simp

function convert_log_settings ::
  "(string \<times> config) list \<Rightarrow> string \<Rightarrow> (string \<rightharpoonup> string) \<Rightarrow> (string \<rightharpoonup> string)" where
  "convert_log_settings [] path m = m"
| "convert_log_settings ((k, v) # vs) path m =
     convert_log_settings vs path
       (if pt_empty v then m(path @ k \<mapsto> pt_data v)
        else convert_log_settings (pt_children v) (path @ k @ ''.'') m)"
  by pat_completeness auto

termination
  by (relation "measure (\<lambda>(vs, path, m). size_list (size_prod (\<lambda>_. 0) size) vs)")
    (auto intro: less_le_trans [OF children_smaller])

fun join_path :: "string list \<Rightarrow> string" where
  "join_path [] = []"
| "join_path [k] = k"
| "join_path (k # ks) = k @ ''.'' @ join_path ks"

text \<open>Keys without dots, each once among its siblings: what a JSON object of settings has.\<close>

fun plain_children :: "(string \<times> config) list \<Rightarrow> bool" where
  "plain_children [] \<longleftrightarrow> True"
| "plain_children ((k, Node d cs) # vs) \<longleftrightarrow>
     plain_key k \<and> k \<notin> fst ` set vs \<and> plain_children cs \<and> plain_children vs"

text \<open>The value that a path of keys leads to.\<close>

definition leaf_at :: "(string \<times> config) list \<Rightarrow> string list \<Rightarrow> string option" where
  "leaf_at vs ks = (case get_child ks (Node [] vs) of
     Some (Node v []) \<Rightarrow> if ks = [] then None else Some v
   | _ \<Rightarrow> None)"

lemma leaf_at_Cons:
  "leaf_at ((k, v) # vs) (j # ks) =
    (if j = k then (if ks = [] then (if pt_empty v then Some (pt_data v) else None) else leaf_at (pt_children v) ks)
     else leaf_at vs (j # ks))"
  by (cases v; cases ks) (auto simp: leaf_at_def pt_empty_def split: option.splits ptree.splits list.splits)

lemma leaf_at_Nil [simp]: "leaf_at [] ks = None" "leaf_at vs [] = None"
  by (cases ks) (simp_all add: leaf_at_def split: list.splits)

lemma join_path_Cons: "ks \<noteq> [] \<Longrightarrow> join_path (k # ks) = k @ ''.'' @ join_path ks"
  by (cases ks) simp_all

lemma dot_split:
  assumes "plain_key j" and "plain_key k" and "j @ CHR ''.'' # s = k @ CHR ''.'' # t"
  shows "j = k \<and> s = t"
  using assms
proof (induction j arbitrary: k)
  case Nil
  then show ?case by (simp add: plain_key_def)
next
  case (Cons a j)
  then obtain k' where k: "k = a # k'" by (cases k) (auto simp: plain_key_def)
  show ?case
  proof (cases "j = [] \<or> k' = []")
    case True
    with Cons.prems k show ?thesis by (cases j; cases k') (auto simp: plain_key_def)
  next
    case False
    with Cons k show ?thesis by (auto simp: plain_key_def)
  qed
qed

lemma no_dot: "plain_key k \<Longrightarrow> k \<noteq> j @ CHR ''.'' # s"
  by (auto simp: plain_key_def)

lemma join_path_inject:
  assumes "list_all plain_key ks" and "list_all plain_key js" and "ks \<noteq> []" and "js \<noteq> []"
    and "join_path ks = join_path js"
  shows "ks = js"
  using assms
proof (induction ks arbitrary: js)
  case (Cons k ks)
  obtain j js' where js: "js = j # js'" using Cons.prems(4) by (cases js) auto
  consider "ks = []" "js' = []" | "ks = []" "js' \<noteq> []" | "ks \<noteq> []" "js' = []" | "ks \<noteq> []" "js' \<noteq> []" by blast
  then show ?case
  proof cases
    case 4
    with Cons.prems js have "k = j \<and> join_path ks = join_path js'"
      by (intro dot_split) (simp_all add: join_path_Cons)
    with Cons.IH [of js'] Cons.prems js 4 show ?thesis by simp
  qed (use Cons.prems js no_dot in \<open>auto simp: join_path_Cons\<close>)
qed simp

text \<open>
  The settings under \<open>path\<close> are the leaves of the tree under their paths; names that are no paths
  into the tree keep their values.
\<close>

lemma plain_children_Cons:
  "plain_children ((k, v) # vs) \<longleftrightarrow>
    plain_key k \<and> k \<notin> fst ` set vs \<and> plain_children (pt_children v) \<and> plain_children vs"
  by (cases v) simp

lemma leaf_at_absent: "k \<notin> fst ` set vs \<Longrightarrow> leaf_at vs (k # ks) = None"
  by (induction vs) (auto simp: leaf_at_Cons)

text \<open>A name that is no path starting with one of the keys.\<close>

definition foreign :: "string \<Rightarrow> string set \<Rightarrow> string \<Rightarrow> bool" where
  "foreign path ks q \<longleftrightarrow>
     (\<forall>js. list_all plain_key js \<and> js \<noteq> [] \<and> q = path @ join_path js \<longrightarrow> hd js \<notin> ks)"

lemma foreign_below: "plain_key k \<Longrightarrow> k \<in> ks \<Longrightarrow> foreign path ks q \<Longrightarrow> foreign (path @ k @ ''.'') js q"
  unfolding foreign_def
  by (auto dest: spec [of _ "k # _"] simp: join_path_Cons)

lemma convert_foreign:
  assumes "plain_children vs" and "foreign path (fst ` set vs) q"
  shows "convert_log_settings vs path m q = m q"
  using assms
proof (induction vs path m rule: convert_log_settings.induct)
  case (2 k v vs path m)
  have vs: "plain_key k" "plain_children (pt_children v)" "plain_children vs"
    using "2.prems"(1) by (simp_all add: plain_children_Cons)
  have "foreign path (fst ` set vs) q" using "2.prems"(2) by (auto simp: foreign_def)
  note rest = "2.IH"(2) [OF vs(3) this]
  have "q \<noteq> path @ k" using "2.prems"(2) vs(1) by (auto simp: foreign_def dest: spec [of _ "[k]"])
  moreover have "convert_log_settings (pt_children v) (path @ k @ ''.'') m q = m q" if "\<not> pt_empty v"
    using "2.IH"(1) [OF that vs(2)] foreign_below [OF vs(1) _ "2.prems"(2)] by simp
  ultimately show ?case using rest by simp
qed simp

lemma convert_values:
  assumes "plain_children vs" and "list_all plain_key ks" and "ks \<noteq> []"
  shows "convert_log_settings vs path m (path @ join_path ks) =
    (case leaf_at vs ks of Some v \<Rightarrow> Some v | None \<Rightarrow> m (path @ join_path ks))"
  using assms
proof (induction vs path m arbitrary: ks rule: convert_log_settings.induct)
  case (1 path m)
  then show ?case by simp
next
  case (2 k v vs path m)
  let ?m = "if pt_empty v then m(path @ k \<mapsto> pt_data v)
    else convert_log_settings (pt_children v) (path @ k @ ''.'') m"
  have vs: "plain_key k" "k \<notin> fst ` set vs" "plain_children (pt_children v)" "plain_children vs"
    using "2.prems"(1) by (simp_all add: plain_children_Cons)
  have rec: "convert_log_settings ((k, v) # vs) path m (path @ join_path ks) =
      (case leaf_at vs ks of Some w \<Rightarrow> Some w | None \<Rightarrow> ?m (path @ join_path ks))"
    using "2.IH"(2) [OF vs(4) "2.prems"(2,3)] by simp
  obtain j js where ks: "ks = j # js" using "2.prems"(3) by (cases ks) auto
  have keys: "plain_key j" "list_all plain_key js" using "2.prems"(2) ks by simp_all
  show ?case
  proof (cases "j = k")
    case True
    with leaf_at_absent [OF vs(2)] ks have absent: "leaf_at vs ks = None" by simp
    show ?thesis
    proof (cases "js = []")
      case True
      have "foreign (path @ k @ ''.'') (fst ` set (pt_children v)) (path @ k)" by (simp add: foreign_def)
      from convert_foreign [OF vs(3) this] have "?m (path @ k) = (if pt_empty v then Some (pt_data v) else m (path @ k))"
        by simp
      with rec absent True ks \<open>j = k\<close> show ?thesis by (simp add: leaf_at_Cons)
    next
      case False
      have "?m (path @ join_path ks) =
          (case leaf_at (pt_children v) js of Some w \<Rightarrow> Some w | None \<Rightarrow> m (path @ join_path ks))"
      proof (cases "pt_empty v")
        case True
        with ks False \<open>j = k\<close> show ?thesis by (simp add: join_path_Cons pt_empty_def)
      next
        case no: False
        from "2.IH"(1) [OF no vs(3) keys(2) False] no ks False \<open>j = k\<close> show ?thesis
          by (simp add: join_path_Cons split: option.split)
      qed
      with rec absent ks False \<open>j = k\<close> show ?thesis by (simp add: leaf_at_Cons)
    qed
  next
    case False
    have other: "join_path ks \<noteq> join_path (k # is)" if "list_all plain_key is" for "is"
      using join_path_inject [of ks "k # is"] that "2.prems"(2) vs(1) ks False by auto
    have "foreign (path @ k @ ''.'') (fst ` set (pt_children v)) (path @ join_path ks)"
      unfolding foreign_def
    proof (intro allI impI)
      fix js
      assume "list_all plain_key js \<and> js \<noteq> [] \<and> path @ join_path ks = (path @ k @ ''.'') @ join_path js"
      then show "hd js \<notin> fst ` set (pt_children v)" using other [of js] by (simp add: join_path_Cons)
    qed
    from convert_foreign [OF vs(3) this] other [of "[]"]
    have same: "?m (path @ join_path ks) = m (path @ join_path ks)" by simp
    have "leaf_at ((k, v) # vs) ks = leaf_at vs ks" using ks False by (simp add: leaf_at_Cons)
    then show ?thesis unfolding rec same by (simp only:)
  qed
qed

subsection \<open>The daemon\<close>

record daemon_env =
  config :: config_env
  fs :: fs_env
  can_bind :: "(string \<times> 16 word) list \<Rightarrow> string \<Rightarrow> 16 word \<Rightarrow> bool"
                                                           \<comment> \<open>given the endpoints of the listeners that are open\<close>
  read_settings :: "string \<Rightarrow> config option"                 \<comment> \<open>\<open>read_json\<close> of a file\<close>
  init_log :: "(string \<rightharpoonup> string) \<Rightarrow> bool"                    \<comment> \<open>\<open>init_from_settings\<close> of Boost.Log\<close>
  bind_list :: "string list"
  num_threads :: "64 word"
  config_file :: string
  boost_exception :: "config_error \<Rightarrow> bool"                  \<comment> \<open>whether what was thrown is a \<open>boost::exception\<close>\<close>

record core =
  settings :: config
  factory :: plugin_factory
  listeners :: "tcp_server list"

text \<open>\<open>boost::log::init_from_settings\<close> may throw as well: the error is the JSON one here.\<close>

definition init_logging_settings :: "string \<rightharpoonup> string" where
  "init_logging_settings =
     [''Core.Filter'' \<mapsto> ''%Severity% >= normal'',
      ''Sinks.Console.Destination'' \<mapsto> ''Console'',
      ''Sinks.Console.Format'' \<mapsto> ''[%TimeStamp%] <%Severity%>'' @ [CHR 0x09] @ ''[%Channel%] - %Message%'',
      ''Sinks.Console.AutoFlush'' \<mapsto> ''true'',
      ''Sinks.Console.Asynchronous'' \<mapsto> ''true'']"

definition init_logging :: "daemon_env \<Rightarrow> config_error + unit" where
  "init_logging E = (if init_log E init_logging_settings then Inr () else Inl Log_failed)"

definition core_load_settings :: "daemon_env \<Rightarrow> config_error + config" where
  "core_load_settings E =
     and_then (of_option Json_failed (read_settings E (config_file E))) (\<lambda>cfg.
     (case get_child (split_path ''log'') cfg of
        None \<Rightarrow> Inr cfg
      | Some log_tree \<Rightarrow>
          if init_log E (convert_log_settings (pt_children log_tree) [] Map.empty) then Inr cfg
          else Inl Log_failed))"

text \<open>The \<open>flat_set\<close> of the mapped ports: each once, ascending (the table is ordered by port).\<close>

definition server_ports :: "translator_manager \<Rightarrow> 16 word list" where
  "server_ports tm = remdups (map fst (list_ports tm))"

definition bound_endpoint :: "tcp_server \<Rightarrow> string \<times> 16 word" where
  "bound_endpoint srv = (bind_addr srv, bind_port srv)"

text \<open>
  Whether the system binds an endpoint depends on the sockets that the daemon has open: every
  constructor sets \<open>reuse_address\<close>, and what that allows for a second listener of the same endpoint
  differs among systems (POSIX refuses it).
\<close>

definition create_listener ::
  "daemon_env \<Rightarrow> string \<times> 16 word \<Rightarrow> tcp_server list \<Rightarrow> config_error + tcp_server list" where
  "create_listener E ap ls =
     and_then (tcp_server_new (can_bind E (map bound_endpoint ls)) (fst ap) (snd ap)) (\<lambda>srv.
     Inr (ls @ [start_accept srv]))"

definition core_run :: "daemon_env \<Rightarrow> config \<Rightarrow> config_error + core" where
  "core_run E cfg =
     and_then (pf_load_settings (config E) (fs E) (get_child_or ''plugin'' cfg empty_ptree) pf_init) (\<lambda>pf.
     and_then (fold_res (create_listener E) (List.product (bind_list E) (server_ports (translators pf))) []) (\<lambda>ls.
     Inr \<lparr>settings = cfg, factory = pf, listeners = ls\<rparr>))"

text \<open>
  \<open>operator()\<close>: the daemon serves until its threads end; a \<open>boost::exception\<close> stops it with a failure,
  any other exception leaves \<open>operator()\<close>, and a failed assertion aborts the process. With no threads
  it ends at once. \<open>request_router\<close> and \<open>translator_manager\<close> throw with \<open>boost::throw_exception\<close>;
  what the libraries and the plugins throw is outside src/.
\<close>

definition caught :: "daemon_env \<Rightarrow> config_error \<Rightarrow> bool" where
  "caught E e = (case e of Not_loaded _ \<Rightarrow> True | Assertion_failed \<Rightarrow> False | _ \<Rightarrow> boost_exception E e)"

datatype daemon_outcome =
    Served core          \<comment> \<open>the threads ran the listeners; exit code 0 when they end\<close>
  | Ended_at_once core   \<comment> \<open>no thread was made; exit code 0\<close>
  | Exit_failure
  | Uncaught config_error
  | Aborted

definition core_main :: "daemon_env \<Rightarrow> daemon_outcome" where
  "core_main E =
     (case and_then (init_logging E) (\<lambda>_. and_then (core_load_settings E) (core_run E)) of
        Inl e \<Rightarrow>
          if e = Assertion_failed then Aborted
          else if caught E e then Exit_failure else Uncaught e
      | Inr c \<Rightarrow> if num_threads E = 0 then Ended_at_once c else Served c)"

text \<open>\<open>stop\<close> cancels every accept that is pending.\<close>

definition core_stop :: "core \<Rightarrow> core" where
  "core_stop c = c\<lparr>listeners := map tcp_server_cancel (listeners c)\<rparr>"

lemma create_listeners:
  "fold_res (create_listener E) aps ls = Inr ls' \<Longrightarrow>
    ls' = ls @ map (\<lambda>ap. \<lparr>bind_addr = fst ap, bind_port = snd ap, accepting = 1, sessions = []\<rparr>) aps"
proof (induction aps arbitrary: ls)
  case (Cons ap aps)
  from Cons.prems obtain u where u: "create_listener E ap ls = Inr u" "fold_res (create_listener E) aps u = Inr ls'"
    by (auto simp: res_simps)
  then have "u = ls @ [\<lparr>bind_addr = fst ap, bind_port = snd ap, accepting = 1, sessions = []\<rparr>]"
    by (auto simp: res_simps create_listener_def tcp_server_new_def start_accept_def split: if_splits)
  with Cons.IH [OF u(2)] show ?case by simp
qed simp

text \<open>Endpoints that can be bound one after the other, each beside those that are open by then.\<close>

fun binds :: "daemon_env \<Rightarrow> (string \<times> 16 word) list \<Rightarrow> (string \<times> 16 word) list \<Rightarrow> bool" where
  "binds E bound [] \<longleftrightarrow> True"
| "binds E bound (ap # aps) \<longleftrightarrow> can_bind E bound (fst ap) (snd ap) \<and> binds E (bound @ [ap]) aps"

lemma listeners_created:
  "isl (fold_res (create_listener E) aps ls) \<longleftrightarrow> \<not> binds E (map bound_endpoint ls) aps"
proof (induction aps arbitrary: ls)
  case (Cons ap aps)
  show ?case
  proof (cases "can_bind E (map bound_endpoint ls) (fst ap) (snd ap)")
    case True
    then obtain srv where "create_listener E ap ls = Inr (ls @ [srv])" "bound_endpoint srv = ap"
      by (simp add: create_listener_def tcp_server_new_def start_accept_def bound_endpoint_def)
    with Cons.IH [of "ls @ [srv]"] True show ?thesis by simp
  qed (simp add: create_listener_def tcp_server_new_def)
qed simp

text \<open>A system that gives no endpoint to two listeners.\<close>

definition binds_once :: "daemon_env \<Rightarrow> bool" where
  "binds_once E \<longleftrightarrow> (\<forall>bound. \<forall>(a, p) \<in> set bound. \<not> can_bind E bound a p)"

lemma binds_distinct: "binds_once E \<Longrightarrow> binds E bound aps \<Longrightarrow> distinct aps \<and> set bound \<inter> set aps = {}"
proof (induction aps arbitrary: bound)
  case (Cons ap aps)
  then have "ap \<notin> set bound" by (auto simp: binds_once_def split: prod.splits)
  with Cons.IH [of "bound @ [ap]"] Cons.prems show ?case by auto
qed simp

lemma core_run_parts:
  assumes "core_run E cfg = Inr c"
  shows "pf_load_settings (config E) (fs E) (get_child_or ''plugin'' cfg empty_ptree) pf_init = Inr (factory c)"
    and "listeners c = map (\<lambda>ap. \<lparr>bind_addr = fst ap, bind_port = snd ap, accepting = 1, sessions = []\<rparr>)
      (List.product (bind_list E) (server_ports (translators (factory c))))"
  using assms create_listeners [of E _ "[]"] by (auto simp: core_run_def res_simps)

text \<open>A system that binds an endpoint once gives no bind address two listeners.\<close>

lemma product_distinct: "distinct (List.product xs ys) \<Longrightarrow> ys \<noteq> [] \<Longrightarrow> distinct xs"
  by (induction xs) (auto simp: neq_Nil_conv)

lemma core_run_distinct:
  assumes "core_run E cfg = Inr c" and "binds_once E" and "listeners c \<noteq> []"
  shows "distinct (bind_list E)"
proof (rule product_distinct)
  let ?ports = "server_ports (translators (factory c))"
  have "fold_res (create_listener E) (List.product (bind_list E) ?ports) [] = Inr (listeners c)"
    using assms(1) by (auto simp: core_run_def res_simps)
  then have "binds E [] (List.product (bind_list E) ?ports)"
    using listeners_created [of E "List.product (bind_list E) ?ports" "[]"] by simp
  from binds_distinct [OF assms(2) this] show "distinct (List.product (bind_list E) ?ports)" by simp
  have "List.product addrs ([] :: 16 word list) = []" for addrs :: "string list" by (induction addrs) simp_all
  then show "?ports \<noteq> []" using assms(3) core_run_parts(2) [OF assms(1)] by auto
qed

lemma server_ports_set:
  "set (server_ports tm) = fst ` set (port_mapping tm)" "distinct (server_ports tm)"
  by (simp_all add: server_ports_def list_ports_def)

lemma server_ports_sorted: "tm_inv tm \<Longrightarrow> sorted (server_ports tm)"
  by (simp add: tm_inv_def server_ports_def list_ports_def sorted_remdups)

subsection \<open>The program\<close>

text \<open>
  \<open>main\<close> (not on Windows; theory Program has the Windows build and the option table): the parsed options, or nothing when they do not parse; \<open>launch\<close> runs the
  daemon, in the foreground or not, and gives its exit code and an error.
\<close>

record options =
  opt_version :: bool
  opt_help :: bool
  opt_foreground :: bool

datatype console_line = Line string | Usage | Parse_error | Launch_error

definition daemon_info :: "string \<Rightarrow> string" where
  "daemon_info compiler = ''Daemon Name v0.1.0pre-alpha ('' @ compiler @ '')''"

definition launch_daemon :: "(bool \<Rightarrow> nat \<times> bool) \<Rightarrow> bool \<Rightarrow> console_line list \<times> nat" where
  "launch_daemon launch foreground =
     (let (result, failed) = launch foreground;
          daemonizing = (if foreground then [] else [Line ''Deamonizing...'']) in
      if failed then (daemonizing @ [Launch_error, Line ''Bye!''], 1)
      else (daemonizing @ [Line ''Bye!''], result))"

definition main_program ::
  "string \<Rightarrow> options option \<Rightarrow> (bool \<Rightarrow> nat \<times> bool) \<Rightarrow> console_line list \<times> nat" where
  "main_program compiler vm launch =
     (case vm of
        None \<Rightarrow> ([Parse_error, Usage], 1)
      | Some opts \<Rightarrow>
          if opt_version opts then ([Line ''0.1.0pre-alpha''], 0)
          else
            (let info = Line (daemon_info compiler) in
             if opt_help opts then ([info, Usage], 0)
             else (let (out, status) = launch_daemon launch (opt_foreground opts) in (info # out, status))))"

end
