(* ===== verification/Startup.thy ===== *)
theory Startup
  imports Core
begin

text \<open>
  When the daemon starts: the conditions on the file system, the plugins and the settings under
  which no step of the start fails, stated over the settings tree alone.
\<close>

subsection \<open>Plugins\<close>

definition dir_ok :: "fs_env \<Rightarrow> string \<Rightarrow> bool" where
  "dir_ok F dir \<longleftrightarrow> list_dir F dir \<noteq> None \<and> (\<forall>p \<in> set (dir_libraries F dir). open_library F p \<noteq> None)"

lemma pf_load_iff: "isl (pf_load F p pf) \<longleftrightarrow> open_library F p = None"
  by (cases "open_library F p") (simp_all add: pf_load_def make_plugin_info_def)

lemma load_files_iff:
  "isl (fold_res (pf_load_file F) files pf) \<longleftrightarrow>
    (\<exists>p \<in> set files. lib_suffix F = map to_lower (extension F p) \<and> open_library F p = None)"
proof (induction files arbitrary: pf)
  case (Cons p files)
  have "isl (pf_load_file F p pf) \<longleftrightarrow> lib_suffix F = map to_lower (extension F p) \<and> open_library F p = None"
    using pf_load_iff [of F p pf] by (simp add: pf_load_file_def)
  then show ?case using Cons.IH by (cases "pf_load_file F p pf") auto
qed simp

lemma load_dir_iff: "isl (pf_load_dir F dir pf) \<longleftrightarrow> \<not> dir_ok F dir"
  by (cases "list_dir F dir") (auto simp: pf_load_dir_def dir_ok_def dir_libraries_def load_files_iff)

lemma load_dirs_iff:
  "isl (fold_res (\<lambda>v. pf_load_dir F (f v)) vs pf) \<longleftrightarrow> \<not> (\<forall>v \<in> set vs. dir_ok F (f v))"
proof (induction vs arbitrary: pf)
  case (Cons v vs)
  then show ?case using load_dir_iff [of F "f v" pf] by (cases "pf_load_dir F (f v) pf") auto
qed simp

lemma load_paths_iff: "isl (pf_load_paths F cfg pf) \<longleftrightarrow> \<not> (\<forall>d \<in> set (plugin_dirs F cfg). dir_ok F d)"
  by (simp add: pf_load_paths_def plugin_dirs_def load_dirs_iff load_dir_iff split: option.split)

subsection \<open>Translators and their ports\<close>

definition tcp_entries :: "config \<Rightarrow> (string \<times> config) list" where
  "tcp_entries section = pt_children (get_child_or ''tcp'' section empty_ptree)"

definition tcp_entry_ok :: "config_env \<Rightarrow> string \<times> config \<Rightarrow> bool" where
  "tcp_entry_ok C arr \<longleftrightarrow> \<not> (asserts_on C \<and> fst arr \<noteq> []) \<and> port_of C (snd arr) \<noteq> None"

definition translator_ok :: "config_env \<Rightarrow> (string \<rightharpoonup> plugin_info) \<Rightarrow> string \<times> config \<Rightarrow> bool" where
  "translator_ok C loaded section \<longleftrightarrow> loaded (fst section) \<noteq> None \<and>
     accepts C (fst section) (snd section) \<and> (\<forall>arr \<in> set (tcp_entries (snd section)). tcp_entry_ok C arr)"

text \<open>The ports that the sections of the translators name.\<close>

definition section_ports :: "config_env \<Rightarrow> (string \<times> config) list \<Rightarrow> 16 word set" where
  "section_ports C sections =
     (\<Union>section \<in> set sections. {port. \<exists>arr \<in> set (tcp_entries (snd section)). port_of C (snd arr) = Some port})"

text \<open>A port is in the table once it was named, whether it was mapped now or before.\<close>

lemma map_port_ports:
  assumes "loaded_translators tm uid = Some i" and "info_type i = PLUGIN_TRANSLATOR"
  shows "fst ` set (port_mapping (snd (map_port port uid tm))) = insert port (fst ` set (port_mapping tm))"
proof (cases "map_of (port_mapping tm) port = Some uid")
  case True
  then have "(port, uid) \<in> set (port_mapping tm)" by (rule map_of_SomeD)
  with True assms show ?thesis by (force simp: map_port_def)
qed (use assms in \<open>simp add: map_port_def set_multi_emplace\<close>)

lemma load_entries:
  assumes "loaded_translators tm uid = Some i" and "info_type i = PLUGIN_TRANSLATOR"
  shows "isl (fold_res (tm_load_port C uid) arrs tm) \<longleftrightarrow> \<not> (\<forall>arr \<in> set arrs. tcp_entry_ok C arr)"
    and "fold_res (tm_load_port C uid) arrs tm = Inr tm' \<Longrightarrow>
      fst ` set (port_mapping tm') = fst ` set (port_mapping tm) \<union> {port. \<exists>arr \<in> set arrs. port_of C (snd arr) = Some port}"
  using assms
proof (induction arrs arbitrary: tm)
  case (Cons arr arrs)
  {
    case 1
    show ?case
    proof (cases "tcp_entry_ok C arr")
      case True
      then obtain port where "tm_load_port C uid arr tm = Inr (snd (map_port port uid tm))"
        by (auto simp: tcp_entry_ok_def tm_load_port_def)
      with True 1 Cons.IH(1) [of "snd (map_port port uid tm)"] show ?thesis by simp
    qed (auto simp: tcp_entry_ok_def tm_load_port_def)
  next
    case 2
    then obtain u where u: "tm_load_port C uid arr tm = Inr u" "fold_res (tm_load_port C uid) arrs u = Inr tm'"
      by (auto simp: res_simps)
    from u(1) obtain port where "port_of C (snd arr) = Some port" "u = snd (map_port port uid tm)"
      by (auto simp: tm_load_port_def res_simps split: if_splits)
    with u(2) have port: "port_of C (snd arr) = Some port"
        "fold_res (tm_load_port C uid) arrs (snd (map_port port uid tm)) = Inr tm'" by simp_all
    with Cons.IH(2) [OF port(2)] 2 map_port_ports [OF 2(2,3)] show ?case by auto
  }
qed simp_all

lemma load_plugin_iff:
  assumes "\<forall>u i. loaded_translators tm u = Some i \<longrightarrow> info_type i = PLUGIN_TRANSLATOR"
  shows "isl (tm_load_plugin C section tm) \<longleftrightarrow> \<not> translator_ok C (loaded_translators tm) section"
    and "tm_load_plugin C section tm = Inr tm' \<Longrightarrow> loaded_translators tm' = loaded_translators tm \<and>
      fst ` set (port_mapping tm') = fst ` set (port_mapping tm) \<union> section_ports C [section]"
proof -
  show "isl (tm_load_plugin C section tm) \<longleftrightarrow> \<not> translator_ok C (loaded_translators tm) section"
  proof (cases "loaded_translators tm (fst section)")
    case None
    then show ?thesis by (simp add: tm_load_plugin_def tm_create_def translator_ok_def)
  next
    case (Some i)
    then have "info_type i = PLUGIN_TRANSLATOR" using assms by blast
    from load_entries(1) [OF Some this] Some show ?thesis
      by (simp add: tm_load_plugin_def tm_create_def translator_ok_def plugin_load_settings_def
          tcp_entries_def [symmetric])
  qed
next
  assume "tm_load_plugin C section tm = Inr tm'"
  then obtain i where i: "loaded_translators tm (fst section) = Some i"
      "fold_res (tm_load_port C (fst section)) (tcp_entries (snd section)) tm = Inr tm'"
    by (auto simp: tm_load_plugin_def tm_create_def res_simps tcp_entries_def)
  then have "info_type i = PLUGIN_TRANSLATOR" using assms by blast
  from load_entries(2) [OF i(1) this i(2)] tm_load_ports_loaded [OF i(2)]
  show "loaded_translators tm' = loaded_translators tm \<and>
      fst ` set (port_mapping tm') = fst ` set (port_mapping tm) \<union> section_ports C [section]"
    by (simp add: section_ports_def)
qed

lemma load_plugins_iff:
  assumes "\<forall>u i. loaded_translators tm u = Some i \<longrightarrow> info_type i = PLUGIN_TRANSLATOR"
  shows "isl (fold_res (tm_load_plugin C) sections tm) \<longleftrightarrow>
      \<not> (\<forall>section \<in> set sections. translator_ok C (loaded_translators tm) section)"
    and "fold_res (tm_load_plugin C) sections tm = Inr tm' \<Longrightarrow>
      fst ` set (port_mapping tm') = fst ` set (port_mapping tm) \<union> section_ports C sections"
  using assms
proof (induction sections arbitrary: tm)
  case (Cons sec secs)
  {
    case 1
    show ?case
    proof (cases "tm_load_plugin C sec tm")
      case (Inr u)
      with load_plugin_iff(2) [OF 1 Inr] have "loaded_translators u = loaded_translators tm" by simp
      with Cons.IH(1) [of u] 1 load_plugin_iff(1) [OF 1, of C sec] Inr show ?thesis by simp
    qed (use load_plugin_iff(1) [OF 1, of C sec] in simp)
  next
    case 2
    then obtain u where u: "tm_load_plugin C sec tm = Inr u" "fold_res (tm_load_plugin C) secs u = Inr tm'"
      by (auto simp: res_simps)
    with load_plugin_iff(2) [OF 2(2) u(1)] Cons.IH(2) [OF u(2)] 2(2) show ?case
      by (simp add: section_ports_def Un_assoc)
  }
qed (simp_all add: section_ports_def)


subsection \<open>The factory\<close>

lemma registers_translators:
  "loaded_translators (translators (fold pf_register is pf_init)) u = of_type PLUGIN_TRANSLATOR (chosen is u)"
  "loaded_dispatchers (router (fold pf_register is pf_init)) u = of_type PLUGIN_DISPATCHER (chosen is u)"
  using pf_registers_inv [OF pf_init_inv, of "is"] registers_plugins [of "is" pf_init u]
  by (simp_all add: pf_inv_def pf_init_def)

text \<open>Settings of the plugins that load: directories, libraries, translators, dispatchers.\<close>

definition plugins_ok :: "config_env \<Rightarrow> fs_env \<Rightarrow> config \<Rightarrow> bool" where
  "plugins_ok C F cfg \<longleftrightarrow>
     (\<forall>d \<in> set (plugin_dirs F cfg). dir_ok F d) \<and>
     (\<forall>t \<in> set (pt_children (get_child_or ''translator'' cfg empty_ptree)).
        translator_ok C (\<lambda>u. of_type PLUGIN_TRANSLATOR (chosen (scanned_plugins F cfg) u)) t) \<and>
     (\<forall>d \<in> set (pt_children (get_child_or ''dispatcher'' cfg empty_ptree)).
        section_ok C (\<lambda>u. of_type PLUGIN_DISPATCHER (chosen (scanned_plugins F cfg) u)) d)"

definition named_ports :: "config_env \<Rightarrow> config \<Rightarrow> 16 word set" where
  "named_ports C cfg = section_ports C (pt_children (get_child_or ''translator'' cfg empty_ptree))"

lemma isl_and_then: "isl (and_then r f) \<longleftrightarrow> isl r \<or> (\<exists>a. r = Inr a \<and> isl (f a))"
  by (cases r) auto

lemma pf_load_settings_iff: "isl (pf_load_settings C F cfg pf_init) \<longleftrightarrow> \<not> plugins_ok C F cfg"
proof (cases "pf_load_paths F cfg pf_init")
  case (Inl e)
  with load_paths_iff [of F cfg pf_init] show ?thesis by (auto simp: pf_load_settings_def plugins_ok_def)
next
  case (Inr pf1)
  then have pf1: "pf1 = fold pf_register (scanned_plugins F cfg) pf_init" by (rule load_paths)
  note loaded = registers_translators [of "scanned_plugins F cfg", folded pf1]
  have "\<forall>u i. loaded_translators (translators pf1) u = Some i \<longrightarrow> info_type i = PLUGIN_TRANSLATOR"
    by (auto simp: loaded of_type_def split: option.splits if_splits)
  note plugins = load_plugins_iff(1) [OF this, of C "pt_children (get_child_or ''translator'' cfg empty_ptree)"]
    and sections = load_sections_iff [of C "pt_children (get_child_or ''dispatcher'' cfg empty_ptree)" "router pf1"]
  have eqs: "loaded_translators (translators pf1) = (\<lambda>u. of_type PLUGIN_TRANSLATOR (chosen (scanned_plugins F cfg) u))"
    "loaded_dispatchers (router pf1) = (\<lambda>u. of_type PLUGIN_DISPATCHER (chosen (scanned_plugins F cfg) u))"
    using loaded by auto
  have "isl (pf_load_settings C F cfg pf_init) \<longleftrightarrow>
      isl (tm_load_settings C (get_child_or ''translator'' cfg empty_ptree) (translators pf1)) \<or>
      isl (rr_load_settings C (get_child_or ''dispatcher'' cfg empty_ptree) (router pf1))"
    using Inr by (cases "tm_load_settings C (get_child_or ''translator'' cfg empty_ptree) (translators pf1)")
      (auto simp: pf_load_settings_def isl_and_then)
  also have "\<dots> \<longleftrightarrow> \<not> plugins_ok C F cfg"
    using plugins sections load_paths_iff [of F cfg pf_init] Inr
    unfolding plugins_ok_def eqs tm_load_settings_def rr_load_settings_def by auto
  finally show ?thesis .
qed

lemma pf_load_settings_ports:
  assumes "pf_load_settings C F cfg pf_init = Inr pf"
  shows "fst ` set (port_mapping (translators pf)) = named_ports C cfg"
proof -
  let ?pf1 = "fold pf_register (scanned_plugins F cfg) pf_init"
  have "\<forall>u i. loaded_translators (translators ?pf1) u = Some i \<longrightarrow> info_type i = PLUGIN_TRANSLATOR"
    by (auto simp: registers_translators of_type_def split: option.splits if_splits)
  from load_plugins_iff(2) [OF this pf_load_settings_parts(2) [OF assms, unfolded tm_load_settings_def]]
  show ?thesis by (simp add: named_ports_def pf_init_def tm_init_def)
qed

subsection \<open>The daemon\<close>

text \<open>The endpoints, in the order in which they are bound.\<close>

definition named_endpoints :: "daemon_env \<Rightarrow> config \<Rightarrow> (string \<times> 16 word) list" where
  "named_endpoints E plugin = List.product (bind_list E) (sorted_list_of_set (named_ports (config E) plugin))"

definition start_ok :: "daemon_env \<Rightarrow> config \<Rightarrow> bool" where
  "start_ok E cfg \<longleftrightarrow>
     (case get_child (split_path ''log'') cfg of
        None \<Rightarrow> True
      | Some log_tree \<Rightarrow> init_log E (convert_log_settings (pt_children log_tree) [] Map.empty)) \<and>
     (let plugin = get_child_or ''plugin'' cfg empty_ptree in
      plugins_ok (config E) (fs E) plugin \<and> binds E [] (named_endpoints E plugin))"

lemma core_run_iff:
  "isl (core_run E cfg) \<longleftrightarrow>
    \<not> (plugins_ok (config E) (fs E) (get_child_or ''plugin'' cfg empty_ptree) \<and>
       binds E [] (named_endpoints E (get_child_or ''plugin'' cfg empty_ptree)))"
proof (cases "pf_load_settings (config E) (fs E) (get_child_or ''plugin'' cfg empty_ptree) pf_init")
  case (Inl e)
  then show ?thesis using pf_load_settings_iff [of "config E" "fs E" "get_child_or ''plugin'' cfg empty_ptree"]
    by (auto simp: core_run_def)
next
  case (Inr pf)
  with pf_load_settings_iff [of "config E" "fs E" "get_child_or ''plugin'' cfg empty_ptree"]
  have ok: "plugins_ok (config E) (fs E) (get_child_or ''plugin'' cfg empty_ptree)" by simp
  have "tm_inv (translators pf)"
    using pf_load_settings_inv [OF pf_init_inv Inr] by (simp add: pf_inv_def)
  moreover have "set (server_ports (translators pf)) = named_ports (config E) (get_child_or ''plugin'' cfg empty_ptree)"
    using pf_load_settings_ports [OF Inr] by (simp add: server_ports_set)
  ultimately have ports: "server_ports (translators pf) =
      sorted_list_of_set (named_ports (config E) (get_child_or ''plugin'' cfg empty_ptree))"
    using server_ports_sorted server_ports_set(2) by (metis sorted_list_of_set.idem_if_sorted_distinct)
  have "isl (core_run E cfg) \<longleftrightarrow>
      isl (fold_res (create_listener E) (List.product (bind_list E) (server_ports (translators pf))) [])"
    using Inr by (simp add: core_run_def isl_and_then)
  with ok ports show ?thesis by (simp add: listeners_created named_endpoints_def)
qed

lemma core_main_served:
  "(\<exists>c. core_main E = Served c) \<longleftrightarrow> num_threads E \<noteq> 0 \<and> init_log E init_logging_settings \<and>
    (\<exists>cfg. read_settings E (config_file E) = Some cfg \<and> start_ok E cfg)"
proof -
  let ?start = "and_then (init_logging E) (\<lambda>_. and_then (core_load_settings E) (core_run E))"
  have "(\<exists>c. core_main E = Served c) \<longleftrightarrow> num_threads E \<noteq> 0 \<and> \<not> isl ?start"
    by (cases ?start) (simp_all add: core_main_def)
  also have "\<not> isl ?start \<longleftrightarrow> init_log E init_logging_settings \<and>
      (\<exists>cfg. read_settings E (config_file E) = Some cfg \<and> start_ok E cfg)"
    by (cases "read_settings E (config_file E)")
      (auto simp: init_logging_def core_load_settings_def core_run_iff start_ok_def Let_def split: option.splits)
  finally show ?thesis .
qed

lemma core_main_run:
  "core_main E = Served c \<Longrightarrow> \<exists>cfg. core_run E cfg = Inr c"
  by (auto simp: core_main_def and_then_Inr split: sum.splits if_splits)

end
