(* ===== verification/Echo.thy ===== *)
theory Echo
  imports Connection
begin

text \<open>
  example/translator_echo: the echo plugin on a connection. Operations refer to the plugin's buffer
  by reference: a write that is in flight sends what the buffer holds when it completes.
\<close>

datatype echo_fault =
    Unterminated   \<comment> \<open>a string is made of the buffer, and the buffer has no zero byte\<close>
  | Not_possible   \<comment> \<open>a completion without its operation, or against the operation's contract\<close>

datatype echo_op = Read_some | Write_buffer nat

text \<open>\<open>wire\<close> is what the peer has been sent.\<close>

record echo_plugin =
  echo_buffer :: string
  echo_ops :: "echo_op list"
  wire :: string
  echo_log :: "conn_log list"

definition echo_init :: "string \<Rightarrow> echo_plugin" where
  "echo_init buffer = \<lparr>echo_buffer = buffer, echo_ops = [], wire = [], echo_log = []\<rparr>"

definition echo_handle_write :: "echo_plugin \<Rightarrow> echo_fault + echo_plugin" where
  "echo_handle_write s = Inr (s\<lparr>echo_ops := echo_ops s @ [Read_some]\<rparr>)"

definition echo_handle_start :: "echo_plugin \<Rightarrow> echo_fault + echo_plugin" where
  "echo_handle_start s = echo_handle_write s"

text \<open>The log message reads the buffer as a C string.\<close>

definition echo_handle_read :: "nat \<Rightarrow> echo_plugin \<Rightarrow> echo_fault + echo_plugin" where
  "echo_handle_read bytes_transferred s =
     (if CHR 0x00 \<notin> set (echo_buffer s) then Inl Unterminated
      else Inr (s\<lparr>echo_ops := echo_ops s @ [Write_buffer bytes_transferred]\<rparr>))"

datatype echo_event = Echo_read error_code string | Echo_written error_code

definition with_log :: "echo_fault + (conn_log list \<times> echo_plugin) \<Rightarrow> echo_fault + echo_plugin" where
  "with_log r = and_then r (\<lambda>(l, s). Inr (s\<lparr>echo_log := echo_log s @ l\<rparr>))"

text \<open>
  A read fills the front of the buffer; a write that succeeds has sent its part of the buffer. Then
  the handler of the connection runs.
\<close>

fun echo_step :: "echo_event \<Rightarrow> echo_plugin \<Rightarrow> echo_fault + echo_plugin" where
  "echo_step (Echo_read ec bytes) s =
     (if Read_some \<in> set (echo_ops s) \<and> length bytes \<le> length (echo_buffer s)
      then with_log (conn_handle_read echo_handle_read ec (length bytes)
        (s\<lparr>echo_ops := remove1 Read_some (echo_ops s),
           echo_buffer := bytes @ drop (length bytes) (echo_buffer s)\<rparr>))
      else Inl Not_possible)"
| "echo_step (Echo_written ec) s =
     (case echo_ops s of
        Write_buffer n # ops \<Rightarrow>
          with_log (conn_handle_write echo_handle_write ec
            (s\<lparr>echo_ops := ops, wire := (if ec = Success then wire s @ take n (echo_buffer s) else wire s)\<rparr>))
      | _ \<Rightarrow> Inl Not_possible)"

fun echo_received :: "echo_event \<Rightarrow> string" where
  "echo_received (Echo_read ec bytes) = (if ec = Success then bytes else [])"
| "echo_received (Echo_written ec) = []"

text \<open>
  At most one operation is in flight, and all bytes received are sent, but those in the buffer that
  the write in flight is about to send.
\<close>

definition echo_inv :: "string \<Rightarrow> echo_plugin \<Rightarrow> bool" where
  "echo_inv received s \<longleftrightarrow>
     (case echo_ops s of
        [] \<Rightarrow> \<exists>rest. received = wire s @ rest
      | [Read_some] \<Rightarrow> received = wire s
      | [Write_buffer n] \<Rightarrow> n \<le> length (echo_buffer s) \<and> received = wire s @ take n (echo_buffer s)
      | _ \<Rightarrow> False)"

lemma echo_inv_cases:
  assumes "echo_inv received s"
  obtains (closed) rest where "echo_ops s = []" "received = wire s @ rest"
    | (reading) "echo_ops s = [Read_some]" "received = wire s"
    | (writing) n where "echo_ops s = [Write_buffer n]" "n \<le> length (echo_buffer s)"
        "received = wire s @ take n (echo_buffer s)"
  using assms by (auto simp: echo_inv_def split: list.splits echo_op.splits)

lemma echo_step_inv:
  assumes "echo_inv received s" and "echo_step ev s = Inr t"
  shows "echo_inv (received @ echo_received ev) t"
proof (cases ev)
  case (Echo_read ec bytes)
  with assms show ?thesis
    by (auto simp: echo_inv_def with_log_def conn_handle_read_def echo_handle_read_def and_then_Inr
        split: if_splits list.splits echo_op.splits)
next
  case (Echo_written ec)
  from assms(1) show ?thesis
  proof (cases rule: echo_inv_cases)
    case (writing n)
    with assms(2) Echo_written show ?thesis
      by (auto simp: echo_inv_def with_log_def conn_handle_write_def echo_handle_write_def and_then_Inr
          split: if_splits)
  qed (use assms(2) Echo_written in auto)
qed

lemma echo_run_inv:
  "echo_inv received s \<Longrightarrow> fold_res echo_step evs s = Inr t \<Longrightarrow>
    echo_inv (received @ concat (map echo_received evs)) t"
proof (induction evs arbitrary: received s)
  case (Cons ev evs)
  then obtain u where u: "echo_step ev s = Inr u" "fold_res echo_step evs u = Inr t" by (auto simp: res_simps)
  from Cons.IH [OF echo_step_inv [OF Cons.prems(1) u(1)] u(2)] show ?case by simp
qed simp

text \<open>An event that is no failure: a read that brought bytes, a write that succeeded.\<close>

fun went_well :: "echo_event \<Rightarrow> bool" where
  "went_well (Echo_read ec bytes) \<longleftrightarrow> ec = Success \<and> bytes \<noteq> []"
| "went_well (Echo_written ec) \<longleftrightarrow> ec = Success"

lemma echo_step_ops:
  assumes "echo_inv received s" and "echo_step ev s = Inr t"
  shows "echo_ops t \<noteq> [] \<longleftrightarrow> went_well ev"
proof (cases ev)
  case (Echo_read ec bytes)
  from assms(1) show ?thesis
    by (cases rule: echo_inv_cases)
      (use assms(2) Echo_read in \<open>auto simp: with_log_def conn_handle_read_def echo_handle_read_def and_then_Inr
        split: if_splits\<close>)
next
  case (Echo_written ec)
  from assms(1) show ?thesis
    by (cases rule: echo_inv_cases)
      (use assms(2) Echo_written in \<open>auto simp: with_log_def conn_handle_write_def echo_handle_write_def and_then_Inr
        split: if_splits\<close>)
qed

lemma echo_closed: "echo_ops s = [] \<Longrightarrow> echo_step ev s = Inl Not_possible"
  by (cases ev) simp_all

lemma echo_run_ops:
  "echo_inv received s \<Longrightarrow> echo_ops s \<noteq> [] \<Longrightarrow> fold_res echo_step evs s = Inr t \<Longrightarrow>
    echo_ops t \<noteq> [] \<longleftrightarrow> list_all went_well evs"
proof (induction evs arbitrary: received s)
  case (Cons ev evs)
  then obtain u where u: "echo_step ev s = Inr u" "fold_res echo_step evs u = Inr t" by (auto simp: res_simps)
  note ops = echo_step_ops [OF Cons.prems(1) u(1)]
  show ?case
  proof (cases "went_well ev")
    case True
    with ops Cons.IH [OF echo_step_inv [OF Cons.prems(1) u(1)] _ u(2)] show ?thesis by simp
  next
    case False
    with ops have "echo_ops u = []" by simp
    with u(2) have "evs = []" by (cases evs) (simp_all add: echo_closed)
    with u(2) \<open>echo_ops u = []\<close> False show ?thesis by simp
  qed
qed simp

text \<open>The fault comes from a read that leaves no zero byte in the buffer.\<close>

definition unterminated_read :: "echo_plugin \<Rightarrow> echo_event \<Rightarrow> bool" where
  "unterminated_read s ev \<longleftrightarrow>
     (case ev of
        Echo_read ec bytes \<Rightarrow> went_well ev \<and> CHR 0x00 \<notin> set (bytes @ drop (length bytes) (echo_buffer s))
      | Echo_written ec \<Rightarrow> False)"

lemma echo_step_fault: "echo_step ev s = Inl Unterminated \<Longrightarrow> unterminated_read s ev"
  by (cases ev)
    (auto simp: unterminated_read_def with_log_def conn_handle_read_def conn_handle_write_def echo_handle_read_def
      echo_handle_write_def and_then_Inl split: if_splits list.splits echo_op.splits)

lemma echo_run_fault:
  "fold_res echo_step evs s = Inl Unterminated \<Longrightarrow>
    \<exists>ps ev qs u. evs = ps @ ev # qs \<and> fold_res echo_step ps s = Inr u \<and> unterminated_read u ev"
proof (induction evs arbitrary: s)
  case (Cons ev evs)
  show ?case
  proof (cases "echo_step ev s")
    case (Inl f)
    with Cons.prems have "unterminated_read s ev" by (simp add: echo_step_fault)
    then show ?thesis by (intro exI [of _ "[]"] exI [of _ ev] exI [of _ evs] exI [of _ s]) simp
  next
    case (Inr v)
    with Cons.prems Cons.IH [of v] obtain ps e qs u where "evs = ps @ e # qs" "fold_res echo_step ps v = Inr u"
      "unterminated_read u e" by auto
    with Inr show ?thesis by (intro exI [of _ "ev # ps"] exI [of _ e] exI [of _ qs] exI [of _ u]) simp
  qed
qed simp

end
