(* ===== verification/Dptree_Json.thy ===== *)
theory Dptree_Json
  imports Ptree
begin

text \<open>
  include/dptree_json.hpp: the JSON writer of data trees, and a reader of JSON, written from the
  grammar, that shows what the text means. \<open>create_escapes\<close> and \<open>lexical_cast\<close> (outside src/) are
  the parameters \<open>esc\<close> and \<open>lexc\<close>.
\<close>

subsection \<open>The writer\<close>

definition quote :: char where "quote = CHR 0x22"

definition out_json_value :: "(string \<Rightarrow> string) \<Rightarrow> (dptree_value \<Rightarrow> string) \<Rightarrow> dptree_value \<Rightarrow> string" where
  "out_json_value esc lexc v =
     (case v of
        V_string s \<Rightarrow> [quote] @ esc s @ [quote]
      | _ \<Rightarrow> get_value_string lexc v)"

text \<open>The loop over the children, which are written already.\<close>

fun write_items :: "bool \<Rightarrow> nat \<Rightarrow> string list \<Rightarrow> string" where
  "write_items pretty indent [] = []"
| "write_items pretty indent (item # items) =
     (if pretty then replicate (4 * (indent + 1)) (CHR '' '') else []) @ item @
     (if items \<noteq> [] then '','' else []) @ (if pretty then [LF] else []) @
     write_items pretty indent items"

definition write_block :: "bool \<Rightarrow> nat \<Rightarrow> char \<Rightarrow> char \<Rightarrow> string list \<Rightarrow> string" where
  "write_block pretty indent open_char close_char items =
     [open_char] @ (if pretty then [LF] else []) @ write_items pretty indent items @
     (if pretty then replicate (4 * indent) (CHR '' '') else []) @ [close_char]"

lemma size_child: "(k, c) \<in> set cs \<Longrightarrow> size c < Suc (size_list (size_prod (\<lambda>_. 0) size) cs)"
  by (induction cs) auto

function write_json_helper ::
  "(string \<Rightarrow> string) \<Rightarrow> (dptree_value \<Rightarrow> string) \<Rightarrow> dptree \<Rightarrow> nat \<Rightarrow> bool \<Rightarrow> string" where
  "write_json_helper esc lexc (Node d cs) indent pretty =
     (if indent > 0 \<and> cs = [] then out_json_value esc lexc d
      else if indent > 0 \<and> pt_count [] (Node d cs) = length cs then
        write_block pretty indent (CHR ''['') (CHR '']'')
          (map (\<lambda>(k, c). write_json_helper esc lexc c (indent + 1) pretty) cs)
      else
        write_block pretty indent (CHR ''{'') (CHR ''}'')
          (map (\<lambda>(k, c). [quote] @ esc k @ [quote] @ '':'' @ (if pretty then '' '' else []) @
                 write_json_helper esc lexc c (indent + 1) pretty) cs))"
  by pat_completeness auto
termination
  by (relation "measure (\<lambda>(esc, lexc, t, indent, pretty). size t)") (auto intro: size_child)

declare write_json_helper.simps [simp del]

subsection \<open>JSON documents\<close>

datatype json =
    J_string string
  | J_number string
  | J_bool bool
  | J_null
  | J_array "json list"
  | J_object "(string \<times> json) list"

text \<open>White space, and the characters that belong to no word: they end a literal or a number.\<close>

definition json_space :: "char \<Rightarrow> bool" where
  "json_space c \<longleftrightarrow> c \<in> set ([LF, CHR 0x0D, CHR 0x09] @ '' '')"

definition word_char :: "char \<Rightarrow> bool" where
  "word_char c \<longleftrightarrow> \<not> json_space c \<and> c \<notin> set (quote # ''[]{},:'')"

definition skip_ws :: "string \<Rightarrow> string" where
  "skip_ws s = dropWhile json_space s"

text \<open>The numbers of JSON: a sign, digits without a leading zero, a fraction, an exponent.\<close>

datatype number_state =
    N_start | N_minus | N_zero | N_digits | N_point | N_fraction | N_e | N_e_sign | N_exponent

definition json_digit :: "char \<Rightarrow> bool" where
  "json_digit c \<longleftrightarrow> c \<in> set ''0123456789''"

definition first_digit :: "char \<Rightarrow> number_state option" where
  "first_digit c = (if c = CHR ''0'' then Some N_zero else if json_digit c then Some N_digits else None)"

definition after_digits :: "char \<Rightarrow> number_state option" where
  "after_digits c = (if c = CHR ''.'' then Some N_point else if c \<in> set ''eE'' then Some N_e else None)"

fun number_step :: "number_state \<Rightarrow> char \<Rightarrow> number_state option" where
  "number_step N_start c = (if c = CHR ''-'' then Some N_minus else first_digit c)"
| "number_step N_minus c = first_digit c"
| "number_step N_zero c = after_digits c"
| "number_step N_digits c = (if json_digit c then Some N_digits else after_digits c)"
| "number_step N_point c = (if json_digit c then Some N_fraction else None)"
| "number_step N_fraction c =
     (if json_digit c then Some N_fraction else if c \<in> set ''eE'' then Some N_e else None)"
| "number_step N_e c = (if c \<in> set ''+-'' then Some N_e_sign else if json_digit c then Some N_exponent else None)"
| "number_step N_e_sign c = (if json_digit c then Some N_exponent else None)"
| "number_step N_exponent c = (if json_digit c then Some N_exponent else None)"

fun number_run :: "number_state \<Rightarrow> string \<Rightarrow> bool" where
  "number_run st [] = (st \<in> set [N_zero, N_digits, N_fraction, N_exponent])"
| "number_run st (c # cs) = (case number_step st c of None \<Rightarrow> False | Some st' \<Rightarrow> number_run st' cs)"

definition json_number :: "string \<Rightarrow> bool" where
  "json_number w \<longleftrightarrow> number_run N_start w"

text \<open>A word is a literal or a number, or it is no value.\<close>

definition word_json :: "string \<Rightarrow> json option" where
  "word_json w =
     (if w = ''true'' then Some (J_bool True)
      else if w = ''false'' then Some (J_bool False)
      else if w = ''null'' then Some J_null
      else if json_number w then Some (J_number w)
      else None)"

text \<open>
  A string after its opening quote, over bytes: no control character stands for itself, and
  \<open>\u\<close> gives the characters below 256.
\<close>

definition hex_value :: "char \<Rightarrow> nat option" where
  "hex_value c =
     (let n = of_char c :: nat in
      if 48 \<le> n \<and> n \<le> 57 then Some (n - 48)
      else if 65 \<le> n \<and> n \<le> 70 then Some (n - 55)
      else if 97 \<le> n \<and> n \<le> 102 then Some (n - 87)
      else None)"

definition escape_chars :: "(char \<times> char) list" where
  "escape_chars = [(quote, quote), (CHR 0x5C, CHR 0x5C), (CHR ''/'', CHR ''/''), (CHR ''b'', CHR 0x08),
     (CHR ''f'', CHR 0x0C), (CHR ''n'', LF), (CHR ''r'', CHR 0x0D), (CHR ''t'', CHR 0x09)]"

definition code_char :: "char \<Rightarrow> char \<Rightarrow> char \<Rightarrow> char \<Rightarrow> char option" where
  "code_char a b c d =
     (case (hex_value a, hex_value b, hex_value c, hex_value d) of
        (Some 0, Some 0, Some m, Some n) \<Rightarrow> Some (char_of (16 * m + n))
      | _ \<Rightarrow> None)"

fun scan_string :: "string \<Rightarrow> (string \<times> string) option" where
  "scan_string [] = None"
| "scan_string (x # xs) =
     (if x = quote then Some ([], xs)
      else if x = CHR 0x5C then
        (case xs of
           [] \<Rightarrow> None
         | e # es \<Rightarrow>
             if e = CHR ''u'' then
               (case es of
                  a # b # c # d # r \<Rightarrow>
                    Option.bind (code_char a b c d) (\<lambda>y. map_option (\<lambda>(s, q). (y # s, q)) (scan_string r))
                | _ \<Rightarrow> None)
             else Option.bind (map_of escape_chars e) (\<lambda>y. map_option (\<lambda>(s, q). (y # s, q)) (scan_string es)))
      else if (of_char x :: nat) < 32 then None
      else map_option (\<lambda>(s, q). (x # s, q)) (scan_string xs))"

declare scan_string.simps [simp del]

text \<open>
  The reader, with fuel for its depth.
\<close>

fun read_value :: "nat \<Rightarrow> string \<Rightarrow> (json \<times> string) option"
  and read_elements :: "nat \<Rightarrow> string \<Rightarrow> (json list \<times> string) option"
  and read_members ::
    "nat \<Rightarrow> string \<Rightarrow> ((string \<times> json) list \<times> string) option"
where
  "read_value 0 s = None"
| "read_value (Suc n) s =
     (case skip_ws s of
        [] \<Rightarrow> None
      | c # t \<Rightarrow>
          if c = quote then map_option (\<lambda>(x, r). (J_string x, r)) (scan_string t)
          else if c = CHR ''['' then
            (if take 1 (skip_ws t) = '']'' then Some (J_array [], tl (skip_ws t))
             else map_option (\<lambda>(vs, r). (J_array vs, r)) (read_elements n t))
          else if c = CHR ''{'' then
            (if take 1 (skip_ws t) = ''}'' then Some (J_object [], tl (skip_ws t))
             else map_option (\<lambda>(ms, r). (J_object ms, r)) (read_members n t))
          else map_option (\<lambda>v. (v, dropWhile word_char (c # t))) (word_json (takeWhile word_char (c # t))))"
| "read_elements 0 s = None"
| "read_elements (Suc n) s =
     Option.bind (read_value n s) (\<lambda>(v, r).
       case skip_ws r of
         [] \<Rightarrow> None
       | c # t \<Rightarrow>
           if c = CHR '','' then map_option (\<lambda>(vs, q). (v # vs, q)) (read_elements n t)
           else if c = CHR '']'' then Some ([v], t) else None)"
| "read_members 0 s = None"
| "read_members (Suc n) s =
     (if take 1 (skip_ws s) \<noteq> [quote] then None
      else Option.bind (scan_string (tl (skip_ws s))) (\<lambda>(k, p).
        if take 1 (skip_ws p) \<noteq> '':'' then None
        else Option.bind (read_value n (tl (skip_ws p))) (\<lambda>(v, r).
          case skip_ws r of
            [] \<Rightarrow> None
          | c # t \<Rightarrow>
              if c = CHR '','' then map_option (\<lambda>(ms, q). ((k, v) # ms, q)) (read_members n t)
              else if c = CHR ''}'' then Some ([(k, v)], t) else None)))"

definition read_json :: "string \<Rightarrow> (json \<times> string) option" where
  "read_json s = read_value (length s) s"

text \<open>What a tree says: a leaf is a value, unless it is the root; a number is the one it prints as.\<close>

definition json_leaf :: "(dptree_value \<Rightarrow> string) \<Rightarrow> dptree_value \<Rightarrow> json" where
  "json_leaf lexc v =
     (case v of V_string s \<Rightarrow> J_string s | V_bool b \<Rightarrow> J_bool b | _ \<Rightarrow> J_number (lexc v))"

function tree_json :: "(dptree_value \<Rightarrow> string) \<Rightarrow> bool \<Rightarrow> dptree \<Rightarrow> json" where
  "tree_json lexc root (Node d cs) =
     (if \<not> root \<and> cs = [] then json_leaf lexc d
      else if \<not> root \<and> (\<forall>(k, c) \<in> set cs. k = []) then J_array (map (\<lambda>(k, c). tree_json lexc False c) cs)
      else J_object (map (\<lambda>(k, c). (k, tree_json lexc False c)) cs))"
  by pat_completeness auto
termination
  by (relation "measure (\<lambda>(lexc, root, t). size t)") (auto intro: size_child)

declare tree_json.simps [simp del]

text \<open>Every value in the tree that is neither string nor bool prints as a number of JSON.\<close>

definition prints_number :: "(dptree_value \<Rightarrow> string) \<Rightarrow> dptree_value \<Rightarrow> bool" where
  "prints_number lexc v \<longleftrightarrow> (case v of V_string s \<Rightarrow> True | V_bool b \<Rightarrow> True | _ \<Rightarrow> json_number (lexc v))"

definition tree_numbers :: "(dptree_value \<Rightarrow> string) \<Rightarrow> dptree \<Rightarrow> bool" where
  "tree_numbers lexc t \<longleftrightarrow> (\<forall>v \<in> set_ptree t. prints_number lexc v)"

lemma tree_numbers_Node [simp]:
  "tree_numbers lexc (Node d cs) \<longleftrightarrow> prints_number lexc d \<and> (\<forall>x \<in> set cs. tree_numbers lexc (snd x))"
  by (fastforce simp: tree_numbers_def prod_set_defs)

text \<open>The strings are escaped so that the scanner finds them again before the closing quote.\<close>

definition escapes :: "(string \<Rightarrow> string) \<Rightarrow> bool" where
  "escapes esc \<longleftrightarrow> (\<forall>s rest. scan_string (esc s @ quote # rest) = Some (s, rest))"

subsection \<open>Reading back\<close>

lemma json_spaces [simp]:
  "json_space (CHR '' '')" "json_space LF" "\<not> json_space quote" "\<not> json_space (CHR 0x22)"
  "\<not> json_space (CHR '':'')" "\<not> json_space (CHR '','')" "\<not> json_space (CHR '']'')" "\<not> json_space (CHR ''}'')"
  "\<not> json_space (CHR ''['')" "\<not> json_space (CHR ''{'')"
  by code_simp+

lemma word_json_Nil [simp]: "word_json [] = None"
  by code_simp

abbreviation blank :: "string \<Rightarrow> bool" where
  "blank \<equiv> list_all json_space"

lemma skip_blank: "blank ws \<Longrightarrow> skip_ws (ws @ s) = skip_ws s"
  by (induction ws) (auto simp: skip_ws_def)

lemma skip_char: "\<not> json_space c \<Longrightarrow> skip_ws (c # s) = c # s"
  by (simp add: skip_ws_def)

lemma blanks [simp]:
  "blank (replicate n (CHR '' ''))" "blank (if pretty then replicate n (CHR '' '') else [])"
  "blank (if pretty then [LF] else [])" "blank (if pretty then '' '' else [])"
  by (simp_all add: list_all_iff)

lemma read_value_blank: "blank ws \<Longrightarrow> read_value n (ws @ s) = read_value n s"
  by (cases n) (simp_all add: skip_blank)

definition stops :: "string \<Rightarrow> bool" where
  "stops rest \<longleftrightarrow> (case rest of [] \<Rightarrow> True | c # _ \<Rightarrow> \<not> word_char c)"

fun needs :: "nat list \<Rightarrow> nat" where
  "needs [] = 0"
| "needs (w # ws) = Suc (max w (needs ws))"

function need :: "dptree \<Rightarrow> nat" where
  "need (Node d cs) = Suc (needs (map (\<lambda>(k, c). need c) cs))"
  by pat_completeness auto
termination
  by (relation "measure size") (auto intro: size_child)

declare need.simps [simp del]

lemma number_step_char: "number_step st c = Some st' \<Longrightarrow> word_char c"
proof -
  assume "number_step st c = Some st'"
  then have "c \<in> set ''-+.eE0123456789''"
    by (cases st) (auto simp: json_digit_def first_digit_def after_digits_def split: if_splits)
  moreover have "list_all word_char ''-+.eE0123456789''" by code_simp
  ultimately show ?thesis unfolding list_all_iff by blast
qed

lemma number_chars: "number_run st w \<Longrightarrow> list_all word_char w"
  by (induction w arbitrary: st) (auto dest: number_step_char split: option.splits)

lemma word_json_chars: "word_json w = Some v \<Longrightarrow> w \<noteq> [] \<and> list_all word_char w"
proof -
  have literals: "''true'' \<noteq> [] \<and> list_all word_char ''true''" "''false'' \<noteq> [] \<and> list_all word_char ''false''"
      "''null'' \<noteq> [] \<and> list_all word_char ''null''"
    by code_simp+
  assume "word_json w = Some v"
  then consider "w = ''true''" | "w = ''false''" | "w = ''null''" | "json_number w"
    by (auto simp: word_json_def split: if_splits)
  then show ?thesis
  proof cases
    case 4
    then have "w \<noteq> []" by (auto simp: json_number_def)
    with 4 number_chars [of N_start w] show ?thesis by (simp add: json_number_def)
  qed (use literals in \<open>simp only:\<close>)+
qed

lemma word_read:
  assumes "w \<noteq> []" and "list_all word_char w" and "stops rest"
  shows "read_value (Suc n) (w @ rest) = map_option (\<lambda>v. (v, rest)) (word_json w)"
proof -
  obtain c t where w: "w @ rest = c # t" "word_char c" using assms(1,2) by (cases w) auto
  then have "\<not> json_space c" "c \<noteq> quote" "c \<noteq> CHR ''[''" "c \<noteq> CHR ''{''"
    by (auto simp: word_char_def)
  moreover have "takeWhile word_char (c # t) = w" "dropWhile word_char (c # t) = rest"
    using assms(2,3) unfolding w(1) [symmetric]
    by (auto simp: list_all_iff stops_def takeWhile_append dropWhile_append split: list.splits)
  ultimately show ?thesis unfolding w(1) by (simp del: takeWhile.simps dropWhile.simps add: skip_char)
qed

lemma string_read:
  "escapes esc \<Longrightarrow> read_value (Suc n) ([quote] @ esc s @ [quote] @ rest) = Some (J_string s, rest)"
  by (simp add: skip_char quote_def escapes_def)

lemma leaf_word:
  assumes "prints_number lexc v" and "\<nexists>s. v = V_string s"
  shows "word_json (out_json_value esc lexc v) = Some (json_leaf lexc v)"
proof -
  have "\<not> json_number ''true''" "\<not> json_number ''false''" "\<not> json_number ''null''" by code_simp+
  then have number: "json_number w \<Longrightarrow> word_json w = Some (J_number w)" for w
    unfolding word_json_def by metis
  have "word_json ''true'' = Some (J_bool True)" "word_json ''false'' = Some (J_bool False)" by code_simp+
  with assms show ?thesis
    by (cases v) (simp_all add: prints_number_def json_leaf_def out_json_value_def number)
qed

lemma leaf_read:
  assumes "escapes esc" and "prints_number lexc v" and "stops rest"
  shows "read_value (Suc n) (out_json_value esc lexc v @ rest) = Some (json_leaf lexc v, rest)"
proof (cases "\<exists>s. v = V_string s")
  case True
  with string_read [OF assms(1)] show ?thesis by (auto simp: out_json_value_def json_leaf_def)
next
  case False
  note w = leaf_word [OF assms(2) False, of esc]
  from word_json_chars [OF w] word_read [OF _ _ assms(3)] w show ?thesis by simp
qed

lemma read_elements_blank: "blank ws \<Longrightarrow> read_elements n (ws @ s) = read_elements n s"
  by (cases n) (simp_all add: read_value_blank)

lemma read_members_blank: "blank ws \<Longrightarrow> read_members n (ws @ s) = read_members n s"
  by (cases n) (simp_all add: skip_blank)

lemma stops_blank: "blank ws \<Longrightarrow> stops s \<Longrightarrow> stops (ws @ s)"
  by (cases ws) (auto simp: stops_def word_char_def)

lemma stops_char [simp]:
  "stops (CHR '','' # s)" "stops (CHR '']'' # s)" "stops (CHR ''}'' # s)"
  by (simp_all add: stops_def word_char_def)

text \<open>What follows an item: a comma and the other items, or the closing character.\<close>

definition after_item :: "bool \<Rightarrow> nat \<Rightarrow> string list \<Rightarrow> string \<Rightarrow> string" where
  "after_item pretty indent items s =
     (if items \<noteq> [] then '','' else []) @ (if pretty then [LF] else []) @ write_items pretty indent items @ s"

lemma write_items_Cons:
  "write_items pretty indent (item # items) @ s =
     (if pretty then replicate (4 * (indent + 1)) (CHR '' '') else []) @ item @ after_item pretty indent items s"
  by (simp add: after_item_def)

lemma after_item_stops:
  assumes "blank ws" and "c \<in> {CHR '']'', CHR ''}''}"
  shows "stops (after_item pretty indent items (ws @ c # rest))"
proof (cases "items = []")
  case True
  have "stops (c # rest)" using assms(2) by auto
  then have "stops ((if pretty then [LF] else []) @ ws @ c # rest)"
    by (intro stops_blank) (use assms(1) in simp_all)
  then show ?thesis using True by (simp add: after_item_def)
qed (simp add: after_item_def)

lemma after_item_skip:
  assumes "blank ws" and "c \<in> {CHR '']'', CHR ''}''}"
  shows "skip_ws (after_item pretty indent items (ws @ c # rest)) =
    (if items = [] then c # rest
     else CHR '','' # (if pretty then [LF] else []) @ write_items pretty indent items @ ws @ c # rest)"
proof (cases "items = []")
  case True
  have "skip_ws (c # rest) = c # rest" using assms(2) by (auto simp: skip_char)
  then show ?thesis using True assms(1) by (simp add: after_item_def skip_blank)
qed (simp add: after_item_def skip_char)

text \<open>
  Items whose texts are read back: \<open>wr\<close> is the text of a child, \<open>val\<close> its meaning and \<open>nd\<close> the fuel
  it takes.
\<close>

lemma elements_read:
  assumes "\<And>x rest n. x \<in> set xs \<Longrightarrow> stops rest \<Longrightarrow> nd x \<le> n \<Longrightarrow>
      read_value n (wr x @ rest) = Some (val x, rest)"
    and "xs \<noteq> []" and "needs (map nd xs) \<le> n" and "blank ws"
  shows "read_elements n (write_items pretty indent (map wr xs) @ ws @ CHR '']'' # rest) =
    Some (map val xs, rest)"
  using assms
proof (induction xs arbitrary: n)
  case (Cons x xs)
  obtain m where n: "n = Suc m" "nd x \<le> m" "needs (map nd xs) \<le> m"
    using Cons.prems(3) by (cases n) auto
  let ?after = "after_item pretty indent (map wr xs) (ws @ CHR '']'' # rest)"
  have "read_value m (wr x @ ?after) = Some (val x, ?after)"
    using Cons.prems(1) [of x ?after m] after_item_stops [OF Cons.prems(4)] n(2) by simp
  then have head: "read_elements n (write_items pretty indent (map wr (x # xs)) @ ws @ CHR '']'' # rest) =
      (case skip_ws ?after of
         [] \<Rightarrow> None
       | c # t \<Rightarrow>
           if c = CHR '','' then map_option (\<lambda>(vs, q). (val x # vs, q)) (read_elements m t)
           else if c = CHR '']'' then Some ([val x], t) else None)"
    unfolding n(1) list.map write_items_Cons by (simp add: read_value_blank)
  show ?case
  proof (cases "xs = []")
    case True
    with head after_item_skip [OF Cons.prems(4), of "CHR '']''"] show ?thesis by simp
  next
    case False
    have "read_elements m ((if pretty then [LF] else []) @ write_items pretty indent (map wr xs) @ ws @ CHR '']'' # rest) =
        Some (map val xs, rest)"
      using Cons.IH [OF Cons.prems(1) False n(3) Cons.prems(4)] by (simp add: read_elements_blank)
    with head False after_item_skip [OF Cons.prems(4), of "CHR '']''"] show ?thesis by simp
  qed
qed simp

definition member_text :: "(string \<Rightarrow> string) \<Rightarrow> bool \<Rightarrow> string \<Rightarrow> string \<Rightarrow> string" where
  "member_text esc pretty k v = [quote] @ esc k @ [quote] @ '':'' @ (if pretty then '' '' else []) @ v"

lemma members_read:
  assumes "escapes esc"
    and "\<And>x rest n. x \<in> set xs \<Longrightarrow> stops rest \<Longrightarrow> nd x \<le> n \<Longrightarrow>
      read_value n (wr x @ rest) = Some (val x, rest)"
    and "xs \<noteq> []" and "needs (map nd xs) \<le> n" and "blank ws"
  shows "read_members n
      (write_items pretty indent (map (\<lambda>x. member_text esc pretty (key x) (wr x)) xs) @ ws @ CHR ''}'' # rest) =
    Some (map (\<lambda>x. (key x, val x)) xs, rest)"
  using assms(2-)
proof (induction xs arbitrary: n)
  case (Cons x xs)
  obtain m where n: "n = Suc m" "nd x \<le> m" "needs (map nd xs) \<le> m"
    using Cons.prems(3) by (cases n) auto
  let ?item = "\<lambda>x. member_text esc pretty (key x) (wr x)"
  let ?after = "after_item pretty indent (map ?item xs) (ws @ CHR ''}'' # rest)"
  have "read_value m (wr x @ ?after) = Some (val x, ?after)"
    using Cons.prems(1) [of x ?after m] after_item_stops [OF Cons.prems(4)] n(2) by simp
  then have body: "read_value m ((if pretty then '' '' else []) @ wr x @ ?after) = Some (val x, ?after)"
    by (simp add: read_value_blank)
  have scan: "scan_string (esc (key x) @ quote # s) = Some (key x, s)" for s using assms(1) by (simp add: escapes_def)
  have head: "read_members n (write_items pretty indent (map ?item (x # xs)) @ ws @ CHR ''}'' # rest) =
      (case skip_ws ?after of
         [] \<Rightarrow> None
       | c # t \<Rightarrow>
           if c = CHR '','' then map_option (\<lambda>(ms, q). ((key x, val x) # ms, q)) (read_members m t)
           else if c = CHR ''}'' then Some ([(key x, val x)], t) else None)"
    using body unfolding n(1) list.map write_items_Cons member_text_def
    by (simp add: read_members_blank skip_blank skip_char quote_def scan [unfolded quote_def])
  show ?case
  proof (cases "xs = []")
    case True
    with head after_item_skip [OF Cons.prems(4), of "CHR ''}''"] show ?thesis by simp
  next
    case False
    have "read_members m ((if pretty then [LF] else []) @ write_items pretty indent (map ?item xs) @ ws @ CHR ''}'' # rest) =
        Some (map (\<lambda>x. (key x, val x)) xs, rest)"
      using Cons.IH [OF Cons.prems(1) False n(3) Cons.prems(4)] by (simp add: read_members_blank)
    with head False after_item_skip [OF Cons.prems(4), of "CHR ''}''"] show ?thesis by simp
  qed
qed simp

lemma pt_count_all: "pt_count k (Node d cs) = length cs \<longleftrightarrow> (\<forall>x \<in> set cs. fst x = k)"
proof
  show "\<forall>x \<in> set cs. fst x = k \<Longrightarrow> pt_count k (Node d cs) = length cs" by (simp add: pt_count_def)
  show "\<forall>x \<in> set cs. fst x = k" if "pt_count k (Node d cs) = length cs"
  proof
    fix x assume "x \<in> set cs"
    with that length_filter_less [of x cs "\<lambda>c. fst c = k"] show "fst x = k" by (auto simp: pt_count_def)
  qed
qed

lemma read_not_close:
  assumes "read_value n s = Some r"
  shows "take 1 (skip_ws s) \<noteq> '']''"
proof
  assume "take 1 (skip_ws s) = '']''"
  then obtain t where "skip_ws s = CHR '']'' # t" by (cases "skip_ws s") auto
  with assms show False by (cases n) (simp_all add: word_char_def quote_def)
qed

lemma array_read:
  assumes "\<And>x rest n. x \<in> set xs \<Longrightarrow> stops rest \<Longrightarrow> nd x \<le> n \<Longrightarrow>
      read_value n (wr x @ rest) = Some (val x, rest)"
    and "xs \<noteq> []" and "needs (map nd xs) \<le> n"
  shows "read_value (Suc n) (write_block pretty indent (CHR ''['') (CHR '']'') (map wr xs) @ rest) =
    Some (J_array (map val xs), rest)"
proof -
  let ?ws = "if pretty then replicate (4 * indent) (CHR '' '') else []"
  let ?t = "(if pretty then [LF] else []) @ write_items pretty indent (map wr xs) @ ?ws @ CHR '']'' # rest"
  have items: "read_elements n ?t = Some (map val xs, rest)"
    using elements_read [OF assms(1-3), of "\<lambda>x. x" ?ws] by (simp add: read_elements_blank)
  then obtain m where "n = Suc m" by (cases n) auto
  with items obtain r where "read_value m ?t = Some r" by (cases "read_value m ?t") auto
  from read_not_close [OF this] items show ?thesis
    by (simp add: write_block_def skip_char quote_def)
qed

lemma object_read:
  assumes "escapes esc"
    and "\<And>x rest n. x \<in> set xs \<Longrightarrow> stops rest \<Longrightarrow> nd x \<le> n \<Longrightarrow>
      read_value n (wr x @ rest) = Some (val x, rest)"
    and "needs (map nd xs) \<le> n"
  shows "read_value (Suc n)
      (write_block pretty indent (CHR ''{'') (CHR ''}'') (map (\<lambda>x. member_text esc pretty (key x) (wr x)) xs) @ rest) =
    Some (J_object (map (\<lambda>x. (key x, val x)) xs), rest)"
proof (cases "xs = []")
  case True
  have "skip_ws ((if pretty then [LF] else []) @ (if pretty then replicate (4 * indent) (CHR '' '') else []) @
      CHR ''}'' # rest) = CHR ''}'' # rest"
    by (simp add: skip_blank skip_char)
  with True show ?thesis by (simp add: write_block_def skip_char quote_def)
next
  case False
  let ?ws = "if pretty then replicate (4 * indent) (CHR '' '') else []"
  let ?t = "(if pretty then [LF] else []) @
    write_items pretty indent (map (\<lambda>x. member_text esc pretty (key x) (wr x)) xs) @ ?ws @ CHR ''}'' # rest"
  have items: "read_members n ?t = Some (map (\<lambda>x. (key x, val x)) xs, rest)"
    using members_read [OF assms(1,2) False assms(3), of "\<lambda>x. x" ?ws] by (simp add: read_members_blank)
  then have "take 1 (skip_ws ?t) = [quote]" by (cases n) (simp_all split: if_splits)
  with items show ?thesis by (simp add: write_block_def skip_char quote_def)
qed

lemma write_read_value:
  assumes "escapes esc" and "tree_numbers lexc t" and "stops rest" and "need t \<le> n"
  shows "read_value n (write_json_helper esc lexc t indent pretty @ rest) =
    Some (tree_json lexc (indent = 0) t, rest)"
  using assms(2-)
proof (induction t arbitrary: indent n rest)
  case (Node d cs)
  let ?wr = "\<lambda>x. write_json_helper esc lexc (snd x) (indent + 1) pretty"
    and ?val = "\<lambda>x. tree_json lexc False (snd x)" and ?nd = "\<lambda>x. need (snd x)"
  have child: "read_value m (?wr x @ r) = Some (?val x, r)"
    if "x \<in> set cs" "stops r" "?nd x \<le> m" for x r m
  proof -
    have "tree_numbers lexc (snd x)" using Node.prems(1) that(1) by simp
    from Node.IH [OF that(1) _ this that(2,3), of "indent + 1"] show ?thesis by (cases x) simp
  qed
  obtain m where n: "n = Suc m" "needs (map ?nd cs) \<le> m"
    using Node.prems(3) by (cases n) (auto simp: need.simps case_prod_unfold)
  consider (leaf) "indent > 0" "cs = []"
    | (array) "indent > 0" "cs \<noteq> []" "\<forall>x \<in> set cs. fst x = []"
    | (object) "\<not> (indent > 0 \<and> (cs = [] \<or> (\<forall>x \<in> set cs. fst x = [])))"
    by blast
  then show ?case
  proof cases
    case leaf
    have "prints_number lexc d" using Node.prems(1) by simp
    from leaf_read [OF assms(1) this Node.prems(2)] leaf n(1) show ?thesis
      by (simp add: write_json_helper.simps tree_json.simps)
  next
    case array
    with array_read [where wr = ?wr and val = ?val and pretty = pretty and indent = indent and rest = rest,
        OF child array(2) n(2)] n(1) show ?thesis
      by (simp add: write_json_helper.simps tree_json.simps case_prod_unfold pt_count_all)
  next
    case object
    with object_read [where wr = ?wr and val = ?val and key = fst and pretty = pretty and indent = indent
        and rest = rest, OF assms(1) child n(2)] n(1) show ?thesis
      by (auto simp: write_json_helper.simps tree_json.simps case_prod_unfold member_text_def pt_count_all)
  qed
qed

text \<open>The length of the text is fuel enough to read it.\<close>

lemma items_length:
  assumes "\<forall>x \<in> set xs. 0 < nd x \<and> nd x \<le> length (wr x)"
  shows "needs (map nd xs) \<le> Suc (length (write_items pretty indent (map wr xs)))"
  using assms
proof (induction xs)
  case (Cons x xs)
  then have x: "0 < nd x" "nd x \<le> length (wr x)" by simp_all
  show ?case
  proof (cases "xs = []")
    case True
    with x show ?thesis by simp
  next
    case False
    have "needs (map nd xs) \<le> Suc (length (write_items pretty indent (map wr xs)))" using Cons by simp
    with False x show ?thesis by simp
  qed
qed simp

lemma need_pos [simp]: "0 < need t"
  by (cases t) (simp add: need.simps)

lemma text_length:
  "tree_numbers lexc t \<Longrightarrow> need t \<le> length (write_json_helper esc lexc t indent pretty)"
proof (induction t arbitrary: indent)
  case (Node d cs)
  have child: "need (snd x) \<le> length (write_json_helper esc lexc (snd x) (indent + 1) pretty)" if "x \<in> set cs" for x
    using Node.IH [OF that, of "snd x" "indent + 1"] Node.prems that by (cases x) fastforce
  let ?wr = "\<lambda>x. write_json_helper esc lexc (snd x) (indent + 1) pretty"
  let ?mem = "\<lambda>x. [quote] @ esc (fst x) @ [quote] @ '':'' @ (if pretty then '' '' else []) @ ?wr x"
  have "need (Node d cs) \<le> length (write_block pretty indent c c' (map ?wr cs))" for c c'
    using items_length [of cs "\<lambda>x. need (snd x)" ?wr pretty indent] child
    by (simp add: need.simps write_block_def case_prod_unfold)
  moreover have "need (Node d cs) \<le> length (write_block pretty indent c c' (map ?mem cs))" for c c'
    using items_length [of cs "\<lambda>x. need (snd x)" ?mem pretty indent] child
    by (fastforce simp: need.simps write_block_def case_prod_unfold)
  moreover have "need (Node d []) \<le> length (out_json_value esc lexc d)"
    using Node.prems leaf_word [of lexc d esc] word_json_chars [of "out_json_value esc lexc d"]
    by (cases d) (auto simp: need.simps out_json_value_def Suc_le_eq)
  ultimately show ?case by (auto simp: write_json_helper.simps case_prod_unfold)
qed

text \<open>An object with one leaf that is no value of JSON is no document.\<close>

lemma bad_leaf_refused:
  assumes "escapes esc" and "out_json_value esc lexc v \<noteq> []" and "list_all word_char (out_json_value esc lexc v)"
    and "word_json (out_json_value esc lexc v) = None"
  shows "read_json (write_json_helper esc lexc (Node d [(k, Node v [])]) 0 pretty) = None"
proof -
  let ?w = "out_json_value esc lexc v"
  let ?rest = "(if pretty then [LF] else []) @ ''}''"
  let ?val = "(if pretty then '' '' else []) @ ?w @ ?rest"
  let ?body = "(if pretty then [LF] else []) @ (if pretty then replicate 4 (CHR '' '') else []) @
    [quote] @ esc k @ [quote] @ '':'' @ ?val"
  have shape: "write_json_helper esc lexc (Node d [(k, Node v [])]) 0 pretty = ''{'' @ ?body"
    by (simp add: write_json_helper.simps write_block_def)
  have "stops ?rest" using stops_blank [of "if pretty then [LF] else []" "''}''"] by simp
  then have "read_value n (?w @ ?rest) = None" for n
    using word_read [OF assms(2,3)] assms(4) by (cases n) simp_all
  then have bad: "read_value n ?val = None" for n by (simp add: read_value_blank)
  have scan: "scan_string (esc k @ quote # s) = Some (k, s)" for s using assms(1) by (simp add: escapes_def)
  have "read_members n ?body = None" for n
    using bad by (cases n) (simp_all add: skip_blank skip_char scan)
  moreover have "take 1 (skip_ws ?body) \<noteq> ''}''" by (simp add: skip_blank skip_char quote_def)
  ultimately show ?thesis unfolding shape read_json_def by (simp add: skip_char quote_def)
qed

end
