(* ===== verification/Dispatchers.thy ===== *)
theory Dispatchers
  imports Dptree_Json Redis_Inv
begin

text \<open>
  The two dispatcher plugins: plugins/dispatcher_redis, which publishes a tree as JSON on the
  channel "foo", and example/dispatcher_logger, which logs it and confirms, at once or after a
  delay. What both promise the router, that no callback gets lost or doubled, is the interface
  \<open>dispatcher_contract\<close>.
\<close>

subsection \<open>What they take from outside\<close>

text \<open>
  \<open>create_escapes\<close> and \<open>lexical_cast\<close>, what \<open>write_json\<close> of Boost makes of the text its helper wrote,
  and the conversions of a setting to a number and to a truth value.
\<close>

record json_env =
  json_esc :: "string \<Rightarrow> string"
  json_lexc :: "dptree_value \<Rightarrow> string"
  json_finish :: "string \<Rightarrow> string"
  to_size :: "string \<Rightarrow> 64 word option"
  to_bool :: "string \<Rightarrow> bool option"

definition write_json :: "json_env \<Rightarrow> dptree \<Rightarrow> bool \<Rightarrow> string" where
  "write_json J tree pretty = json_finish J (write_json_helper (json_esc J) (json_lexc J) tree 0 pretty)"

text \<open>\<open>get\<close> with a default, which is also the value when the conversion fails.\<close>

definition get_or :: "(string \<Rightarrow> 'v option) \<Rightarrow> string \<Rightarrow> 'v \<Rightarrow> config \<Rightarrow> 'v" where
  "get_or conv path dflt settings =
     (case get_child (split_path path) settings of
        None \<Rightarrow> dflt
      | Some c \<Rightarrow> (case conv (pt_data c) of None \<Rightarrow> dflt | Some v \<Rightarrow> v))"

subsection \<open>The redis dispatcher\<close>

record 'c dispatcher_redis =
  rcon :: "'c redis"
  dest_host :: string
  dest_port :: string
  pretty_json :: bool

definition dr_load_settings :: "json_env \<Rightarrow> config \<Rightarrow> 'c dispatcher_redis" where
  "dr_load_settings J settings =
     (let h = get_or Some ''host'' ''localhost'' settings;
          p = get_or Some ''port'' ''6379'' settings;
          pretty = get_or (to_bool J) ''pretty'' False settings;
          conn = get_or (to_size J) ''timeout.connect'' 10 settings;
          png = get_or (to_size J) ''timeout.ping'' 30 settings in
      \<lparr>rcon = connect_host h p (set_timeouts conn png redis_init),
       dest_host = h, dest_port = p, pretty_json = pretty\<rparr>)"

definition dr_handle_process_data ::
  "(64 word \<Rightarrow> string) \<Rightarrow> json_env \<Rightarrow> dptree \<Rightarrow> 'c \<Rightarrow> 'c dispatcher_redis \<Rightarrow> redis_fault + 'c dispatcher_redis" where
  "dr_handle_process_data kuint J tree callback d =
     and_then (publish kuint ''foo'' (write_json J tree (pretty_json d)) (Client callback) (rcon d)) (\<lambda>r.
     Inr (d\<lparr>rcon := r\<rparr>))"

subsection \<open>The logging dispatcher\<close>

text \<open>Delayed callbacks wait on timers; a timer's handler runs the callback whatever its error code.\<close>

record 'c dispatcher_logger =
  delay_ms :: "64 word"
  timers :: "(64 word \<times> 'c) list"
  confirmed :: "('c \<times> bool) list"
  json_log :: "string list"

definition dl_init :: "64 word \<Rightarrow> 'c dispatcher_logger" where
  "dl_init d = \<lparr>delay_ms = d, timers = [], confirmed = [], json_log = []\<rparr>"

definition dl_load_settings :: "json_env \<Rightarrow> config \<Rightarrow> 'c dispatcher_logger \<Rightarrow> 'c dispatcher_logger" where
  "dl_load_settings J settings d = d\<lparr>delay_ms := get_or (to_size J) ''delay'' 0 settings\<rparr>"

definition delayed_callback_delay :: "64 word \<Rightarrow> 'c \<Rightarrow> 'c dispatcher_logger \<Rightarrow> 'c dispatcher_logger" where
  "delayed_callback_delay ms callback d = d\<lparr>timers := timers d @ [(ms, callback)]\<rparr>"

definition delayed_callback_run :: "nat \<Rightarrow> 'c dispatcher_logger \<Rightarrow> 'c dispatcher_logger" where
  "delayed_callback_run i d =
     (case at (timers d) i of
        None \<Rightarrow> d
      | Some (ms, callback) \<Rightarrow>
          d\<lparr>timers := take i (timers d) @ drop (Suc i) (timers d), confirmed := confirmed d @ [(callback, True)]\<rparr>)"

definition dl_handle_process_data ::
  "json_env \<Rightarrow> dptree \<Rightarrow> 'c \<Rightarrow> 'c dispatcher_logger \<Rightarrow> 'c dispatcher_logger" where
  "dl_handle_process_data J tree callback d =
     (let d1 = d\<lparr>json_log := json_log d @ [write_json J tree True]\<rparr> in
      if delay_ms d1 = 0 then d1\<lparr>confirmed := confirmed d1 @ [(callback, True)]\<rparr>
      else delayed_callback_delay (delay_ms d1) callback d1)"

subsection \<open>What a dispatcher promises\<close>

text \<open>Requests (\<open>Inl\<close>) and other events in any order, and the callbacks of the requests.\<close>

definition contract_step ::
  "('t \<Rightarrow> 'c \<Rightarrow> 's \<Rightarrow> 'e + 's) \<Rightarrow> ('ev \<Rightarrow> 's \<Rightarrow> 'e + 's) \<Rightarrow> ('t \<times> 'c) + 'ev \<Rightarrow> 's \<Rightarrow> 'e + 's" where
  "contract_step handle progress x s = (case x of Inl (t, c) \<Rightarrow> handle t c s | Inr ev \<Rightarrow> progress ev s)"

definition asked :: "(('t \<times> 'c) + 'ev) list \<Rightarrow> 'c multiset" where
  "asked xs = mset (List.map_filter (\<lambda>x. case x of Inl (t, c) \<Rightarrow> Some c | Inr ev \<Rightarrow> None) xs)"

text \<open>
  \<open>owed\<close> counts the callbacks a dispatcher has been given, called already or not: a request adds
  its own, other steps none.
\<close>

locale dispatcher_contract =
  fixes handle :: "'t \<Rightarrow> 'c \<Rightarrow> 's \<Rightarrow> 'e + 's" and progress :: "'ev \<Rightarrow> 's \<Rightarrow> 'e + 's"
    and inv :: "'s \<Rightarrow> bool" and owed :: "'s \<Rightarrow> 'c multiset"
  assumes handle_owed: "inv s \<Longrightarrow> handle t c s = Inr s' \<Longrightarrow> inv s' \<and> owed s' = owed s + {#c#}"
    and progress_owed: "inv s \<Longrightarrow> progress ev s = Inr s' \<Longrightarrow> inv s' \<and> owed s' = owed s"
begin

lemma run_owed:
  "inv s \<Longrightarrow> fold_res (contract_step handle progress) xs s = Inr s' \<Longrightarrow> inv s' \<and> owed s' = owed s + asked xs"
proof (induction xs arbitrary: s)
  case Nil
  then show ?case by (simp add: asked_def List.map_filter_def)
next
  case (Cons x xs)
  then obtain u where u: "contract_step handle progress x s = Inr u" "fold_res (contract_step handle progress) xs u = Inr s'"
    by (auto simp: res_simps)
  have "inv u \<and> owed u = owed s + asked [x]"
  proof (cases x)
    case (Inl tc)
    with u(1) handle_owed [OF Cons.prems(1), of "fst tc" "snd tc" u] show ?thesis
      by (cases tc) (simp add: contract_step_def asked_def List.map_filter_def)
  next
    case (Inr ev)
    with u(1) progress_owed [OF Cons.prems(1), of ev u] show ?thesis
      by (simp add: contract_step_def asked_def List.map_filter_def)
  qed
  with Cons.IH [OF _ u(2)] show ?case by (auto simp: asked_def List.map_filter_def split: sum.splits)
qed

end

definition redis_progress ::
  "(64 word \<Rightarrow> string) \<Rightarrow> 'c redis_event \<Rightarrow> 'c dispatcher_redis \<Rightarrow> redis_fault + 'c dispatcher_redis" where
  "redis_progress kuint ev d =
     (if requested ev = {#} then and_then (redis_step kuint ev (rcon d)) (\<lambda>r. Inr (d\<lparr>rcon := r\<rparr>)) else Inr d)"

interpretation dr: dispatcher_contract "dr_handle_process_data kuint J" "redis_progress kuint"
    "\<lambda>d. settled (rcon d)" "\<lambda>d. ledger (rcon d)" for kuint J
proof
  fix d d' :: "'a dispatcher_redis" and t c ev
  assume inv: "settled (rcon d)"
  show "settled (rcon d') \<and> ledger (rcon d') = ledger (rcon d) + {#c#}"
    if h: "dr_handle_process_data kuint J t c d = Inr d'"
  proof -
    from h obtain r where "publish kuint ''foo'' (write_json J t (pretty_json d)) (Client c) (rcon d) = Inr r"
      "d' = d\<lparr>rcon := r\<rparr>" by (auto simp: dr_handle_process_data_def res_simps)
    with publish_settled [OF inv, of kuint "''foo''" "write_json J t (pretty_json d)" "Client c"] show ?thesis
      by (auto simp: owner_def)
  qed
  show "settled (rcon d') \<and> ledger (rcon d') = ledger (rcon d)" if "redis_progress kuint ev d = Inr d'"
    using that redis_step_ok [OF inv, of kuint ev] inv
    by (auto simp: redis_progress_def res_simps split: if_splits)
qed

definition logger_owed :: "'c dispatcher_logger \<Rightarrow> 'c multiset" where
  "logger_owed d = mset (map fst (confirmed d)) + mset (map snd (timers d))"

definition all_confirmed :: "'c dispatcher_logger \<Rightarrow> bool" where
  "all_confirmed d \<longleftrightarrow> (\<forall>(c, ok) \<in> set (confirmed d). ok)"

lemma remove_nth_mset: "i < length xs \<Longrightarrow> mset xs = {#xs ! i#} + mset (take i xs @ drop (Suc i) xs)"
  by (subst id_take_nth_drop [of i xs]) simp_all

lemma timer_runs:
  "logger_owed (delayed_callback_run i d) = logger_owed d"
  "all_confirmed d \<Longrightarrow> all_confirmed (delayed_callback_run i d)"
proof -
  show "logger_owed (delayed_callback_run i d) = logger_owed d"
  proof (cases "i < length (timers d)")
    case True
    from remove_nth_mset [OF True] have "image_mset snd (mset (timers d)) =
        image_mset snd ({#timers d ! i#} + mset (take i (timers d) @ drop (Suc i) (timers d)))" by simp
    with True show ?thesis
      by (simp add: delayed_callback_run_def at_def logger_owed_def split: prod.splits)
  qed (simp add: delayed_callback_run_def at_def)
  show "all_confirmed d \<Longrightarrow> all_confirmed (delayed_callback_run i d)"
    by (auto simp: delayed_callback_run_def all_confirmed_def split: option.splits)
qed

definition dl_request :: "json_env \<Rightarrow> dptree \<Rightarrow> 'c \<Rightarrow> 'c dispatcher_logger \<Rightarrow> unit + 'c dispatcher_logger" where
  "dl_request J t c d = Inr (dl_handle_process_data J t c d)"

definition dl_timer :: "nat \<Rightarrow> 'c dispatcher_logger \<Rightarrow> unit + 'c dispatcher_logger" where
  "dl_timer i d = Inr (delayed_callback_run i d)"

interpretation dl: dispatcher_contract "dl_request J" dl_timer all_confirmed logger_owed for J
  by unfold_locales
    (auto simp: dl_request_def dl_timer_def timer_runs, (auto simp: dl_handle_process_data_def
      delayed_callback_delay_def logger_owed_def all_confirmed_def Let_def)+)

end
