(* ===== verification/Relative_Timer.thy ===== *)
theory Relative_Timer
  imports Dispatchers "HOL-Library.Signed_Division"
begin

text \<open>
  include/relative_timer.hpp: the clock of every timer of the program. Time points and durations of
  \<open>high_resolution_clock\<close> are 64-bit counts of nanoseconds, durations of \<open>posix_time\<close> 64-bit counts of
  microseconds, both signed; \<open>duration_cast\<close> truncates towards zero. Arithmetic wraps here, where
  C++ leaves the overflow undefined: the lemmas say below which bounds there is none.
\<close>

type_synonym nanoseconds = "64 word"
type_synonym microseconds = "64 word"

subsection \<open>castable_duration\<close>

definition of_posix :: "microseconds \<Rightarrow> nanoseconds" where
  "of_posix us = us * 1000"

definition of_seconds :: "64 word \<Rightarrow> nanoseconds" where
  "of_seconds s = s * 1000000000"

definition of_milliseconds :: "64 word \<Rightarrow> nanoseconds" where
  "of_milliseconds ms = ms * 1000000"

text \<open>From anything that converts to a \<open>posix_time\<close> duration, and the clock's own durations, both ways.\<close>

definition of_castable :: "('a \<Rightarrow> microseconds) \<Rightarrow> 'a \<Rightarrow> nanoseconds" where
  "of_castable posix x = of_posix (posix x)"

definition of_chrono :: "nanoseconds \<Rightarrow> nanoseconds" where
  "of_chrono d = d"

definition to_chrono :: "nanoseconds \<Rightarrow> nanoseconds" where
  "to_chrono d = d"

definition to_posix_duration :: "nanoseconds \<Rightarrow> microseconds" where
  "to_posix_duration ns = word_of_int (sint ns sdiv 1000)"

text \<open>The conversion that \<open>basic_deadline_timer\<close> asks the traits for is the cast.\<close>

definition timer_posix_duration :: "nanoseconds \<Rightarrow> microseconds" where
  "timer_posix_duration d = to_posix_duration d"

subsection \<open>Time points\<close>

definition time_add :: "nanoseconds \<Rightarrow> nanoseconds \<Rightarrow> nanoseconds" where
  "time_add t d = t + d"

definition time_subtract :: "nanoseconds \<Rightarrow> nanoseconds \<Rightarrow> nanoseconds" where
  "time_subtract t1 t2 = t1 - t2"

definition less_than :: "nanoseconds \<Rightarrow> nanoseconds \<Rightarrow> bool" where
  "less_than t1 t2 \<longleftrightarrow> sint t1 < sint t2"

text \<open>\<open>expires_from_now\<close> of Boost.Asio: the deadline is \<open>add(now(), duration)\<close>.\<close>

definition connect_deadline :: "nanoseconds \<Rightarrow> 'c redis \<Rightarrow> nanoseconds" where
  "connect_deadline t r = time_add t (of_seconds (timeout_connect r))"

definition ping_deadline :: "nanoseconds \<Rightarrow> 'c redis \<Rightarrow> nanoseconds" where
  "ping_deadline t r = time_add t (of_seconds (timeout_ping r))"

definition delay_deadline :: "nanoseconds \<Rightarrow> 'c dispatcher_logger \<Rightarrow> nanoseconds" where
  "delay_deadline t d = time_add t (of_milliseconds (delay_ms d))"

subsection \<open>Without overflow\<close>

abbreviation in_range :: "int \<Rightarrow> bool" where
  "in_range i \<equiv> - (2 ^ 63) \<le> i \<and> i < 2 ^ 63"

lemma sint_in_range: "in_range (sint (w :: 64 word))"
  using sint_greater_eq [of w] sint_less [of w] by simp

lemma sint_of_int: "in_range i \<Longrightarrow> sint (word_of_int i :: 64 word) = i"
  by (simp add: signed_of_int signed_take_bit_int_eq_self)

lemma sint_mult: "in_range (sint (a :: 64 word) * sint b) \<Longrightarrow> sint (a * b) = sint a * sint b"
  using sint_of_int [of "sint a * sint b"] by simp

lemma sint_add: "in_range (sint (a :: 64 word) + sint b) \<Longrightarrow> sint (a + b) = sint a + sint b"
  using sint_of_int [of "sint a + sint b"] by simp

lemma sint_diff: "in_range (sint (a :: 64 word) - sint b) \<Longrightarrow> sint (a - b) = sint a - sint b"
  using sint_of_int [of "sint a - sint b"] by simp

lemma posix_roundtrip:
  assumes "in_range (sint us * 1000)"
  shows "to_posix_duration (of_posix us) = us"
proof -
  have "sint (of_posix us) = sint us * 1000" using assms sint_mult [of us 1000] by (simp add: of_posix_def)
  moreover have "(i * 1000) sdiv (1000 :: int) = i" for i
    by (simp add: signed_divide_int_def sgn_mult abs_mult mult_sgn_abs sgn_mult_abs)
  ultimately show ?thesis by (simp add: to_posix_duration_def)
qed

text \<open>A \<open>posix_time\<close> wait that goes through the timer comes out as it was.\<close>

lemma castable_roundtrip:
  "in_range (sint (posix x) * 1000) \<Longrightarrow> timer_posix_duration (of_chrono (to_chrono (of_castable posix x))) = posix x"
  by (simp add: timer_posix_duration_def of_chrono_def to_chrono_def of_castable_def posix_roundtrip)

text \<open>A deadline some nanoseconds ahead: when it is later than now, and how long the wait is.\<close>

lemma deadline_exact:
  assumes "0 \<le> sint d" and "sint now + sint d < 2 ^ 63" and "0 \<le> sint now"
  shows "sint (time_add now d) = sint now + sint d"
    and "time_subtract (time_add now d) now = d"
    and "less_than now (time_add now d) \<longleftrightarrow> d \<noteq> 0"
proof -
  show eq: "sint (time_add now d) = sint now + sint d"
    using assms by (simp add: time_add_def sint_add)
  show "time_subtract (time_add now d) now = d" by (simp add: time_subtract_def time_add_def)
  have "d = 0" if "sint d = 0"
    using arg_cong [OF that, of "word_of_int :: int \<Rightarrow> 64 word"] by simp
  then have "sint d = 0 \<longleftrightarrow> d = 0" by auto
  with eq assms(1) show "less_than now (time_add now d) \<longleftrightarrow> d \<noteq> 0" by (auto simp: less_than_def)
qed


text \<open>A timeout in seconds that fits.\<close>

lemma seconds_exact:
  assumes "uint s \<le> 4 * 10 ^ 9"
  shows "sint s = uint s" and "sint (of_seconds s) = 10 ^ 9 * uint s"
    and "to_posix_duration (of_seconds s) = 10 ^ 6 * s"
proof -
  obtain k where n: "uint s = int k" using zero_le_imp_eq_int [of "uint s"] by auto
  have "signed_take_bit 63 (uint s) = uint s"
    by (rule signed_take_bit_int_eq_self) (use assms in \<open>simp_all add: n\<close>)
  then show s: "sint s = uint s" by (simp add: sint_uint)
  show "sint (of_seconds s) = 10 ^ 9 * uint s"
    using assms sint_mult [of s 1000000000] unfolding of_seconds_def s n by (simp add: mult.commute)
  have "of_posix (10 ^ 6 * s) = of_seconds s" by (simp add: of_posix_def of_seconds_def)
  moreover have "sint (10 ^ 6 * s) = 10 ^ 6 * int k"
    using assms sint_mult [of "10 ^ 6" s] unfolding s n by simp
  ultimately show "to_posix_duration (of_seconds s) = 10 ^ 6 * s"
    using posix_roundtrip [of "10 ^ 6 * s"] assms unfolding n by simp
qed

end
