(* ===== verification/Logging.thy ===== *)
theory Logging
  imports Prelude
begin

text \<open>
  The severity levels of include/log.hpp, their order (log filters compare severities), their
  names, and the stream operators that print and parse them.
\<close>

datatype severity_level =
  flood | trace | debug | info | normal | notify | warning | error_level | critical | global | silence

definition severity_index :: "severity_level \<Rightarrow> nat" where
  "severity_index l = (case l of flood \<Rightarrow> 0 | trace \<Rightarrow> 1 | debug \<Rightarrow> 2 | info \<Rightarrow> 3 | normal \<Rightarrow> 4
     | notify \<Rightarrow> 5 | warning \<Rightarrow> 6 | error_level \<Rightarrow> 7 | critical \<Rightarrow> 8 | global \<Rightarrow> 9 | silence \<Rightarrow> 10)"

definition severity_of_index :: "nat \<Rightarrow> severity_level" where
  "severity_of_index i =
     [flood, trace, debug, info, normal, notify, warning, error_level, critical, global, silence] ! i"

definition level_strings :: "string list" where
  "level_strings = [''FLOOD'', ''TRACE'', ''DEBUG'', ''INFO'', ''NORMAL'', ''NOTIFY'', ''WARNING'',
     ''ERROR'', ''CRITICAL'', ''GLOBAL'', ''SILENCE'']"

instantiation severity_level :: linorder
begin

definition less_eq_severity_level :: "severity_level \<Rightarrow> severity_level \<Rightarrow> bool" where
  "less_eq_severity_level a b \<longleftrightarrow> severity_index a \<le> severity_index b"

definition less_severity_level :: "severity_level \<Rightarrow> severity_level \<Rightarrow> bool" where
  "less_severity_level a b \<longleftrightarrow> severity_index a < severity_index b"

instance
proof
  fix a b :: severity_level
  show "a \<le> b \<Longrightarrow> b \<le> a \<Longrightarrow> a = b"
    by (cases a; cases b) (simp_all add: less_eq_severity_level_def severity_index_def)
qed (auto simp: less_eq_severity_level_def less_severity_level_def)

end

text \<open>\<open>operator<<\<close> indexes the table of names.\<close>

definition print_severity :: "severity_level \<Rightarrow> string" where
  "print_severity l = level_strings ! severity_index l"

text \<open>ASCII \<open>boost::to_upper\<close>.\<close>

definition to_upper :: "char \<Rightarrow> char" where
  "to_upper c = (if 97 \<le> (of_char c :: nat) \<and> (of_char c :: nat) \<le> 122
     then char_of (of_char c - 32 :: nat) else c)"

text \<open>
  \<open>operator>>\<close>: the loop over the table stops at the first equal name; a name that is not in the
  table leaves the level as it was.
\<close>

fun find_level :: "string list \<Rightarrow> nat \<Rightarrow> string \<Rightarrow> severity_level \<Rightarrow> severity_level" where
  "find_level [] i v level = level"
| "find_level (n # names) i v level =
     (if n = v then severity_of_index i else find_level names (Suc i) v level)"

definition parse_severity :: "string \<Rightarrow> severity_level \<Rightarrow> severity_level" where
  "parse_severity word level = find_level level_strings 0 (map to_upper word) level"

lemma find_level_absent: "v \<notin> set names \<Longrightarrow> find_level names i v level = level"
  by (induction names arbitrary: i) auto

lemma severity_names_nat: "severity_of_index (severity_index l) = l"
  by (cases l) (simp_all add: severity_of_index_def severity_index_def)

lemma parse_print_severity: "map to_upper w = print_severity l \<Longrightarrow> parse_severity w l' = l"
  unfolding parse_severity_def
  by (cases l) (simp_all add: print_severity_def severity_index_def level_strings_def
      severity_of_index_def)

end
