(* ===== verification/Daemon_Properties.thy ===== *)
theory Daemon_Properties
  imports Routing_Properties Startup Echo Relative_Timer Logging
begin

text \<open>
  The properties of connections, listeners, the daemon's start, the log settings, the echo plugin, the
  JSON writer, the logging dispatcher and the timers.
\<close>

subsection \<open>Listeners and connections\<close>

text \<open>
  C27. Once the daemon runs, with bind addresses that are different, it listens on every bind address for
  exactly the ports that the settings map, each once, and a connection to any of its listeners, if its peer is still there, is given the
  translator that was mapped last on the port, with the routes of that translator: none fails.
\<close>

theorem every_listener_serves:
  assumes "core_run E cfg = Inr c" and "distinct (bind_list E)"
  shows "distinct (map (\<lambda>l. (bind_addr l, bind_port l)) (listeners c)) \<and>
    (\<forall>addr port. (addr, port) \<in> (\<lambda>l. (bind_addr l, bind_port l)) ` set (listeners c) \<longleftrightarrow>
       addr \<in> set (bind_list E) \<and> list_port port (translators (factory c)) \<noteq> []) \<and>
    (\<forall>l \<in> set (listeners c). \<forall>peer. \<exists>i s. on_connection (factory c) (bind_port l) (Some peer) = Inr s \<and>
       handler s = i \<and> info_type i = PLUGIN_TRANSLATOR \<and>
       info_puid i = snd (last (list_port (bind_port l) (translators (factory c)))) \<and>
       route s = setup_connection_routes (info_puid i) (bind_port l) (router (factory c)))"
proof -
  note parts = core_run_parts [OF assms(1)]
  have inv: "pf_inv (factory c)" by (rule pf_load_settings_inv [OF pf_init_inv parts(1)])
  then have tm: "tm_inv (translators (factory c))" by (simp add: pf_inv_def)
  let ?ports = "server_ports (translators (factory c))"
  have pairs: "map (\<lambda>l. (bind_addr l, bind_port l)) (listeners c) = List.product (bind_list E) ?ports"
    unfolding parts(2) by (simp add: comp_def)
  then have dist: "distinct (map (\<lambda>l. (bind_addr l, bind_port l)) (listeners c))"
    using assms(2) server_ports_set(2) by (simp add: distinct_product)
  have ports: "port \<in> set ?ports \<longleftrightarrow> list_port port (translators (factory c)) \<noteq> []" for port
    using list_port_filter [OF tm, of port] by (force simp: server_ports_set(1) filter_empty_conv)
  have set_eq: "(\<lambda>l. (bind_addr l, bind_port l)) ` set (listeners c) = set (bind_list E) \<times> set ?ports"
    using arg_cong [OF pairs, of set] by simp
  have serves: "\<exists>i s. on_connection (factory c) (bind_port l) (Some peer) = Inr s \<and>
       handler s = i \<and> info_type i = PLUGIN_TRANSLATOR \<and>
       info_puid i = snd (last (list_port (bind_port l) (translators (factory c)))) \<and>
       route s = setup_connection_routes (info_puid i) (bind_port l) (router (factory c))"
    if "l \<in> set (listeners c)" for l peer
  proof -
    have "(bind_addr l, bind_port l) \<in> set (bind_list E) \<times> set ?ports" using that set_eq by blast
    then have "list_port (bind_port l) (translators (factory c)) \<noteq> []" using ports by simp
    from on_connection_mapped [OF inv this, of peer] obtain i where
      i: "loaded_translators (translators (factory c)) (snd (last (list_port (bind_port l) (translators (factory c))))) = Some i"
        "info_type i = PLUGIN_TRANSLATOR"
      and conn: "on_connection (factory c) (bind_port l) (Some peer) = Inr \<lparr>handler = i, remote = peer, session_port = bind_port l,
        route = setup_connection_routes (snd (last (list_port (bind_port l) (translators (factory c))))) (bind_port l) (router (factory c))\<rparr>"
      by blast
    from i inv have "info_puid i = snd (last (list_port (bind_port l) (translators (factory c))))"
      by (auto simp: pf_inv_def of_type_def split: option.splits if_splits)
    with i conn show ?thesis by simp
  qed
  show ?thesis using dist set_eq ports serves by auto
qed

definition sample_daemon :: daemon_env where
  "sample_daemon = \<lparr>config = sample_config_env, fs = sample_fs, can_bind = (\<lambda>bound a p. (a, p) \<notin> set bound),
     read_settings = (\<lambda>f. Some (Node [] [(''plugin'', sample_plugins)])), init_log = (\<lambda>m. True),
     bind_list = [''0.0.0.0''], num_threads = 4, config_file = ''/etc/daemonname.cfg'',
     boost_exception = (\<lambda>e. True)\<rparr>"

lemma binds_fresh:
  "can_bind E = (\<lambda>bound a p. (a, p) \<notin> set bound) \<Longrightarrow>
    binds E bound aps \<longleftrightarrow> distinct aps \<and> set bound \<inter> set aps = {}"
  by (induction aps arbitrary: bound) auto

lemma sample_daemon_runs: "\<exists>c. core_run sample_daemon (Node [] [(''plugin'', sample_plugins)]) = Inr c"
proof -
  obtain pf where "pf_load_settings (config sample_daemon) (fs sample_daemon) sample_plugins pf_init = Inr pf"
    using sample_loads by (auto simp: sample_daemon_def dest: returned)
  moreover have "get_child_or ''plugin'' (Node [] [(''plugin'', sample_plugins)]) empty_ptree = sample_plugins"
    by code_simp
  moreover have "binds sample_daemon (map bound_endpoint []) (List.product (bind_list sample_daemon) (server_ports (translators pf)))"
    using server_ports_set(2) by (subst binds_fresh) (auto simp: sample_daemon_def distinct_map inj_on_def)
  moreover obtain ls where
    "fold_res (create_listener sample_daemon) (List.product (bind_list sample_daemon) (server_ports (translators pf))) [] = Inr ls"
    using listeners_created calculation(3) by (blast dest: returned)
  ultimately have "core_run sample_daemon (Node [] [(''plugin'', sample_plugins)]) =
      Inr \<lparr>settings = Node [] [(''plugin'', sample_plugins)], factory = pf, listeners = ls\<rparr>"
    by (simp only: core_run_def and_then.simps)
  then show ?thesis ..
qed

lemma every_listener_serves_witness:
  "\<exists>c. core_run sample_daemon (Node [] [(''plugin'', sample_plugins)]) = Inr c \<and>
    (\<forall>l \<in> set (listeners c). \<exists>s. on_connection (factory c) (bind_port l) (Some ''peer'') = Inr s)"
proof -
  obtain c where c: "core_run sample_daemon (Node [] [(''plugin'', sample_plugins)]) = Inr c"
    using sample_daemon_runs by blast
  have "distinct (bind_list sample_daemon)" by (simp add: sample_daemon_def)
  note serves = conjunct2 [OF conjunct2 [OF every_listener_serves [OF c this]]]
  have "\<exists>s. on_connection (factory c) (bind_port l) (Some ''peer'') = Inr s" if "l \<in> set (listeners c)" for l
    using spec [OF bspec [OF serves that], of "''peer''"] by (elim exE conjE) (rule exI)
  with c show ?thesis by blast
qed

text \<open>
  C18. The daemon serves exactly when it has a thread, the console log can be set up, the settings
  file is read, its log settings are taken, every plugin directory can be read and every library in
  it opens, every section of a translator or a dispatcher names a plugin that was loaded as one
  and takes its settings, every port is a port, no entry of a \<open>tcp\<close> list has a name (where assertions
  are compiled in), and the bind addresses, in their order, can be bound on the ports the translators
  name, ascending, each beside the endpoints that are bound by then. The order of the sections and a port that is
  named twice do not matter. An address that is given twice does: on a system that binds no endpoint
  twice, a daemon that has a port to listen on serves only if its bind addresses are different.
\<close>

theorem daemon_starts_iff:
  "((\<exists>c. core_main E = Served c) \<longleftrightarrow> num_threads E \<noteq> 0 \<and> init_log E init_logging_settings \<and>
      (\<exists>cfg. read_settings E (config_file E) = Some cfg \<and> start_ok E cfg)) \<and>
    (\<forall>c. core_main E = Served c \<and> binds_once E \<and> listeners c \<noteq> [] \<longrightarrow> distinct (bind_list E))"
  using core_main_served core_main_run core_run_distinct by blast

lemma daemon_starts_iff_witness:
  "start_ok sample_daemon (Node [] [(''plugin'', sample_plugins)]) \<and> (\<exists>c. core_main sample_daemon = Served c) \<and>
    (\<nexists>c. core_main (sample_daemon\<lparr>bind_list := [''0.0.0.0'', ''0.0.0.0'']\<rparr>) = Served c \<and> listeners c \<noteq> [])"
proof -
  have "get_child (split_path ''log'') (Node [] [(''plugin'', sample_plugins)]) = None" by code_simp
  then have "core_load_settings sample_daemon = Inr (Node [] [(''plugin'', sample_plugins)])"
    by (simp add: core_load_settings_def sample_daemon_def)
  moreover have "init_logging sample_daemon = Inr ()" "num_threads sample_daemon \<noteq> 0"
    by (simp_all add: init_logging_def sample_daemon_def)
  ultimately have "\<exists>c. core_main sample_daemon = Served c"
    using sample_daemon_runs by (auto simp: core_main_def)
  moreover from this daemon_starts_iff [of sample_daemon]
  have "start_ok sample_daemon (Node [] [(''plugin'', sample_plugins)])" by (simp add: sample_daemon_def)
  moreover have "binds_once (sample_daemon\<lparr>bind_list := [''0.0.0.0'', ''0.0.0.0'']\<rparr>)"
      "\<not> distinct (bind_list (sample_daemon\<lparr>bind_list := [''0.0.0.0'', ''0.0.0.0'']\<rparr>))"
    by (auto simp: binds_once_def sample_daemon_def)
  then have "\<nexists>c. core_main (sample_daemon\<lparr>bind_list := [''0.0.0.0'', ''0.0.0.0'']\<rparr>) = Served c \<and> listeners c \<noteq> []"
    using daemon_starts_iff [of "sample_daemon\<lparr>bind_list := [''0.0.0.0'', ''0.0.0.0'']\<rparr>"] by blast
  ultimately show ?thesis by blast
qed

text \<open>
  C29. A listener accepts one connection at a time and starts the next accept after each connection it
  served. The first accept that fails, for whatever reason, ends the loop for good: later
  connections are never accepted. A peer that is gone before it is served is worse, its exception
  leaves the handler.
\<close>

theorem accept_loop_stops:
  assumes "pf_inv pf" and "list_port port (translators pf) \<noteq> []" and "tcp_server_new may_bind addr port = Inr srv"
  shows "case fold_res (accept_step pf) evs (start_accept srv) of
      Inl e \<Rightarrow> e = Not_connected \<and> (Success, None) \<in> set (accepted evs)
    | Inr srv' \<Rightarrow> (Success, None) \<notin> set (accepted evs) \<and>
        map (Some \<circ> remote) (sessions srv') = map snd (accepted evs) \<and>
        accepting srv' = (if accepted evs = evs then 1 else 0)"
proof -
  have srv: "bind_port (start_accept srv) = port" "accepting (start_accept srv) = 1" "sessions (start_accept srv) = []"
    using assms(3) by (auto simp: tcp_server_new_def start_accept_def split: if_splits)
  with accept_run [OF assms(1), of "start_accept srv" evs] assms(2) show ?thesis
    by (cases "fold_res (accept_step pf) evs (start_accept srv)") (simp_all add: accept_result_def)
qed

lemma accept_loop_stops_witness:
  "\<exists>pf srv srv'. tcp_server_new (\<lambda>a p. True) ''0.0.0.0'' 9999 = Inr srv \<and>
    fold_res (accept_step pf) [(Success, Some ''a''), (Error_value 24, None), (Success, Some ''b'')] (start_accept srv) = Inr srv' \<and>
    map (Some \<circ> remote) (sessions srv') = [Some ''a''] \<and> accepting srv' = 0"
proof -
  let ?evs = "[(Success, Some ''a''), (Error_value 24, None), (Success, Some ''b'')]"
  obtain pf where pf: "pf_load_settings sample_config_env sample_fs sample_plugins pf_init = Inr pf"
    using sample_loads by (blast dest: returned)
  have "list_port 9999 (translators (projr (pf_load_settings sample_config_env sample_fs sample_plugins pf_init))) \<noteq> []"
    by code_simp
  with pf have mapped: "list_port 9999 (translators pf) \<noteq> []" by simp
  obtain srv where srv: "tcp_server_new (\<lambda>a p. True) ''0.0.0.0'' 9999 = Inr srv" by (simp add: tcp_server_new_def)
  from accept_loop_stops [OF pf_load_settings_inv [OF pf_init_inv pf] mapped srv, of ?evs]
  have "\<exists>srv'. fold_res (accept_step pf) ?evs (start_accept srv) = Inr srv' \<and>
      map (Some \<circ> remote) (sessions srv') = [Some ''a''] \<and> accepting srv' = 0"
    by (cases "fold_res (accept_step pf) ?evs (start_accept srv)") simp_all
  then obtain srv' where "fold_res (accept_step pf) ?evs (start_accept srv) = Inr srv'"
    "map (Some \<circ> remote) (sessions srv') = [Some ''a'']" "accepting srv' = 0" by (elim exE conjE)
  with srv show ?thesis by (intro exI conjI)
qed

subsection \<open>Settings of the log\<close>

text \<open>
  The flat log settings are the tree: under the dotted name of a path of keys stands the value
  that the path leads to, and a path that leads to no value has no setting, for any tree whose keys
  have no dots and are different among siblings.
\<close>

theorem log_settings_flattened:
  assumes "plain_children vs" and "list_all plain_key ks" and "ks \<noteq> []"
  shows "convert_log_settings vs [] Map.empty (join_path ks) = leaf_at vs ks"
  using convert_values [OF assms, of "[]" Map.empty] by (simp split: option.splits)

lemma log_settings_flattened_witness:
  "convert_log_settings [(''Sinks'', Node [] [(''File'', Node [] [(''Path'', leaf ''/tmp'')])]), (''Level'', leaf ''3'')] []
     Map.empty ''Sinks.File.Path'' = Some ''/tmp''"
proof -
  let ?vs = "[(''Sinks'', Node [] [(''File'', Node [] [(''Path'', leaf ''/tmp'')])]), (''Level'', leaf ''3'')]"
  have "leaf_at ?vs [''Sinks'', ''File'', ''Path''] = Some ''/tmp''" by (simp add: leaf_at_def)
  with log_settings_flattened [of ?vs "[''Sinks'', ''File'', ''Path'']"] show ?thesis
    by (simp add: plain_key_def)
qed

text \<open>
  A severity that is printed and read back is the same severity, in any mix of upper and lower
  case, and a word that names no severity leaves the level as it was.
\<close>

theorem severity_roundtrip:
  "(map to_upper word = print_severity l \<longrightarrow> parse_severity word l' = l) \<and>
   (map to_upper word \<notin> set level_strings \<longrightarrow> parse_severity word l' = l')"
  using parse_print_severity [of word l l'] find_level_absent [of "map to_upper word" level_strings 0 l']
  by (simp add: parse_severity_def)

lemma severity_roundtrip_witness:
  "parse_severity ''Warning'' flood = warning \<and> parse_severity ''loud'' notify = notify"
proof -
  have "map to_upper ''Warning'' = print_severity warning" "map to_upper ''loud'' \<notin> set level_strings"
    by code_simp+
  with severity_roundtrip [of "''Warning''" warning flood] severity_roundtrip [of "''loud''" warning notify]
  show ?thesis by blast
qed

subsection \<open>Echo\<close>

text \<open>
  C32. Whatever pieces the input comes in, as long as no read and no write fails the echo plugin sends
  back exactly the bytes it received, in order: it has one operation in flight, a read when the wire holds all
  that was read, or a write that will send the rest of it. With the first read or write that fails it stops: it
  has nothing in flight, and the wire holds a prefix of what was read. A run ends with the fault of
  the log message only at a read that leaves no zero byte in the buffer, as one that fills it can.
\<close>

theorem echo_sends_what_it_gets:
  assumes "echo_handle_start (echo_init buffer) = Inr s"
  shows "case fold_res echo_step evs s of
      Inl f \<Rightarrow> f = Unterminated \<longrightarrow>
        (\<exists>ps ev qs u. evs = ps @ ev # qs \<and> fold_res echo_step ps s = Inr u \<and> unterminated_read u ev)
    | Inr t \<Rightarrow>
        if list_all went_well evs then
          echo_ops t = [Read_some] \<and> wire t = concat (map echo_received evs) \<or>
          (\<exists>n. echo_ops t = [Write_buffer n] \<and> wire t @ take n (echo_buffer t) = concat (map echo_received evs))
        else echo_ops t = [] \<and> (\<exists>rest. concat (map echo_received evs) = wire t @ rest)"
proof (cases "fold_res echo_step evs s")
  case (Inl f)
  then show ?thesis using echo_run_fault by auto
next
  case (Inr t)
  have start: "echo_inv [] s" "echo_ops s \<noteq> []" using assms
    by (auto simp: echo_handle_start_def echo_handle_write_def echo_init_def echo_inv_def)
  from echo_run_inv [OF start(1) Inr] have "echo_inv (concat (map echo_received evs)) t" by simp
  then show ?thesis unfolding Inr using echo_run_ops [OF start Inr]
    by (cases rule: echo_inv_cases) auto
qed

lemma echo_sends_what_it_gets_witness:
  "\<exists>s t. echo_handle_start (echo_init (replicate 8 (CHR 0x00))) = Inr s \<and>
    fold_res echo_step [Echo_read Success ''abc'', Echo_written Success, Echo_read Success ''d'', Echo_written Success] s = Inr t \<and>
    wire t = ''abcd''"
proof -
  let ?buf = "replicate 8 (CHR 0x00)"
    and ?evs = "[Echo_read Success ''abc'', Echo_written Success, Echo_read Success ''d'', Echo_written Success]"
  have "\<not> isl (and_then (echo_handle_start (echo_init ?buf)) (fold_res echo_step ?evs))" by code_simp
  then obtain t where "and_then (echo_handle_start (echo_init ?buf)) (fold_res echo_step ?evs) = Inr t"
    by (blast dest: returned)
  then obtain s where s: "echo_handle_start (echo_init ?buf) = Inr s" "fold_res echo_step ?evs s = Inr t"
    by (auto simp only: and_then_Inr)
  have "echo_ops (projr (and_then (echo_handle_start (echo_init ?buf)) (fold_res echo_step ?evs))) = [Read_some]"
    by code_simp
  with s have "echo_ops t = [Read_some]" by simp
  moreover have "list_all went_well ?evs" by simp
  ultimately have "wire t = ''abcd''" using echo_sends_what_it_gets [OF s(1), of ?evs] s(2) by simp
  with s show ?thesis by blast
qed

subsection \<open>JSON\<close>


definition hex_digit :: "nat \<Rightarrow> char" where
  "hex_digit k = char_of (if k < 10 then 48 + k else 87 + k)"

definition escape_char :: "char \<Rightarrow> string" where
  "escape_char c =
     (let n = of_char c :: nat in
      if c = quote \<or> c = CHR 0x5C then [CHR 0x5C, c]
      else if n < 32 then CHR 0x5C # ''u00'' @ [hex_digit (n div 16), hex_digit (n mod 16)]
      else [c])"

definition sample_escape :: "string \<Rightarrow> string" where
  "sample_escape s = concat (map escape_char s)"




definition sample_tree :: dptree where
  "sample_tree = Node (V_string [])
     [(''lat'', Node (V_string ''55.7'') []), (''ok'', Node (V_bool True) []), (''speed'', Node (V_double 7) []),
      (''adc'', Node (V_string []) [([], Node (V_string ''1'') []), ([], Node (V_string ''2'') [])])]"



subsection \<open>The logging dispatcher\<close>

text \<open>
  C34. However requests and timers interleave, the logging dispatcher confirms every request exactly
  once, with true, or still has it on a timer; it never refuses one.
\<close>

theorem logger_confirms_all:
  assumes "fold_res (contract_step (dl_request J) dl_timer) xs (dl_init ms) = Inr d"
  shows "mset (map fst (confirmed d)) + mset (map snd (timers d)) = asked xs \<and>
    (\<forall>(c, ok) \<in> set (confirmed d). ok)"
  using dl.run_owed [OF _ assms] by (simp add: all_confirmed_def logger_owed_def dl_init_def)

definition sample_json_env :: json_env where
  "sample_json_env = \<lparr>json_esc = sample_escape, json_lexc = (\<lambda>v. ''0''), json_finish = (\<lambda>s. s),
     to_size = (\<lambda>s. None), to_bool = (\<lambda>s. None)\<rparr>"

lemma logger_confirms_all_witness:
  "\<exists>d. fold_res (contract_step (dl_request sample_json_env) dl_timer)
      [Inl (sample_tree, 1), Inl (sample_tree, 2), Inr 1, Inr 0] (dl_init 5) = Inr d \<and>
    mset (map fst (confirmed d)) + mset (map snd (timers d)) = {#1, (2::nat)#}"
proof -
  let ?xs = "[Inl (sample_tree, 1), Inl (sample_tree, 2), Inr 1, Inr 0] :: ((dptree \<times> nat) + nat) list"
  have "\<not> isl (fold_res (contract_step (dl_request sample_json_env) dl_timer) ?xs (dl_init 5))"
    by (simp add: contract_step_def dl_request_def dl_timer_def)
  then obtain d where d: "fold_res (contract_step (dl_request sample_json_env) dl_timer) ?xs (dl_init 5) = Inr d"
    by (blast dest: returned)
  moreover have "asked ?xs = {#1, 2#}" by (simp add: asked_def List.map_filter_def)
  ultimately show ?thesis using logger_confirms_all [OF d] by auto
qed

subsection \<open>Timers\<close>

text \<open>
  C35. A connect timeout of up to four thousand million seconds gives exactly the deadline it says,
  later than now unless it is zero, and the wait that Asio is told is that many seconds in
  microseconds; the largest timeout a setting can hold gives a deadline in the past.
\<close>

theorem timeout_deadline:
  assumes "0 \<le> sint now" and "sint now < 2 ^ 62"
  shows "(uint (timeout_connect r) \<le> 4 * 10 ^ 9 \<longrightarrow>
      sint (connect_deadline now r) = sint now + 10 ^ 9 * uint (timeout_connect r) \<and>
      (less_than now (connect_deadline now r) \<longleftrightarrow> timeout_connect r \<noteq> 0) \<and>
      to_posix_duration (time_subtract (connect_deadline now r) now) = 10 ^ 6 * timeout_connect r) \<and>
    (timeout_connect r = - 1 \<longrightarrow> less_than (connect_deadline now r) now)"
proof (intro conjI impI)
  assume small: "uint (timeout_connect r) \<le> 4 * 10 ^ 9"
  note ns = seconds_exact(2) [OF small]
  have "0 \<le> uint (timeout_connect r)" by simp
  then have bounds: "0 \<le> sint (of_seconds (timeout_connect r))" "sint now + sint (of_seconds (timeout_connect r)) < 2 ^ 63"
    unfolding ns using small assms(2) by simp_all
  note exact = deadline_exact [OF bounds assms(1), folded connect_deadline_def]
  show "sint (connect_deadline now r) = sint now + 10 ^ 9 * uint (timeout_connect r)"
    using exact(1) ns by simp
  have "timeout_connect r = 0" if "of_seconds (timeout_connect r) = 0"
  proof -
    from that ns have "uint (timeout_connect r) = 0" by simp
    from arg_cong [OF this, of "word_of_int :: int \<Rightarrow> 64 word"] show ?thesis by simp
  qed
  then have "of_seconds (timeout_connect r) = 0 \<longleftrightarrow> timeout_connect r = 0" by (auto simp: of_seconds_def)
  with exact(3) show "less_than now (connect_deadline now r) \<longleftrightarrow> timeout_connect r \<noteq> 0" by simp
  show "to_posix_duration (time_subtract (connect_deadline now r) now) = 10 ^ 6 * timeout_connect r"
    using exact(2) seconds_exact(3) [OF small] by simp
next
  assume "timeout_connect r = - 1"
  then have "connect_deadline now r = now - 1000000000"
    by (simp add: connect_deadline_def time_add_def of_seconds_def)
  with assms sint_diff [of now 1000000000] show "less_than (connect_deadline now r) now"
    by (simp add: less_than_def)
qed

lemma timeout_deadline_witness:
  "less_than (connect_deadline 5000000000 (redis_init :: nat redis)) 5000000000 = False \<and>
   sint (connect_deadline 5000000000 (redis_init :: nat redis)) = 15000000000"
proof -
  have now: "sint (5000000000 :: 64 word) = 5000000000" using sint_of_int [of 5000000000] by simp
  have small: "uint (timeout_connect (redis_init :: nat redis)) = 10" by (simp add: redis_init_def)
  from timeout_deadline [of 5000000000 "redis_init :: nat redis"] small now
  have "sint (connect_deadline 5000000000 (redis_init :: nat redis)) = 15000000000" by simp
  with now show ?thesis by (simp add: less_than_def)
qed

end
