(* ===== verification/System.thy ===== *)
theory System
  imports Wialon_Blackbox Connection
begin

text \<open>
  A connection put together: the Wialon translator behind \<open>connection\<close>, its login asked of the
  request router, its data handed to the routes of the connection.
\<close>

subsection \<open>The parts of a session\<close>

text \<open>What \<open>on_connection\<close> binds to \<open>papi->authenticate\<close>.\<close>

definition session_env :: "session \<Rightarrow> 't wialon_env \<Rightarrow> 't wialon_env" where
  "session_env s E = E\<lparr>api_authenticate := session_authenticate s\<rparr>"

text \<open>
  A completion on the socket: a read put \<open>bytes\<close> behind the stream buffer and reports \<open>n\<close>, a write
  reports its error; the translator is called as \<open>connection\<close> calls it.
\<close>

datatype socket_event =
    Socket_read error_code nat string
  | Socket_written error_code

definition socket_step :: "session \<Rightarrow> 't wialon_env \<Rightarrow> socket_event \<Rightarrow> 't wialon_plugin \<Rightarrow> 't wialon_result" where
  "socket_step s E ev w =
     and_then
       (case ev of
          Socket_read ec n bytes \<Rightarrow>
            conn_handle_read (\<lambda>_. handle_read (session_env s E)) ec n (w\<lparr>sbuf := sbuf w @ bytes\<rparr>)
        | Socket_written ec \<Rightarrow> conn_handle_write (\<lambda>w. Inr (handle_write w)) ec w)
       (\<lambda>(log, w'). Inr w')"

abbreviation session_run ::
  "session \<Rightarrow> 't wialon_env \<Rightarrow> socket_event list \<Rightarrow> 't wialon_plugin \<Rightarrow> 't wialon_result" where
  "session_run s E evs w \<equiv> fold_res (socket_step s E) evs (handle_start w)"

text \<open>The router's side of a call of the translator: a tree goes to the routes, with its callback.\<close>

definition serve_call ::
  "session \<Rightarrow> 'c \<Rightarrow> api_call \<Rightarrow> (nat option, 'c) router_io \<Rightarrow> combiner_fault + (nat option, 'c) router_io" where
  "serve_call s cb call io =
     (case call of Process_data r \<Rightarrow> session_process_data s r cb io | _ \<Rightarrow> Inr io)"

lemma session_env_simps [simp]:
  "tokenize (session_env s E) = tokenize E"
  "tree_new (session_env s E) = tree_new E"
  "tree_put (session_env s E) = tree_put E"
  "tree_get (session_env s E) = tree_get E"
  "tree_get_size (session_env s E) = tree_get_size E"
  "api_authenticate (session_env s E) login pass = Some True"
  by (simp_all add: session_env_def session_authenticate_def rr_authenticate_def)

lemma session_world: "wialon_world E \<Longrightarrow> wialon_world (session_env s E)"
  by (simp add: wialon_world_def)

lemma session_record_tree [simp]: "record_tree (session_env s E) c fs = record_tree E c fs"
  by (simp add: record_tree_def put_all_def)

lemma socket_read_step:
  "0 < n \<Longrightarrow> socket_step s E (Socket_read Success n bytes) w =
    handle_read (session_env s E) (w\<lparr>sbuf := sbuf w @ bytes\<rparr>)"
  by (cases "handle_read (session_env s E) (w\<lparr>sbuf := sbuf w @ bytes\<rparr>)")
    (simp_all add: socket_step_def conn_handle_read_def)

subsection \<open>Logging in\<close>

text \<open>Any login and password are accepted.\<close>

lemma session_login:
  fixes E :: "'t wialon_env"
  assumes "wialon_world E" and "field_text login" and "field_text pass" and "0 < n"
  shows "\<exists>w. session_run s E [Socket_read Success n (message ''L'' (join_fields [login, pass]) @ crlf)]
      (wialon_init buf est multi err c) = Inr w \<and>
    idle_inv w \<and> authenticated w \<and> sbuf w = [] \<and>
    api_calls w = [Do_read_until crlf, Authenticate login pass, Do_write (''#AL#1'' @ crlf), Do_read_until crlf]"
proof -
  let ?w = "(handle_start (wialon_init buf est multi err c))
    \<lparr>sbuf := message ''L'' (join_fields [login, pass]) @ crlf\<rparr> :: 't wialon_plugin"
  have idle: "idle_inv ?w"
    by (simp add: idle_inv_def handle_start_def wialon_init_def tree_ok_def login_ok_def published_def)
  have "sbuf ?w = message ''L'' (join_fields [login, pass]) @ crlf @ []"
    "api_authenticate (session_env s E) login pass = Some True" by simp_all
  from wialon_world.read_login [OF session_world [OF assms(1)] idle assms(2,3) this]
  obtain w where w: "handle_read (session_env s E) ?w = Inr w" "authenticated w = (authenticated ?w \<or> True)"
      "api_calls w = api_calls ?w @ [Authenticate login pass,
        Do_write (reply_text ''L'' (if True then ''1'' else ''01'')), Do_read_until crlf]"
    by (elim exE conjE) (rule that; assumption)
  have lf: "LF \<notin> set (message ''L'' (join_fields [login, pass]))"
    using join_fields_no_lf [of "[login, pass]"] assms(2,3) by (simp add: message_def)
  have "sbuf w = []" using handle_read_sbuf [OF w(1) lf, of "[]"] by simp
  moreover have "idle_inv w"
    by (rule wialon_world.handle_read_idle [OF session_world [OF assms(1)] idle w(1)])
  moreover have "socket_step s E (Socket_read Success n (message ''L'' (join_fields [login, pass]) @ crlf))
      (handle_start (wialon_init buf est multi err c)) = Inr w"
    using w(1) assms(4) by (simp add: socket_read_step handle_start_def wialon_init_def)
  ultimately show ?thesis
    using w(2,3) by (simp add: reply_text_def handle_start_def wialon_init_def)
qed

subsection \<open>Which routes a session has\<close>

lemma on_connection_parts:
  assumes "pf_inv pf" and "on_connection pf port peer = Inr s"
  shows "info_puid (handler s) = port_translator port (translators pf)"
    and "route s = setup_connection_routes (info_puid (handler s)) port (router pf)"
proof -
  obtain i where i: "loaded_translators (translators pf) (port_translator port (translators pf)) = Some i" "handler s = i"
      "route s = setup_connection_routes (port_translator port (translators pf)) port (router pf)"
    using assms(2) by (auto simp: on_connection_def tm_create_def Let_def res_simps)
  from i(1) assms(1) have "info_puid i = port_translator port (translators pf)"
    by (auto simp: pf_inv_def of_type_def split: option.splits if_splits)
  with i show "info_puid (handler s) = port_translator port (translators pf)"
    "route s = setup_connection_routes (info_puid (handler s)) port (router pf)" by simp_all
qed

definition declared_dispatchers :: "config_env \<Rightarrow> fs_env \<Rightarrow> config \<Rightarrow> 16 word \<times> string \<Rightarrow> dispatcher list" where
  "declared_dispatchers C F cfg key =
     declared_targets C (\<lambda>u. of_type PLUGIN_DISPATCHER (chosen (scanned_plugins F cfg) u))
       (get_child_or ''dispatcher'' cfg empty_ptree) key"

lemma loaded_targets:
  assumes "pf_load_settings C F cfg pf_init = Inr pf"
  shows "targets (router pf) key = declared_dispatchers C F cfg key"
proof -
  let ?pf1 = "fold pf_register (scanned_plugins F cfg) pf_init"
  have "loaded_dispatchers (router ?pf1) = (\<lambda>u. of_type PLUGIN_DISPATCHER (chosen (scanned_plugins F cfg) u))"
    using pf_registers_inv [OF pf_init_inv, of "scanned_plugins F cfg"]
      registers_plugins [of "scanned_plugins F cfg" pf_init]
    by (auto simp: pf_inv_def pf_init_def)
  with load_settings_targets [OF pf_load_settings_parts(3) [OF assms], of key] show ?thesis
    by (simp add: declared_dispatchers_def pf_init_def rr_init_def)
qed

lemma session_data_posted:
  assumes "pf_load_settings C F cfg pf_init = Inr pf" and "on_connection pf port peer = Inr s"
    and "declared_dispatchers C F cfg (port, info_puid (handler s)) = ts"
  shows "\<exists>io'. session_process_data s t cb io = Inr io' \<and>
    posted io' = posted io @
      (if ts = [] then [Callback_false cb]
       else map (\<lambda>d. Handle_data d t (if length ts = 1 then Direct cb else Combined (length (combiners io)))) ts)"
proof -
  have inv: "pf_inv pf" by (rule pf_load_settings_inv [OF pf_init_inv assms(1)])
  then have "routes (router pf) key \<noteq> Some []" for key
    unfolding pf_inv_def routes_nonempty_def by blast
  moreover have "targets (router pf) (port, info_puid (handler s)) = ts"
    using loaded_targets [OF assms(1)] assms(3) by simp
  ultimately show ?thesis
    using rr_process_data_posted [of ts t cb io] on_connection_parts(2) [OF inv assms(2)]
    by (auto simp: session_process_data_def api_process_data_def setup_connection_routes_def targets_def
        helper_callback_false_def split: option.splits)
qed

subsection \<open>Messages of a session\<close>

lemma session_message:
  assumes "wialon_world E" and "idle_inv w" and "authenticated w" and "sbuf w = []"
    and k: "map_of estimates k = Some (n, c)" and c: "c \<in> {COMMAND_DATA, COMMAND_SHORTDATA, COMMAND_MESSAGE}"
    and fs: "length fs = n" "\<forall>f \<in> set fs. field_text f" and "0 < m"
  shows "\<exists>w'. socket_step s E (Socket_read Success m (message k (join_fields fs) @ crlf)) w = Inr w' \<and>
    trees w' = trees w @ [record_tree E c fs] \<and>
    api_calls w' = api_calls w @ [Process_data (Some (length (trees w))), Do_read_until crlf]"
proof -
  have "n \<noteq> 0" using k c by (elim estimates_cases) auto
  then have ne: "fs \<noteq> []" using fs(1) by auto
  have "idle_inv (w\<lparr>sbuf := message k (join_fields fs) @ crlf\<rparr>)" using assms(2) by simp
  from wialon_world.read_data [OF session_world [OF assms(1)] this _ k c ne fs(2), of "[]" s] assms(3) fs(1)
  have "\<exists>w'. handle_read (session_env s E) (w\<lparr>sbuf := message k (join_fields fs) @ crlf\<rparr>) = Inr w' \<and>
    trees w' = trees w @ [record_tree E c fs] \<and>
    api_calls w' = api_calls w @ [Process_data (Some (length (trees w))), Do_read_until crlf]"
    by simp
  with assms(4,9) show ?thesis by (simp add: socket_read_step)
qed

lemma session_image:
  assumes "wialon_world E" and "idle_inv w" and "authenticated w" and "sbuf w = []"
    and "field_text sz" and "tree_get_size E (record_tree E COMMAND_IMAGE [sz]) ''sz'' = None" and "0 < m"
  shows "socket_step s E (Socket_read Success m (message ''I'' sz @ crlf)) w = Inl Bad_data"
proof -
  have k: "map_of estimates ''I'' = Some (6, COMMAND_IMAGE)" by (simp add: estimates_def)
  have "idle_inv (w\<lparr>sbuf := message ''I'' (join_fields [sz]) @ crlf\<rparr>)" using assms(2) by simp
  from wialon_world.record_tree_size [OF assms(1), of "[sz]"]
  have "tree_get E (record_tree E COMMAND_IMAGE [sz]) ''sz'' = Some sz" by simp
  with wialon_world.read_fields [OF session_world [OF assms(1)] \<open>idle_inv (w\<lparr>sbuf := _\<rparr>)\<close> k, of "[sz]" "[]" s] assms(3,5,6)
  have "handle_read (session_env s E) (w\<lparr>sbuf := message ''I'' sz @ crlf\<rparr>) = Inl Bad_data"
    by (simp add: consume_eol_def commit_command_def parser_error_def body_start_def)
  with assms(4,7) show ?thesis by (simp add: socket_read_step)
qed

end
