(* ===== verification/Transport.thy ===== *)
theory Transport
  imports System
begin

text \<open>
  src/connection: the operations a connection starts on its socket for the translator (\<open>do_read_at_least\<close>,
  \<open>do_read_until\<close>, \<open>do_read_some\<close>, \<open>do_write\<close>, \<open>close\<close>), and the session as a system of the translator,
  the operations in flight and the wire. A write refers to the answer buffer of the translator: it sends
  what the buffer holds when the bytes leave.
\<close>

subsection \<open>Operations in flight\<close>

datatype read_op =
    Read_at_least nat
  | Read_until string
  | Read_into nat        \<comment> \<open>the size of the buffer\<close>

text \<open>Writes with their size and how much of it has been sent, in the order they were started.\<close>

record conn_io =
  reads :: "read_op list"
  writes :: "(nat \<times> nat) list"
  sent :: string
  shut :: bool

definition conn_io_init :: conn_io where
  "conn_io_init = \<lparr>reads = [], writes = [], sent = [], shut = False\<rparr>"

definition do_read_at_least :: "nat \<Rightarrow> conn_io \<Rightarrow> conn_io" where
  "do_read_at_least minimum io = io\<lparr>reads := reads io @ [Read_at_least minimum]\<rparr>"

definition do_read_until :: "string \<Rightarrow> conn_io \<Rightarrow> conn_io" where
  "do_read_until delim io = io\<lparr>reads := reads io @ [Read_until delim]\<rparr>"

definition do_read_some :: "nat \<Rightarrow> conn_io \<Rightarrow> conn_io" where
  "do_read_some capacity io = io\<lparr>reads := reads io @ [Read_into capacity]\<rparr>"

definition do_write :: "nat \<Rightarrow> conn_io \<Rightarrow> conn_io" where
  "do_write size_of_buffer io = io\<lparr>writes := writes io @ [(size_of_buffer, 0)]\<rparr>"

definition conn_close :: "conn_io \<Rightarrow> conn_io" where
  "conn_close io = io\<lparr>shut := True\<rparr>"

text \<open>
  When a read may report success with \<open>n\<close> bytes, \<open>buf\<close> being the unread bytes of the stream buffer
  (the documented conditions of Boost.Asio).
\<close>

definition read_ready :: "read_op \<Rightarrow> string \<Rightarrow> nat \<Rightarrow> bool" where
  "read_ready op buf n =
     (n \<le> length buf \<and>
      (case op of
         Read_at_least minimum \<Rightarrow> minimum \<le> n
       | Read_until delim \<Rightarrow> length delim \<le> n \<and> drop (n - length delim) (take n buf) = delim
       | Read_into capacity \<Rightarrow> 0 < n \<and> n \<le> capacity))"

subsection \<open>The session\<close>

text \<open>What \<open>papi\<close> does for each call of the translator.\<close>

definition issue :: "api_call \<Rightarrow> conn_io \<Rightarrow> conn_io" where
  "issue call io =
     (case call of
        Do_read_until delim \<Rightarrow> do_read_until delim io
      | Do_write bytes \<Rightarrow> do_write (length bytes) io
      | _ \<Rightarrow> io)"

definition issued :: "'t wialon_plugin \<Rightarrow> 't wialon_plugin \<Rightarrow> conn_io \<Rightarrow> conn_io" where
  "issued w w' io = fold issue (drop (length (api_calls w)) (api_calls w')) io"

text \<open>
  What can happen: the oldest read completes (with the bytes it added to the stream buffer), a write in
  flight sends some of its bytes, a write completes, or the answer to stored data arrives. Events without
  their operation change nothing.
\<close>

datatype conn_event =
    Read_completed error_code nat string
  | Part_sent nat nat
  | Write_completed nat error_code
  | Data_answer bool

definition remove_nth :: "nat \<Rightarrow> 'a list \<Rightarrow> 'a list" where
  "remove_nth i xs = take i xs @ drop (Suc i) xs"

type_synonym 't conn_state = "'t wialon_plugin \<times> conn_io"

definition then_issue ::
  "'t wialon_plugin \<Rightarrow> conn_io \<Rightarrow> 't wialon_result \<Rightarrow> wialon_fault + 't conn_state" where
  "then_issue w io r = and_then r (\<lambda>w'. Inr (w', issued w w' io))"

fun conn_step :: "session \<Rightarrow> 't wialon_env \<Rightarrow> conn_event \<Rightarrow> 't conn_state \<Rightarrow> wialon_fault + 't conn_state" where
  "conn_step s E (Read_completed ec n bytes) (w, io) =
     (case reads io of
        [] \<Rightarrow> Inr (w, io)
      | op # ops \<Rightarrow>
          if ec = Success \<and> \<not> read_ready op (sbuf w @ bytes) n then Inr (w, io)
          else then_issue w (io\<lparr>reads := ops\<rparr>) (socket_step s E (Socket_read ec n bytes) w))"
| "conn_step s E (Part_sent i k) (w, io) =
     (if i < length (writes io) \<and> snd (writes io ! i) + k \<le> fst (writes io ! i) then
        (case writes io ! i of
           (n, d) \<Rightarrow>
             Inr (w, io\<lparr>writes := (writes io)[i := (n, d + k)],
                        sent := sent io @ take k (drop d (answer_buffer w))\<rparr>))
      else Inr (w, io))"
| "conn_step s E (Write_completed i ec) (w, io) =
     (if i < length (writes io) \<and> (ec = Success \<longrightarrow> snd (writes io ! i) = fst (writes io ! i)) then
        then_issue w (io\<lparr>writes := remove_nth i (writes io)\<rparr>) (socket_step s E (Socket_written ec) w)
      else Inr (w, io))"
| "conn_step s E (Data_answer ok) (w, io) = then_issue w io (handle_process_data ok w)"

abbreviation conn_run ::
  "session \<Rightarrow> 't wialon_env \<Rightarrow> conn_event list \<Rightarrow> 't conn_state \<Rightarrow> wialon_fault + 't conn_state" where
  "conn_run s E \<equiv> fold_res (conn_step s E)"

text \<open>\<open>on_connection\<close> ends with \<open>handle_start\<close>.\<close>

definition conn_start :: "'t wialon_plugin \<Rightarrow> 't conn_state" where
  "conn_start w = (handle_start w, issued w (handle_start w) conn_io_init)"

text \<open>The answers of a session, in order.\<close>

fun answer_of :: "api_call \<Rightarrow> string list" where
  "answer_of (Do_write bytes) = [bytes]"
| "answer_of _ = []"

definition answers_given :: "'t wialon_plugin \<Rightarrow> string list" where
  "answers_given w = concat (map answer_of (api_calls w))"

subsection \<open>The calls of a step\<close>

text \<open>
  \<open>t\<close> follows \<open>s\<close>: calls are only added, none of them reads, and the last answer, when there is one, is
  what the front of the answer buffer holds; otherwise the buffer is untouched.
\<close>

definition follows :: "'t wialon_plugin \<Rightarrow> 't wialon_plugin \<Rightarrow> bool" where
  "follows s t \<longleftrightarrow>
     (\<exists>cs. api_calls t = api_calls s @ cs \<and> (\<forall>d. Do_read_until d \<notin> set cs) \<and>
       (if concat (map answer_of cs) = [] then answer_buffer t = answer_buffer s
        else take (length (last (concat (map answer_of cs)))) (answer_buffer t) = last (concat (map answer_of cs))))"

lemma follows_refl [simp]: "follows s s"
  by (simp add: follows_def)

lemma follows_trans [trans]: "follows s t \<Longrightarrow> follows t u \<Longrightarrow> follows s u"
  unfolding follows_def
  by (elim exE conjE, rule_tac x = "cs @ csa" in exI) (auto split: if_splits)

lemma follows_same: "api_calls t = api_calls s \<Longrightarrow> answer_buffer t = answer_buffer s \<Longrightarrow> follows s t"
  by (simp add: follows_def)

lemma follows_call:
  "api_calls t = api_calls s @ [c] \<Longrightarrow> answer_of c = [] \<Longrightarrow> \<forall>d. c \<noteq> Do_read_until d \<Longrightarrow>
    answer_buffer t = answer_buffer s \<Longrightarrow> follows s t"
  unfolding follows_def by (intro exI [of _ "[c]"]) auto

lemma reply_text_length: "length (reply_text k msg) = 2 + length k + 1 + length msg + 2"
  by (simp add: reply_text_def)

lemma answer_eq:
  "answer msg s =
    (let r = reply_text (cmd s) msg in
     if 32 < length r then Inl Buffer_overrun
     else Inr (s\<lparr>answer_buffer := r @ drop (length r) (answer_buffer s), api_calls := api_calls s @ [Do_write r]\<rparr>))"
  unfolding answer_def Let_def reply_text_length [symmetric] by simp

lemma answer_follows: "answer msg s = Inr t \<Longrightarrow> follows s t"
  unfolding follows_def
  by (rule exI [of _ "[Do_write (reply_text (cmd s) msg)]"]) (auto simp: answer_eq Let_def split: if_splits)

lemma handle_process_data_follows: "handle_process_data ok s = Inr t \<Longrightarrow> follows s t"
  by (auto simp: handle_process_data_def intro: follows_same dest: answer_follows split: if_splits)

lemma handle_authenticate_follows: "handle_authenticate ok s = Inr t \<Longrightarrow> follows s t"
  using follows_trans [OF follows_same [of "s\<lparr>state := STATE_INITIAL, authenticated := True\<rparr>" s]]
    follows_trans [OF follows_same [of "s\<lparr>state := STATE_INITIAL\<rparr>" s]]
  by (auto simp: handle_authenticate_def Let_def dest!: answer_follows split: if_splits)

lemma commit_login_follows: "commit_login E u s = Inr t \<Longrightarrow> follows s t"
proof -
  assume t: "commit_login E u s = Inr t"
  have "follows s t" if "call_authenticate E login pass s = Inr t" for login pass
  proof -
    let ?s = "s\<lparr>api_calls := api_calls s @ [Authenticate login pass]\<rparr>"
    have "follows s ?s" by (rule follows_call [where c = "Authenticate login pass"]) simp_all
    moreover from that have "follows ?s t"
      by (auto simp: call_authenticate_def Let_def dest: handle_authenticate_follows split: option.splits)
    ultimately show ?thesis by (rule follows_trans)
  qed
  with t show ?thesis by (auto simp: commit_login_def and_then_Inr dest: answer_follows split: if_splits)
qed

lemma store_data_follows: "follows s (store_data s)"
  unfolding store_data_def by (rule follows_call [where c = "Process_data (tree s)"]) simp_all

lemma commit_command_follows: "commit_command E s = Inr t \<Longrightarrow> follows s t"
  by (auto simp: res_simps commit_command_def store_data_follows dest: commit_login_follows answer_follows
      split: option.splits command_t.splits intro: follows_same)

lemma follows_parser_error: "follows s (parser_error s)"
  by (rule follows_same) (simp_all add: parser_error_def)

lemma consume_eol_follows:
  assumes "consume_eol E s = Inr t"
  shows "follows s t"
proof -
  obtain u where u: "t = u\<lparr>state := STATE_INITIAL\<rparr>" "follows s u"
    using assms
    by (auto simp: consume_eol_def and_then_Inr unexpected_token_def follows_parser_error
        split: state_t.splits if_splits
        dest!: commit_command_follows
        intro: follows_trans [OF follows_parser_error] follows_trans [OF store_data_follows])
  from follows_trans [OF u(2) follows_same [of t u]] u(1) show ?thesis by simp
qed

lemma put_field_follows: "put_field E tok s = Inr t \<Longrightarrow> follows s t"
  by (rule follows_same) (auto simp: put_field_def Let_def split: option.splits)

lemma consume_body_follows:
  assumes "consume_body E tok s = Inr t"
  shows "follows s t"
proof (cases "current_cmd s = COMMAND_BLACKBOX \<and> tok = ''|''")
  case True
  with assms have "follows (store_data s) t"
    by (intro follows_same) (auto simp: consume_body_def new_tree_def split: option.splits)
  then show ?thesis by (rule follows_trans [OF store_data_follows])
next
  case False
  with assms obtain u where u: "(if estimate s \<noteq> 0 then put_field E tok s else Inr s) = Inr u"
    "api_calls t = api_calls u" "answer_buffer t = answer_buffer u"
    by (auto simp: consume_body_def and_then_Inr split: if_splits)
  then have "follows s u" by (auto split: if_splits dest: put_field_follows)
  from follows_trans [OF this follows_same [OF u(2,3)]] show ?thesis .
qed

lemma consume_token_follows:
  assumes "consume_token E tok s = Inr t"
  shows "follows s t"
proof (cases "tok = crlf \<or> state s = STATE_BODY \<or> state s = STATE_BAR")
  case True
  then consider "tok = crlf" | "tok \<noteq> crlf" "state s = STATE_BODY" | "tok \<noteq> crlf" "state s = STATE_BAR" by blast
  then show ?thesis
  proof cases
    case 3
    then obtain u where "t = store_data u" "api_calls u = api_calls s" "answer_buffer u = answer_buffer s"
      using assms by (auto simp: consume_token_def unexpected_token_def parser_error_def split: if_splits)
    then show ?thesis using follows_trans [OF follows_same store_data_follows] by blast
  qed (use assms in \<open>simp_all add: consume_token_def consume_eol_follows consume_body_follows\<close>)
next
  case False
  with assms show ?thesis
    by (intro follows_same)
      (auto simp: consume_token_def consume_command_def unexpected_token_def parser_error_def start_message_def
        new_tree_def Let_def split: state_t.splits option.splits if_splits)
qed

lemma consumed_follows: "fold_res (consume_token E) toks s = Inr t \<Longrightarrow> follows s t"
proof (induction toks arbitrary: s)
  case (Cons tok toks)
  then show ?case by (auto simp: and_then_Inr intro: follows_trans [OF consume_token_follows])
qed simp

text \<open>A step of the translator: such a sequence of calls, and at most one read behind it.\<close>

definition turn :: "bool \<Rightarrow> 't wialon_plugin \<Rightarrow> 't wialon_plugin \<Rightarrow> bool" where
  "turn reading s t \<longleftrightarrow>
     (\<exists>u. follows s u \<and> answer_buffer t = answer_buffer u \<and>
       api_calls t = api_calls u @ (if reading then [Do_read_until crlf] else []))"

lemma follows_turn: "follows s t \<Longrightarrow> turn False s t"
  unfolding turn_def by (intro exI [of _ t]) simp

lemma turn_sbuf: "turn b (w\<lparr>sbuf := buf\<rparr>) w' \<Longrightarrow> turn b w w'"
proof -
  have "follows w (w\<lparr>sbuf := buf\<rparr>)" by (rule follows_same) simp_all
  then show "turn b (w\<lparr>sbuf := buf\<rparr>) w' \<Longrightarrow> turn b w w'" unfolding turn_def by (blast intro: follows_trans)
qed

text \<open>A call of \<open>handle_read\<close> starts a read exactly when it found a message.\<close>

lemma handle_read_turns:
  assumes "handle_read E s = Inr t"
  shows "turn (\<exists>m buf. read_message True (sbuf s) [] = Inr (Some m, buf)) s t"
  using assms
proof (cases rule: handle_read_Inr)
  case (stuck buf)
  then show ?thesis by (intro turn_sbuf [of _ buf s]) (simp add: follows_turn)
next
  case (worked m buf s2 s3)
  have "follows (s\<lparr>sbuf := buf\<rparr>) s2" using worked(2) unfolding parse_string_def by (rule consumed_follows)
  also have "follows s2 s3" using worked(3) by (rule consume_eol_follows)
  finally have "turn True (s\<lparr>sbuf := buf\<rparr>) t" unfolding turn_def using worked(4) by (intro exI [of _ s3]) simp
  then show ?thesis using worked(1) by (auto dest: turn_sbuf)
qed

lemma socket_step_turn:
  assumes "socket_step s E ev w = Inr w'"
  shows "turn False w w' \<or> (\<exists>n bytes. ev = Socket_read Success n bytes) \<and> turn True w w'"
proof (cases ev)
  case (Socket_read ec n bytes)
  let ?w = "w\<lparr>sbuf := sbuf w @ bytes\<rparr>"
  show ?thesis
  proof (cases "ec = Success \<and> 0 < n")
    case True
    with assms Socket_read have "handle_read (session_env s E) ?w = Inr w'"
      by (simp add: socket_read_step)
    then obtain b where "turn b w w'" using handle_read_turns turn_sbuf by blast
    with True Socket_read show ?thesis by (cases b) auto
  next
    case False
    with assms Socket_read have "w' = ?w"
      by (auto simp: socket_step_def conn_handle_read_def split: if_splits)
    then have "turn False w w'" by (intro follows_turn follows_same) simp_all
    then show ?thesis ..
  qed
next
  case (Socket_written ec)
  with assms have "w' = w"
    by (auto simp: socket_step_def conn_handle_write_def handle_write_def split: if_splits)
  then show ?thesis by (simp add: follows_turn)
qed

text \<open>What a turn starts on the socket.\<close>

fun read_of :: "api_call \<Rightarrow> read_op list" where
  "read_of (Do_read_until d) = [Read_until d]"
| "read_of _ = []"

lemma fold_issue:
  "fold issue cs io = io\<lparr>reads := reads io @ concat (map read_of cs),
    writes := writes io @ map (\<lambda>b. (length b, 0)) (concat (map answer_of cs))\<rparr>"
proof (induction cs arbitrary: io)
  case (Cons c cs)
  then show ?case by (cases c) (simp_all add: issue_def do_read_until_def do_write_def)
qed simp

lemma no_reads: "(\<forall>d. Do_read_until d \<notin> set cs) \<Longrightarrow> concat (map read_of cs) = []"
proof (induction cs)
  case (Cons c cs)
  then show ?case by (cases c) auto
qed simp

lemma turn_issued:
  assumes "turn reading w w'"
  obtains bs where "answers_given w' = answers_given w @ bs"
    "issued w w' io = io\<lparr>reads := reads io @ (if reading then [Read_until crlf] else []),
      writes := writes io @ map (\<lambda>b. (length b, 0)) bs\<rparr>"
    "bs = [] \<Longrightarrow> answer_buffer w' = answer_buffer w"
    "bs \<noteq> [] \<Longrightarrow> take (length (last bs)) (answer_buffer w') = last bs"
proof -
  from assms obtain u where t: "follows w u" "answer_buffer w' = answer_buffer u"
    "api_calls w' = api_calls u @ (if reading then [Do_read_until crlf] else [])"
    unfolding turn_def by blast
  from t(1) obtain cs where f: "api_calls u = api_calls w @ cs" "\<forall>d. Do_read_until d \<notin> set cs"
    "if concat (map answer_of cs) = [] then answer_buffer u = answer_buffer w
       else take (length (last (concat (map answer_of cs)))) (answer_buffer u) = last (concat (map answer_of cs))"
    unfolding follows_def by blast
  show ?thesis
  proof (rule that [of "concat (map answer_of cs)"])
    show "answers_given w' = answers_given w @ concat (map answer_of cs)" using t(3) f(1) by (simp add: answers_given_def)
    show "issued w w' io = io\<lparr>reads := reads io @ (if reading then [Read_until crlf] else []),
      writes := writes io @ map (\<lambda>b. (length b, 0)) (concat (map answer_of cs))\<rparr>"
      using f(1) t(3) no_reads [OF f(2)] by (simp add: issued_def fold_issue)
  qed (use t(2) f(3) in \<open>simp_all split: if_splits\<close>)
qed

lemma issued_reads:
  assumes "turn b w w'"
  shows "reads (issued w w' io) = reads io @ (if b then [Read_until crlf] else [])"
  using assms by (rule turn_issued [of b w w' io]) simp

subsection \<open>One read in flight\<close>

definition one_read :: "'t conn_state \<Rightarrow> bool" where
  "one_read c = (reads (snd c) = [] \<or> reads (snd c) = [Read_until crlf])"

lemma then_issue_Inr: "then_issue w io r = Inr (w', io') \<longleftrightarrow> r = Inr w' \<and> io' = issued w w' io"
  by (auto simp: then_issue_def and_then_Inr)

lemma conn_step_one_read:
  assumes "one_read c" and "conn_step s E ev c = Inr c'"
  shows "one_read c'"
proof -
  obtain w io where c: "c = (w, io)" by (cases c)
  obtain w' io' where c': "c' = (w', io')" by (cases c')
  have turned: "one_read (w', io')" if "turn b w w'" "io' = issued w w' io0" "reads io0 = []" for b io0
    using issued_reads [OF that(1), of io0] that(2,3) by (simp add: one_read_def)
  have kept: "one_read (w', io')" if "turn False w w'" "io' = issued w w' io0" "reads io0 = reads io" for io0
    using assms(1) issued_reads [OF that(1), of io0] that(2,3) by (simp add: one_read_def c)
  show ?thesis
  proof (cases ev)
    case (Read_completed ec n bytes)
    show ?thesis
    proof (cases "reads io")
      case (Cons op ops)
      with assms(1) have "ops = []" by (simp add: one_read_def c)
      show ?thesis
      proof (cases "ec = Success \<and> \<not> read_ready op (sbuf w @ bytes) n")
        case True
        with assms Cons Read_completed show ?thesis by (simp add: c)
      next
        case False
        with assms(2) Cons Read_completed \<open>ops = []\<close>
        have step: "socket_step s E (Socket_read ec n bytes) w = Inr w'" and io': "io' = issued w w' (io\<lparr>reads := []\<rparr>)"
          by (auto simp: c c' then_issue_Inr)
        from socket_step_turn [OF step] obtain b where "turn b w w'" by blast
        from turned [OF this io'] show ?thesis by (simp add: c')
      qed
    qed (use assms Read_completed c in simp)
  next
    case (Write_completed i ec)
    show ?thesis
    proof (cases "i < length (writes io) \<and> (ec = Success \<longrightarrow> snd (writes io ! i) = fst (writes io ! i))")
      case True
      with assms(2) Write_completed have step: "socket_step s E (Socket_written ec) w = Inr w'"
        and io': "io' = issued w w' (io\<lparr>writes := remove_nth i (writes io)\<rparr>)"
        by (auto simp: c c' then_issue_Inr)
      from socket_step_turn [OF step] have "turn False w w'" by simp
      from kept [OF this io'] show ?thesis by (simp add: c')
    next
      case False
      with assms Write_completed show ?thesis by (auto simp: c)
    qed
  next
    case (Data_answer ok)
    with assms(2) have "turn False w w'" "io' = issued w w' io"
      by (auto simp: c c' then_issue_Inr dest: handle_process_data_follows follows_turn)
    with kept c' show ?thesis by simp
  qed (use assms c in \<open>auto simp: one_read_def split: if_splits prod.splits\<close>)
qed

interpretation conn: machine "conn_step s E" one_read for s E
  by unfold_locales (rule conn_step_one_read)

lemma conn_start_eq: "conn_start w = (handle_start w, conn_io_init\<lparr>reads := [Read_until crlf]\<rparr>)"
  by (simp add: conn_start_def issued_def handle_start_def issue_def do_read_until_def conn_io_init_def)

lemma one_read_start: "one_read (conn_start w)"
  by (simp add: one_read_def conn_start_eq)

subsection \<open>The wire\<close>

text \<open>
  With at most one write in flight, the wire holds the answers in order: all of them, or all but the part
  of the last one that is still to be sent, which the buffer still holds.
\<close>

definition wire_inv :: "'t conn_state \<Rightarrow> bool" where
  "wire_inv c \<longleftrightarrow>
     (case c of (w, io) \<Rightarrow>
       (writes io = [] \<and> sent io = concat (answers_given w)) \<or>
       (\<exists>prev b d. writes io = [(length b, d)] \<and> d \<le> length b \<and> answers_given w = prev @ [b] \<and>
         sent io = concat prev @ take d b \<and> take (length b) (answer_buffer w) = b))"

fun write_fails :: "conn_event \<Rightarrow> bool" where
  "write_fails (Write_completed _ ec) = (ec \<noteq> Success)"
| "write_fails _ = False"

lemma wire_cong: "writes io' = writes io \<Longrightarrow> sent io' = sent io \<Longrightarrow> wire_inv (w, io') = wire_inv (w, io)"
  by (simp add: wire_inv_def)

lemma wire_turn:
  assumes inv: "wire_inv (w, io)" and turn: "turn b w w'" and one: "length (writes (issued w w' io)) \<le> 1"
  shows "wire_inv (w', issued w w' io)"
proof -
  obtain bs where bs: "answers_given w' = answers_given w @ bs"
    "issued w w' io = io\<lparr>reads := reads io @ (if b then [Read_until crlf] else []),
      writes := writes io @ map (\<lambda>b. (length b, 0)) bs\<rparr>"
    "bs = [] \<Longrightarrow> answer_buffer w' = answer_buffer w"
    "bs \<noteq> [] \<Longrightarrow> take (length (last bs)) (answer_buffer w') = last bs"
    using turn_issued [OF turn, of io] by metis
  show ?thesis
  proof (cases bs)
    case Nil
    with inv bs show ?thesis by (simp add: wire_inv_def)
  next
    case (Cons r rs)
    with one bs(2) have "writes io = []" "rs = []" by simp_all
    with inv bs(1,2,4) Cons show ?thesis by (simp add: wire_inv_def)
  qed
qed

lemma conn_step_wire:
  assumes inv: "wire_inv c" and step: "conn_step s E ev c = Inr c'"
    and one: "length (writes (snd c')) \<le> 1" and ok: "\<not> write_fails ev"
  shows "wire_inv c'"
proof -
  obtain w io where c: "c = (w, io)" by (cases c)
  obtain w' io' where c': "c' = (w', io')" by (cases c')
  show ?thesis
  proof (cases ev)
    case (Read_completed ec n bytes)
    show ?thesis
    proof (cases "reads io = [] \<or> ec = Success \<and> \<not> read_ready (hd (reads io)) (sbuf w @ bytes) n")
      case True
      with inv step Read_completed c show ?thesis by (auto split: list.splits)
    next
      case False
      with step Read_completed c c' obtain b where "turn b w w'" and io': "io' = issued w w' (io\<lparr>reads := tl (reads io)\<rparr>)"
        by (auto simp: then_issue_Inr split: list.splits if_splits dest!: socket_step_turn)
      moreover have "wire_inv (w, io\<lparr>reads := tl (reads io)\<rparr>)"
        using inv c wire_cong [of "io\<lparr>reads := tl (reads io)\<rparr>" io w] by simp
      ultimately show ?thesis using wire_turn one c' by fastforce
    qed
  next
    case (Part_sent i k)
    show ?thesis
    proof (cases "i < length (writes io) \<and> snd (writes io ! i) + k \<le> fst (writes io ! i)")
      case True
      with inv c obtain prev b d where b: "writes io = [(length b, d)]" "answers_given w = prev @ [b]"
        "sent io = concat prev @ take d b" "take (length b) (answer_buffer w) = b" "i = 0" "d + k \<le> length b"
        by (auto simp: wire_inv_def)
      have "take k (drop d (take (length b) (answer_buffer w))) = take k (drop d (answer_buffer w))"
        using b(6) by (simp add: drop_take min_def)
      then have "take k (drop d (answer_buffer w)) = take k (drop d b)" using b(4) by simp
      with b step Part_sent c c' show ?thesis
        by (auto simp: wire_inv_def take_add intro!: exI [of _ prev] exI [of _ b] exI [of _ "d + k"])
    next
      case False
      with inv step Part_sent c show ?thesis by auto
    qed
  next
    case (Write_completed i ec)
    with ok have ec: "ec = Success" by simp
    show ?thesis
    proof (cases "i < length (writes io) \<and> snd (writes io ! i) = fst (writes io ! i)")
      case True
      with inv c obtain prev b where b: "writes io = [(length b, length b)]" "answers_given w = prev @ [b]"
        "sent io = concat prev @ b" "i = 0"
        by (auto simp: wire_inv_def)
      with step Write_completed c c' ec have turn: "turn False w w'" and io': "io' = issued w w' (io\<lparr>writes := []\<rparr>)"
        by (auto simp: then_issue_Inr remove_nth_def dest!: socket_step_turn)
      have "wire_inv (w, io\<lparr>writes := []\<rparr>)" using b by (simp add: wire_inv_def)
      from wire_turn [OF this turn] one c' io' show ?thesis by simp
    next
      case False
      with inv step Write_completed c ec show ?thesis by auto
    qed
  next
    case (Data_answer ok)
    with step c c' have "turn False w w'" "io' = issued w w' io"
      by (auto simp: then_issue_Inr dest: handle_process_data_follows follows_turn)
    with wire_turn [of w io False w'] inv one c c' show ?thesis by simp
  qed
qed

end
