(* ===== verification/Transport_Properties.thy ===== *)
theory Transport_Properties
  imports Transport Wialon_Properties
begin

text \<open>
  The properties of a session on its socket: what is on the wire, that it goes on reading, and the two
  ways in which it goes wrong (answers that overlap, a line feed inside a message).
\<close>

subsection \<open>Runs\<close>

lemma conn_run_snoc:
  "conn_run s E (evs @ [ev]) c = Inr c'' \<longleftrightarrow> (\<exists>c'. conn_run s E evs c = Inr c' \<and> conn_step s E ev c' = Inr c'')"
  by (cases c'') (auto simp: fold_res_append and_then_Inr)

text \<open>No event of the run leaves two writes in flight, and none fails.\<close>

definition calm_run :: "session \<Rightarrow> 't wialon_env \<Rightarrow> conn_event list \<Rightarrow> 't conn_state \<Rightarrow> bool" where
  "calm_run s E evs c \<longleftrightarrow>
     list_all (\<lambda>ev. \<not> write_fails ev) evs \<and>
     list_all (\<lambda>k. case conn_run s E (take k evs) c of Inl _ \<Rightarrow> True | Inr u \<Rightarrow> length (writes (snd u)) \<le> 1)
       [0..<Suc (length evs)]"

lemma calm_run_snoc:
  "calm_run s E (evs @ [ev]) c \<longleftrightarrow> calm_run s E evs c \<and> \<not> write_fails ev \<and>
    (case conn_run s E (evs @ [ev]) c of Inl _ \<Rightarrow> True | Inr u \<Rightarrow> length (writes (snd u)) \<le> 1)"
  by (auto simp: calm_run_def list_all_iff split: sum.splits)

lemma run_wire:
  assumes "wire_inv c" and "conn_run s E evs c = Inr c'" and "calm_run s E evs c"
  shows "wire_inv c'"
  using assms(2-)
proof (induction evs arbitrary: c' rule: rev_induct)
  case Nil
  with assms(1) show ?case by simp
next
  case (snoc ev evs)
  then obtain u where u: "conn_run s E evs c = Inr u" "conn_step s E ev u = Inr c'"
    by (auto simp: conn_run_snoc)
  from snoc.prems have "calm_run s E evs c" "\<not> write_fails ev" "length (writes (snd c')) \<le> 1"
    by (simp_all add: calm_run_snoc)
  with conn_step_wire [OF snoc.IH [OF u(1)] u(2)] show ?case by blast
qed

lemma start_wire: "answers_given w = [] \<Longrightarrow> wire_inv (conn_start w)"
  by (simp add: conn_start_eq wire_inv_def conn_io_init_def answers_given_def handle_start_def)

text \<open>A session for the witnesses.\<close>

definition sample_session :: session where
  "sample_session = \<lparr>handler = \<lparr>info_library = ''w'', info_type = PLUGIN_TRANSLATOR, info_puid = ''wialon'',
      info_name = ''Wialon IPS'', info_version = ''1.1''\<rparr>,
    remote = ''peer'', session_port = 9999, route = setup_connection_routes ''wialon'' 9999 rr_init\<rparr>"

text \<open>
  C14. As long as each answer is written before the next one is given and no write fails, the client is
  sent the answers of the translator byte for byte and in order: what is on the wire is a prefix of them,
  and all of them when no write is in flight. (A write only refers to the translator's answer buffer, so
  this is not evident.)
\<close>

theorem answers_sent_in_order:
  assumes "conn_run s E evs (conn_start (wialon_init buf est multi err c)) = Inr (w, io)"
    and "calm_run s E evs (conn_start (wialon_init buf est multi err c))"
  shows "(\<exists>rest. sent io @ rest = concat (answers_given w)) \<and> (writes io = [] \<longrightarrow> sent io = concat (answers_given w))"
proof -
  have "wire_inv (w, io)"
    by (rule run_wire [OF start_wire assms]) (simp add: answers_given_def wialon_init_def)
  then show ?thesis
    by (auto simp: wire_inv_def) (metis append_take_drop_id)
qed

theorem answers_sent_in_order_witness:
  "\<exists>w io. conn_run sample_session accept_all
      [Read_completed Success 15 (''#L#353;secret'' @ crlf), Part_sent 0 3, Part_sent 0 4, Write_completed 0 Success]
      (conn_start sample_plugin) = Inr (w, io) \<and>
    answers_given w = [''#AL#1'' @ crlf] \<and> sent io = ''#AL#1'' @ crlf"
proof -
  let ?evs = "[Read_completed Success 15 (''#L#353;secret'' @ crlf), Part_sent 0 3, Part_sent 0 4, Write_completed 0 Success]"
  have "case conn_run sample_session accept_all ?evs (conn_start sample_plugin) of
      Inl _ \<Rightarrow> False | Inr (w, io) \<Rightarrow> writes io = [] \<and> answers_given w = [''#AL#1'' @ crlf]"
    by code_simp
  then obtain w io where run: "conn_run sample_session accept_all ?evs (conn_start sample_plugin) = Inr (w, io)"
    and w: "writes io = []" "answers_given w = [''#AL#1'' @ crlf]"
    by (auto split: sum.splits)
  have "calm_run sample_session accept_all ?evs (conn_start sample_plugin)" by code_simp
  from answers_sent_in_order [OF run [unfolded sample_plugin_def] this [unfolded sample_plugin_def]] w run
  show ?thesis by auto
qed

subsection \<open>Reading on\<close>

text \<open>
  Each completed read brings one line: a text without line feeds, CR and LF. The other events (writes that
  go on, end or fail, answers to stored data) come in any order between them.
\<close>

fun line_event :: "conn_event \<Rightarrow> bool" where
  "line_event (Read_completed ec n bytes) \<longleftrightarrow>
     ec = Success \<and> n = length bytes \<and> 2 \<le> n \<and> drop (n - 2) bytes = crlf \<and> LF \<notin> set (take (n - 2) bytes)"
| "line_event _ \<longleftrightarrow> True"

fun read_event :: "conn_event \<Rightarrow> bool" where
  "read_event (Read_completed _ _ _) \<longleftrightarrow> True"
| "read_event _ \<longleftrightarrow> False"

definition reads_started :: "'t wialon_plugin \<Rightarrow> nat" where
  "reads_started w = length (concat (map read_of (api_calls w)))"

lemma turn_reads_started:
  assumes "turn b w w'"
  shows "reads_started w' = reads_started w + (if b then 1 else 0)"
proof -
  from assms obtain u where u: "follows w u" "api_calls w' = api_calls u @ (if b then [Do_read_until crlf] else [])"
    unfolding turn_def by blast
  from u(1) obtain cs where "api_calls u = api_calls w @ cs" "\<forall>d. Do_read_until d \<notin> set cs"
    unfolding follows_def by blast
  with no_reads [of cs] u(2) show ?thesis by (simp add: reads_started_def del: concat_eq_Nil_conv)
qed

lemma quiet_step:
  assumes "conn_step s E ev (w, io) = Inr (w', io')" and "\<not> read_event ev"
  shows "reads io' = reads io \<and> sbuf w' = sbuf w \<and> reads_started w' = reads_started w"
proof (cases ev)
  case (Write_completed i ec)
  show ?thesis
  proof (cases "i < length (writes io) \<and> (ec = Success \<longrightarrow> snd (writes io ! i) = fst (writes io ! i))")
    case True
    with assms(1) Write_completed have step: "socket_step s E (Socket_written ec) w = Inr w'"
      and io': "io' = issued w w' (io\<lparr>writes := remove_nth i (writes io)\<rparr>)"
      by (auto simp: then_issue_Inr)
    from step have "w' = w" by (auto simp: socket_step_def conn_handle_write_def handle_write_def split: if_splits)
    with io' show ?thesis by (simp add: issued_def)
  next
    case False
    with assms(1) Write_completed have "w' = w" "io' = io" by auto
    then show ?thesis by simp
  qed
next
  case (Data_answer ok)
  with assms(1) have step: "handle_process_data ok w = Inr w'" and io': "io' = issued w w' io"
    by (auto simp: then_issue_Inr)
  from step have "turn False w w'" by (intro follows_turn handle_process_data_follows)
  with io' issued_reads turn_reads_started handle_process_data_Inr(4) [OF step] show ?thesis by fastforce
qed (use assms in \<open>auto split: if_splits prod.splits\<close>)

lemma line_step_reads:
  assumes "reads io = [Read_until crlf]" and "sbuf w = []" and "line_event (Read_completed ec n bytes)"
    and "conn_step s E (Read_completed ec n bytes) (w, io) = Inr (w', io')"
  shows "reads io' = [Read_until crlf] \<and> sbuf w' = [] \<and> reads_started w' = Suc (reads_started w)"
proof -
  define m where "m = take (n - 2) bytes"
  have n: "ec = Success" "n = length bytes" "2 \<le> n" "drop (n - 2) bytes = crlf" "LF \<notin> set m"
    using assms(3) by (auto simp: m_def)
  have "m @ drop (n - 2) bytes = bytes" unfolding m_def by (rule append_take_drop_id)
  then have line: "ec = Success" "bytes = m @ crlf" "LF \<notin> set m" "n = length m + 2"
    using n by auto
  let ?w = "w\<lparr>sbuf := m @ crlf\<rparr>"
  have "read_ready (Read_until crlf) (m @ crlf) (length m + 2)" by (simp add: read_ready_def)
  with assms(1,2,4) line have hr: "handle_read (session_env s E) ?w = Inr w'"
    and io': "io' = issued w w' (io\<lparr>reads := []\<rparr>)"
    by (auto simp: then_issue_Inr socket_read_step)
  have "read_message True (sbuf ?w) [] = Inr (Some m, [])" using read_message_one [OF line(3), of "[]"] by simp
  with handle_read_turns [OF hr] have "turn True ?w w'" by simp
  then have "turn True w w'" by (rule turn_sbuf)
  with io' issued_reads [OF this] turn_reads_started [OF this] handle_read_sbuf [OF hr line(3), of "[]"]
  show ?thesis by simp
qed

text \<open>
  C20. A session never has two reads in flight, whatever happens on its socket. When every read that
  completed brought exactly one line (ended by CR and LF, with no other line feed in it), and no event was a
  fault, it always has one read in flight, and has worked off all its input: the stream buffer is empty,
  and it has started one read at its start and one behind each line, whatever writes ended, failed or went on
  and whatever answers came in between. (Reads of other shapes are another matter: a line feed in a
  message stops the session, and input behind the line is lost.)
\<close>

theorem session_reads_on:
  assumes "conn_run s E evs (conn_start (wialon_init buf est multi err c)) = Inr (w, io)"
  shows "length (reads io) \<le> 1 \<and>
    (list_all line_event evs \<longrightarrow>
       reads io = [Read_until crlf] \<and> sbuf w = [] \<and> reads_started w = 1 + length (filter read_event evs))"
proof
  have "one_read (w, io)" using conn.run_inv [OF one_read_start assms] .
  then show "length (reads io) \<le> 1" by (auto simp: one_read_def)
  show "list_all line_event evs \<longrightarrow>
       reads io = [Read_until crlf] \<and> sbuf w = [] \<and> reads_started w = 1 + length (filter read_event evs)"
    using assms
  proof (induction evs arbitrary: w io rule: rev_induct)
    case Nil
    then show ?case by (auto simp: conn_start_eq handle_start_def wialon_init_def reads_started_def)
  next
    case (snoc ev evs)
    then obtain v jo where u: "conn_run s E evs (conn_start (wialon_init buf est multi err c)) = Inr (v, jo)"
      "conn_step s E ev (v, jo) = Inr (w, io)"
      by (auto simp: conn_run_snoc)
    show ?case
    proof (cases "read_event ev")
      case True
      then obtain ec n bytes where ev: "ev = Read_completed ec n bytes" by (cases ev) auto
      show ?thesis
      proof
        assume "list_all line_event (evs @ [ev])"
        then have lines: "list_all line_event evs" "line_event (Read_completed ec n bytes)" by (simp_all only: ev list_all_append list.pred_inject)
        with snoc.IH [OF u(1)] have v: "reads jo = [Read_until crlf]" "sbuf v = []"
          "reads_started v = 1 + length (filter read_event evs)" by simp_all
        from line_step_reads [OF v(1,2) lines(2) u(2) [unfolded ev]] v(3)
        show "reads io = [Read_until crlf] \<and> sbuf w = [] \<and>
            reads_started w = 1 + length (filter read_event (evs @ [ev]))" by (simp add: ev)
      qed
    next
      case False
      with snoc.IH [OF u(1)] quiet_step [OF u(2)] show ?thesis by auto
    qed
  qed
qed

theorem session_reads_on_witness:
  "\<exists>w io. conn_run sample_session accept_all
      [Read_completed Success 15 (''#L#353;secret'' @ crlf), Part_sent 0 3, Read_completed Success 5 (''#P#'' @ crlf),
       Write_completed 0 (Error_value 32)]
      (conn_start sample_plugin) = Inr (w, io) \<and> reads io = [Read_until crlf] \<and> reads_started w = 3"
proof -
  let ?evs = "[Read_completed Success 15 (''#L#353;secret'' @ crlf), Part_sent 0 3, Read_completed Success 5 (''#P#'' @ crlf),
    Write_completed 0 (Error_value 32)]"
  have "\<not> isl (conn_run sample_session accept_all ?evs (conn_start sample_plugin))" by code_simp
  then obtain w io where run: "conn_run sample_session accept_all ?evs (conn_start sample_plugin) = Inr (w, io)"
    by (auto dest!: returned)
  have "list_all line_event ?evs" by code_simp
  with session_reads_on [OF run [unfolded sample_plugin_def]] have "reads io = [Read_until crlf] \<and> reads_started w = 3"
    by simp
  with run show ?thesis by blast
qed

subsection \<open>Where a session goes wrong\<close>

lemma stopped_step:
  assumes "reads (snd c) = []" and "conn_step s E ev c = Inr c'"
  shows "reads (snd c') = []"
proof (cases ev)
  case (Write_completed i ec)
  with assms show ?thesis
    by (cases c; cases c') (auto simp: then_issue_Inr issued_reads split: if_splits dest!: socket_step_turn)
next
  case (Data_answer ok)
  with assms show ?thesis
    by (cases c; cases c')
      (auto simp: then_issue_Inr issued_reads [OF follows_turn] dest!: handle_process_data_follows)
qed (use assms in \<open>cases c; cases c'; auto split: if_splits prod.splits\<close>)+

interpretation stopped: machine "conn_step s E" "\<lambda>c. reads (snd c) = []" for s E
  by unfold_locales (rule stopped_step)

text \<open>
  A line feed inside a message ends a session: the text behind it, when it is no longer than the text
  before it, is thrown away unread, the handler returns without starting a read, nothing is answered, and
  no later event can start one. The connection waits for nothing.
\<close>

theorem line_feed_stalls_session:
  assumes "a \<noteq> []" and "last a \<noteq> CR" and "LF \<notin> set a" and "length b + 1 \<le> length a"
    and "reads io = [Read_until crlf]" and "sbuf w = []"
  shows "\<exists>w' io'. conn_step s E (Read_completed Success (length a + length b + 3) (a @ LF # b @ crlf)) (w, io) = Inr (w', io') \<and>
    api_calls w' = api_calls w \<and> reads io' = [] \<and> writes io' = writes io \<and>
    (\<forall>evs c. conn_run s E evs (w', io') = Inr c \<longrightarrow> reads (snd c) = [])"
proof -
  let ?text = "a @ LF # b @ crlf"
  have "read_ready (Read_until crlf) ?text (length a + length b + 3)" by (simp add: read_ready_def)
  moreover have "handle_read (session_env s E) (w\<lparr>sbuf := ?text\<rparr>) = Inr (w\<lparr>sbuf := []\<rparr>)"
  proof -
    have "getline True [] (a @ LF # b @ crlf) = (True, a, b @ crlf)" by (rule getline_line [OF assms(3)])
    moreover have "drop (Suc (length a)) (b @ crlf) = []" using assms(4) by simp
    ultimately have "read_message True ?text [] = read_message True [] (a @ [LF])"
      using assms(1,2) by (subst read_message.simps) (simp add: Let_def)
    also have "\<dots> = Inr (None, [])" by (subst read_message.simps) simp
    finally show ?thesis by (simp add: handle_read_def)
  qed
  ultimately have "conn_step s E (Read_completed Success (length a + length b + 3) ?text) (w, io) =
      Inr (w\<lparr>sbuf := []\<rparr>, io\<lparr>reads := []\<rparr>)"
    using assms(5,6) by (simp add: socket_read_step then_issue_def issued_def)
  moreover have "reads (snd c) = []"
    if "conn_run s E evs (w\<lparr>sbuf := []\<rparr>, io\<lparr>reads := []\<rparr>) = Inr c" for evs c
    using stopped.run_inv [OF _ that] by simp
  ultimately show ?thesis by (intro exI [of _ "w\<lparr>sbuf := []\<rparr>"] exI [of _ "io\<lparr>reads := []\<rparr>"]) simp
qed

theorem line_feed_stalls_session_witness:
  "\<exists>c. conn_run sample_session accept_all
      [Read_completed Success 15 (''#L#353;secret'' @ crlf), Read_completed Success 12 (''#M#hello'' @ LF # ''x'' @ crlf)]
      (conn_start sample_plugin) = Inr c \<and> reads (snd c) = []"
proof -
  let ?read = "Read_completed Success 15 (''#L#353;secret'' @ crlf)"
  have "case conn_run sample_session accept_all [?read] (conn_start sample_plugin) of
      Inl _ \<Rightarrow> False | Inr (w, io) \<Rightarrow> reads io = [Read_until crlf] \<and> sbuf w = []"
    by code_simp
  then obtain w io where run: "conn_run sample_session accept_all [?read] (conn_start sample_plugin) = Inr (w, io)"
    and w: "reads io = [Read_until crlf]" "sbuf w = []"
    by (auto split: sum.splits)
  from line_feed_stalls_session [OF _ _ _ _ w, of "''#M#hello''" "''x''" sample_session accept_all]
  obtain w' io' where "conn_step sample_session accept_all
      (Read_completed Success 12 (''#M#hello'' @ LF # ''x'' @ crlf)) (w, io) = Inr (w', io')" "reads io' = []"
    by (auto simp: eval_nat_numeral)
  with run conn_run_snoc [of sample_session accept_all "[?read]"] have
    "conn_run sample_session accept_all ([?read] @ [Read_completed Success 12 (''#M#hello'' @ LF # ''x'' @ crlf)])
      (conn_start sample_plugin) = Inr (w', io')"
    by blast
  with \<open>reads io' = []\<close> show ?thesis by (intro exI [of _ "(w', io')"]) simp
qed

lemma send_two:
  assumes "take m (answer_buffer w) = x" and "take n (answer_buffer w) = y"
  shows "conn_run s E [Part_sent 0 m, Write_completed 0 Success, Part_sent 0 n, Write_completed 0 Success]
      (w, io\<lparr>writes := [(m, 0), (n, 0)]\<rparr>) = Inr (w, io\<lparr>writes := [], sent := sent io @ x @ y\<rparr>)"
  using assms
  by (simp add: socket_step_def conn_handle_write_def handle_write_def then_issue_def issued_def remove_nth_def)

text \<open>
  C38. The answer buffer is shared by all answers: when the answer to stored data arrives while an earlier
  one waits to be sent, the client is sent the front of the newer answer in place of the earlier one, cut
  or filled up to its length. Here two records are confirmed, the second with a refusal: the client sees
  two refusals, the first without its line feed.
\<close>

theorem newer_answer_overwrites:
  assumes "current_cmd w = COMMAND_DATA" and "length (cmd w) \<le> 20" and "writes io = []"
  shows "\<exists>w' io'. conn_run s E [Data_answer True, Data_answer False,
        Part_sent 0 (length (cmd w) + 6), Write_completed 0 Success,
        Part_sent 0 (length (cmd w) + 7), Write_completed 0 Success] (w, io) = Inr (w', io') \<and>
    answers_given w' = answers_given w @ [reply_text (cmd w) ''1'', reply_text (cmd w) ''-1''] \<and>
    sent io' = sent io @ butlast (reply_text (cmd w) ''-1'') @ reply_text (cmd w) ''-1''"
proof -
  let ?one = "reply_text (cmd w) ''1''" and ?no = "reply_text (cmd w) ''-1''"
  let ?w1 = "w\<lparr>answer_buffer := ?one @ drop (length ?one) (answer_buffer w), api_calls := api_calls w @ [Do_write ?one]\<rparr>"
  let ?b = "?no @ drop (length ?no) (?one @ drop (length ?one) (answer_buffer w))"
  let ?w2 = "?w1\<lparr>answer_buffer := ?b, api_calls := api_calls ?w1 @ [Do_write ?no]\<rparr>"
  have len: "length ?one = length (cmd w) + 6" "length ?no = length (cmd w) + 7"
    by (simp_all add: reply_text_length)
  have s1: "handle_process_data True w = Inr ?w1" and s2: "handle_process_data False ?w1 = Inr ?w2"
    using assms(1,2) by (simp_all add: handle_process_data_def answer_eq Let_def len)
  have b: "take (length (cmd w) + 6) ?b = butlast ?no" "take (length (cmd w) + 7) ?b = ?no"
    using len(2) by (simp_all add: butlast_conv_take add.commute)
  let ?io2 = "io\<lparr>writes := [(length (cmd w) + 6, 0), (length (cmd w) + 7, 0)]\<rparr>"
  let ?io1 = "io\<lparr>writes := [(length (cmd w) + 6, 0)]\<rparr>"
  have "conn_step s E (Data_answer True) (w, io) = Inr (?w1, ?io1)"
    unfolding conn_step.simps s1 using assms(3) by (simp add: then_issue_def issued_def issue_def do_write_def len)
  moreover have "conn_step s E (Data_answer False) (?w1, ?io1) = Inr (?w2, ?io2)"
    unfolding conn_step.simps s2 by (simp add: then_issue_def issued_def issue_def do_write_def len)
  ultimately have "conn_run s E [Data_answer True, Data_answer False] (w, io) = Inr (?w2, ?io2)"
    by (simp only: fold_res.simps and_then.simps)
  moreover have "take (length (cmd w) + 6) (answer_buffer ?w2) = butlast ?no"
    "take (length (cmd w) + 7) (answer_buffer ?w2) = ?no" using b by simp_all
  note send_two [OF this, of s E io]
  ultimately have "conn_run s E ([Data_answer True, Data_answer False] @ [Part_sent 0 (length (cmd w) + 6),
        Write_completed 0 Success, Part_sent 0 (length (cmd w) + 7), Write_completed 0 Success]) (w, io) =
      Inr (?w2, io\<lparr>writes := [], sent := sent io @ butlast ?no @ ?no\<rparr>)"
    unfolding fold_res_append by (simp only: and_then.simps)
  then show ?thesis
    by (intro exI [of _ ?w2] exI [of _ "io\<lparr>writes := [], sent := sent io @ butlast ?no @ ?no\<rparr>"])
      (simp add: answers_given_def)
qed

theorem newer_answer_overwrites_witness:
  "\<exists>w' io'. conn_run sample_session accept_all [Data_answer True, Data_answer False,
        Part_sent 0 7, Write_completed 0 Success, Part_sent 0 8, Write_completed 0 Success]
      (sample_plugin\<lparr>cmd := ''D'', current_cmd := COMMAND_DATA\<rparr>, conn_io_init) = Inr (w', io') \<and>
    sent io' = ''#AD#-1'' @ [CR] @ ''#AD#-1'' @ crlf"
  using newer_answer_overwrites [of "sample_plugin\<lparr>cmd := ''D'', current_cmd := COMMAND_DATA\<rparr>" conn_io_init
      sample_session accept_all]
  by (auto simp: conn_io_init_def reply_text_def)

end
