(* ===== verification/Plugins.thy ===== *)
theory Plugins
  imports Dispatchers
begin

text \<open>
  An instance of either dispatcher plugin, as the daemon holds it: what it was asked, what it answered
  and whom it still owes an answer. The interface \<open>answering_dispatcher\<close> refines \<open>dispatcher_contract\<close>:
  the callbacks a dispatcher was given are those it has called, in an order that only grows, and
  those that wait.
\<close>

subsection \<open>The interface\<close>

locale answering_dispatcher =
  fixes handle :: "'t \<Rightarrow> 'c \<Rightarrow> 's \<Rightarrow> 'e + 's" and progress :: "'ev \<Rightarrow> 's \<Rightarrow> 'e + 's"
    and inv :: "'s \<Rightarrow> bool" and answered :: "'s \<Rightarrow> ('c \<times> bool) list" and waiting :: "'s \<Rightarrow> 'c multiset"
  assumes handle_answers: "inv s \<Longrightarrow> handle t c s = Inr s' \<Longrightarrow>
      inv s' \<and> (\<exists>as. answered s' = answered s @ as \<and> waiting s + {#c#} = waiting s' + mset (map fst as))"
    and progress_answers: "inv s \<Longrightarrow> progress ev s = Inr s' \<Longrightarrow>
      inv s' \<and> (\<exists>as. answered s' = answered s @ as \<and> waiting s = waiting s' + mset (map fst as))"

sublocale answering_dispatcher \<subseteq>
  dispatcher_contract handle progress inv "\<lambda>s. mset (map fst (answered s)) + waiting s"
proof
  fix s s' t c ev
  assume "inv s"
  show "inv s' \<and> mset (map fst (answered s')) + waiting s' = mset (map fst (answered s)) + waiting s + {#c#}"
    if "handle t c s = Inr s'"
    using handle_answers [OF \<open>inv s\<close> that] by (auto simp: ac_simps)
  show "inv s' \<and> mset (map fst (answered s')) + waiting s' = mset (map fst (answered s)) + waiting s"
    if "progress ev s = Inr s'"
    using progress_answers [OF \<open>inv s\<close> that] by (auto simp: ac_simps)
qed

text \<open>Where the callbacks are counted and answers are only added, the rest follows.\<close>

lemma answers_split:
  assumes "\<exists>as. given' = given @ as"
    and "mset (map fst given') + wait' = mset (map fst given) + wait + X"
  shows "\<exists>as. given' = given @ as \<and> wait + X = wait' + mset (map fst as)"
proof -
  from assms(1) obtain as where as: "given' = given @ as" by blast
  with assms(2) have "mset (map fst given) + (wait + X) = mset (map fst given) + (wait' + mset (map fst as))"
    by (simp add: ac_simps)
  with as show ?thesis by (metis add_left_cancel)
qed

subsection \<open>The redis client only adds answers\<close>

definition more_answers :: "'c redis \<Rightarrow> 'c redis \<Rightarrow> bool" where
  "more_answers r r' \<longleftrightarrow> (\<exists>as. answers r' = answers r @ as)"

lemma more_answers_refl [simp]: "more_answers r r"
  by (simp add: more_answers_def)

lemma more_answers_trans [trans]: "more_answers r s \<Longrightarrow> more_answers s t \<Longrightarrow> more_answers r t"
  by (auto simp: more_answers_def)

lemma more_answers_same: "answers r' = answers r \<Longrightarrow> more_answers r r'"
  by (simp add: more_answers_def)

lemma call_callback_more: "more_answers r (call_callback cb ok r)"
  by (simp add: more_answers_def call_callback_def timeout_no_ping_def start_op_def split: bool_callback.split)

lemma answer_front_more: "answer_front ok r = Inr r' \<Longrightarrow> more_answers r r'"
  using call_callback_more [of r _ ok]
  by (auto simp: answer_front_def Let_def more_answers_def split: list.splits)

lemma answer_all_more: "fold_res (\<lambda>_. answer_front ok) xs r = Inr r' \<Longrightarrow> more_answers r r'"
proof (induction xs arbitrary: r)
  case (Cons x xs)
  then show ?case by (auto simp: and_then_Inr intro: more_answers_trans [OF answer_front_more])
qed simp

lemma reconnect_more: "reconnect r = Inr r' \<Longrightarrow> more_answers r r'"
proof -
  assume "reconnect r = Inr r'"
  then obtain u where "fold_res (\<lambda>_. answer_front False)
        [0..<length (callbacks (out_tmp_buf (redis_close r)))] (redis_close r) = Inr u" "answers r' = answers u"
    by (auto simp: reconnect_def drop_requests_def and_then_Inr unlock_busy_def connect_host_def start_op_def split: if_splits)
  with answer_all_more [OF this(1)] show ?thesis by (simp add: more_answers_def redis_close_def)
qed

lemma reply_loop_more: "reply_loop i left good s r = Inr (e, r') \<Longrightarrow> more_answers r r'"
proof (induction i left good s r arbitrary: e rule: reply_loop.induct)
  case (2 i left good s r)
  obtain good' s' buf where g: "getline good s (in_buf r) = (good', s', buf)" by (cases "getline good s (in_buf r)")
  have buf: "more_answers r (r\<lparr>in_buf := buf\<rparr>)" by (simp add: more_answers_def)
  from "2.prems" g show ?case
    by (auto simp: Let_def and_then_Inr buf split: if_splits
        intro: more_answers_trans [OF buf more_answers_trans [OF answer_front_more "2.IH"]])
qed simp

lemma redis_write_answers: "redis_write locked r = Inr r' \<Longrightarrow> answers r' = answers r"
  by (auto simp: redis_write_def Let_def start_op_def split: if_splits)

lemma handle_read_more:
  assumes "redis_handle_read ec r = Inr r'"
  shows "more_answers r r'"
proof (cases "ec = Success")
  case True
  with assms obtain e r1 where loop: "reply_loop (length (callbacks (out_tmp_buf r)))
      (word_of_nat (length (in_buf r))) True [] r = Inr (e, r1)"
    and rest: "(case e of Bad_reply \<Rightarrow> reconnect r1
       | Stopped i left \<Rightarrow>
           (let r2 = r1\<lparr>in_buf := drop (unat (word_of_nat (length (in_buf r1)) - left)) (in_buf r1)\<rparr> in
            if i > 0 then Inr (start_read r2)
            else if callbacks (out_buf r2) = [] then unlock_busy r2 else redis_write True r2)) = Inr r'"
    by (auto simp: redis_handle_read_def and_then_Inr)
  have "more_answers r1 r'"
  proof (cases e)
    case (Stopped i left)
    with rest show ?thesis
      by (intro more_answers_same)
        (auto simp: Let_def start_read_def start_op_def unlock_busy_def dest!: redis_write_answers split: if_splits)
  qed (use rest reconnect_more in simp)
  with reply_loop_more [OF loop] show ?thesis by (rule more_answers_trans)
qed (use assms in \<open>simp add: redis_handle_read_def reconnect_more\<close>)

lemma publish_more: "publish kuint channel message cb r = Inr r' \<Longrightarrow> more_answers r r'"
  using call_callback_more [of r cb False]
  by (auto simp: publish_def Let_def enqueue_def more_answers_def dest!: redis_write_answers split: if_splits)

lemma redis_ping_more: "redis_ping cb r = Inr r' \<Longrightarrow> more_answers r r'"
  using call_callback_more [of r cb False]
  by (auto simp: redis_ping_def enqueue_def more_answers_def dest!: redis_write_answers split: if_splits)

lemma redis_step_more:
  assumes "redis_step kuint ev r = Inr r'"
  shows "more_answers r r'"
proof (cases "event_enabled ev r")
  case True
  let ?r = "finish_op ev r"
  have "more_answers r ?r" by (simp add: more_answers_def finish_op_def split: option.split)
  moreover from True assms have "handle_event kuint ev ?r = Inr r'" by (simp add: redis_step_def)
  then have "more_answers ?r r'"
  proof (cases ev)
    case (Written ec n)
    with \<open>handle_event kuint ev ?r = Inr r'\<close> have "redis_handle_write ec (sent_bytes n ?r) = Inr r'" by simp
    then have "more_answers (sent_bytes n ?r) r'"
      by (auto simp: redis_handle_write_def start_read_def start_op_def intro: more_answers_same reconnect_more split: if_splits)
    then show ?thesis by (simp add: more_answers_def sent_bytes_def Let_def)
  next
    case (Read ec bytes)
    with \<open>handle_event kuint ev ?r = Inr r'\<close> handle_read_more [of ec "?r\<lparr>in_buf := in_buf ?r @ bytes\<rparr>" r']
    show ?thesis by (simp add: more_answers_def)
  qed (auto simp: set_timeouts_def connect_host_def start_op_def handle_resolve_def handle_connect_def
      handle_timeout_connect_def handle_timeout_ping_def connect_endpoint_def and_then_Inr Let_def timeout_no_ping_def
      dest!: redis_write_answers intro: more_answers_same publish_more redis_ping_more split: if_splits list.splits)
  ultimately show ?thesis by (rule more_answers_trans)
qed (use assms in \<open>simp add: redis_step_def\<close>)

subsection \<open>Plugin instances\<close>

datatype 'c plugin_instance =
    Redis_plugin "'c dispatcher_redis"
  | Logger_plugin "'c dispatcher_logger"

datatype 'c plugin_event = Redis_event "'c redis_event" | Timer_event nat

text \<open>What \<open>create\<close> of the router makes of the two dispatchers there are, and \<open>load_settings\<close> of the instance.\<close>

definition make_plugin :: "json_env \<Rightarrow> string \<times> config \<Rightarrow> 'c plugin_instance option" where
  "make_plugin J section =
     (if fst section = ''redis'' then Some (Redis_plugin (dr_load_settings J (snd section)))
      else if fst section = ''logger-example'' then Some (Logger_plugin (dl_load_settings J (snd section) (dl_init 0)))
      else None)"

definition plugin_handle ::
  "(64 word \<Rightarrow> string) \<Rightarrow> json_env \<Rightarrow> dptree \<Rightarrow> 'c \<Rightarrow> 'c plugin_instance \<Rightarrow> redis_fault + 'c plugin_instance" where
  "plugin_handle kuint J t c p =
     (case p of
        Redis_plugin d \<Rightarrow> and_then (dr_handle_process_data kuint J t c d) (\<lambda>d'. Inr (Redis_plugin d'))
      | Logger_plugin d \<Rightarrow> Inr (Logger_plugin (dl_handle_process_data J t c d)))"

text \<open>Everything else that happens to it: an event that is not its own changes nothing.\<close>

definition plugin_progress ::
  "(64 word \<Rightarrow> string) \<Rightarrow> 'c plugin_event \<Rightarrow> 'c plugin_instance \<Rightarrow> redis_fault + 'c plugin_instance" where
  "plugin_progress kuint ev p =
     (case (ev, p) of
        (Redis_event e, Redis_plugin d) \<Rightarrow> and_then (redis_progress kuint e d) (\<lambda>d'. Inr (Redis_plugin d'))
      | (Timer_event i, Logger_plugin d) \<Rightarrow> Inr (Logger_plugin (delayed_callback_run i d))
      | _ \<Rightarrow> Inr p)"

definition plugin_answered :: "'c plugin_instance \<Rightarrow> ('c \<times> bool) list" where
  "plugin_answered p = (case p of Redis_plugin d \<Rightarrow> answers (rcon d) | Logger_plugin d \<Rightarrow> confirmed d)"

definition redis_waiting :: "'c redis \<Rightarrow> 'c multiset" where
  "redis_waiting r = mset (clients (callbacks (out_tmp_buf r))) + mset (clients (callbacks (out_buf r)))"

definition plugin_waiting :: "'c plugin_instance \<Rightarrow> 'c multiset" where
  "plugin_waiting p =
     (case p of Redis_plugin d \<Rightarrow> redis_waiting (rcon d) | Logger_plugin d \<Rightarrow> mset (map snd (timers d)))"

definition plugin_inv :: "'c plugin_instance \<Rightarrow> bool" where
  "plugin_inv p = (case p of Redis_plugin d \<Rightarrow> settled (rcon d) | Logger_plugin d \<Rightarrow> all_confirmed d)"

lemmas plugin_defs = plugin_answered_def plugin_waiting_def plugin_inv_def

lemma ledger_waiting: "ledger r = mset (map fst (answers r)) + redis_waiting r"
  by (simp add: ledger_def redis_waiting_def ac_simps)

lemma logger_answers:
  "\<exists>as. confirmed (dl_handle_process_data J t c d) = confirmed d @ as"
  "\<exists>as. confirmed (delayed_callback_run i d) = confirmed d @ as"
  by (auto simp: dl_handle_process_data_def delayed_callback_delay_def delayed_callback_run_def Let_def split: option.split)

interpretation plugin: answering_dispatcher "plugin_handle kuint J" "plugin_progress kuint"
    plugin_inv plugin_answered plugin_waiting for kuint J
proof
  fix p p' :: "'c plugin_instance" and t c ev
  assume inv: "plugin_inv p"
  show "plugin_inv p' \<and> (\<exists>as. plugin_answered p' = plugin_answered p @ as \<and>
      plugin_waiting p + {#c#} = plugin_waiting p' + mset (map fst as))"
    if h: "plugin_handle kuint J t c p = Inr p'"
  proof (cases p)
    case (Redis_plugin d)
    with h obtain d' where d': "dr_handle_process_data kuint J t c d = Inr d'" "p' = Redis_plugin d'"
      by (auto simp: plugin_handle_def and_then_Inr)
    from d'(1) have "more_answers (rcon d) (rcon d')"
      by (auto simp: dr_handle_process_data_def and_then_Inr intro: publish_more)
    with dr.handle_owed [OF _ d'(1)] inv Redis_plugin d'(2) show ?thesis
      using answers_split [of "answers (rcon d')" "answers (rcon d)" "redis_waiting (rcon d')" "redis_waiting (rcon d)" "{#c#}"]
      by (simp add: plugin_defs ledger_waiting more_answers_def)
  next
    case (Logger_plugin d)
    with h have p': "p' = Logger_plugin (dl_handle_process_data J t c d)" by (simp add: plugin_handle_def)
    have "all_confirmed d" using inv Logger_plugin by (simp add: plugin_inv_def)
    from dl.handle_owed [OF this, of J t c] have "all_confirmed (dl_handle_process_data J t c d)"
      "logger_owed (dl_handle_process_data J t c d) = logger_owed d + {#c#}"
      by (simp_all add: dl_request_def)
    with logger_answers(1) [of J t c d] Logger_plugin p' show ?thesis
      using answers_split [of "confirmed (dl_handle_process_data J t c d)" "confirmed d"
          "mset (map snd (timers (dl_handle_process_data J t c d)))" "mset (map snd (timers d))" "{#c#}"]
      by (simp add: plugin_defs logger_owed_def)
  qed
  show "plugin_inv p' \<and> (\<exists>as. plugin_answered p' = plugin_answered p @ as \<and>
      plugin_waiting p = plugin_waiting p' + mset (map fst as))"
    if h: "plugin_progress kuint ev p = Inr p'"
  proof (cases "(\<exists>e d. ev = Redis_event e \<and> p = Redis_plugin d) \<or> (\<exists>i d. ev = Timer_event i \<and> p = Logger_plugin d)")
    case True
    then show ?thesis
    proof (elim disjE exE conjE)
      fix e d assume e: "ev = Redis_event e" "p = Redis_plugin d"
      with h obtain d' where d': "redis_progress kuint e d = Inr d'" "p' = Redis_plugin d'"
        by (auto simp: plugin_progress_def and_then_Inr)
      from d'(1) have "more_answers (rcon d) (rcon d')"
        by (auto simp: redis_progress_def and_then_Inr intro: redis_step_more split: if_splits)
      with dr.progress_owed [OF _ d'(1)] inv e(2) d'(2) show ?thesis
        using answers_split [of "answers (rcon d')" "answers (rcon d)" "redis_waiting (rcon d')" "redis_waiting (rcon d)" "{#}"]
        by (simp add: plugin_defs ledger_waiting more_answers_def)
    next
      fix i d assume e: "ev = Timer_event i" "p = Logger_plugin d"
      with h have p': "p' = Logger_plugin (delayed_callback_run i d)" by (simp add: plugin_progress_def)
      with timer_runs [where i = i and d = d] logger_answers(2) [of i d] inv e(2) show ?thesis
        using answers_split [of "confirmed (delayed_callback_run i d)" "confirmed d"
            "mset (map snd (timers (delayed_callback_run i d)))" "mset (map snd (timers d))" "{#}"]
        by (simp add: plugin_defs logger_owed_def)
    qed
  next
    case False
    with h have "p' = p" by (auto simp: plugin_progress_def split: plugin_event.splits plugin_instance.splits)
    with inv show ?thesis by simp
  qed
qed

text \<open>A new instance owes nothing, and its faults are those of the redis client.\<close>

lemma make_plugin_fresh:
  assumes "make_plugin J section = Some p"
  shows "plugin_inv p" and "plugin_answered p = []" and "plugin_waiting p = {#}"
proof -
  have client: "settled (connect_host h p (set_timeouts a b redis_init))" for h p a b
    using settled_params(3) [OF redis_init_settled(1), of a b]
    by (simp add: connect_host_def settled_def start_op_simps op_ok_def)
  have "redis_waiting (connect_host h p (set_timeouts a b redis_init)) = {#}"
    "answers (connect_host h p (set_timeouts a b redis_init)) = []" for h p a b
    by (simp_all add: redis_waiting_def connect_host_def start_op_def set_timeouts_def redis_init_def)
  with client assms show "plugin_inv p" "plugin_answered p = []" "plugin_waiting p = {#}"
    by (auto simp: make_plugin_def plugin_defs dr_load_settings_def dl_load_settings_def dl_init_def all_confirmed_def Let_def
        split: if_splits)
qed

lemma plugin_faults:
  assumes "plugin_inv p"
  shows "plugin_handle kuint J t c p = Inl f \<Longrightarrow> f = Publish_overrun"
    and "plugin_progress kuint ev p = Inl f \<Longrightarrow> f \<in> {End_iterator, Reply_out_of_range, Publish_overrun}"
proof -
  show "f = Publish_overrun" if h: "plugin_handle kuint J t c p = Inl f"
  proof (cases p)
    case (Redis_plugin d)
    with h have f: "publish kuint ''foo'' (write_json J t (pretty_json d)) (Client c) (rcon d) = Inl f"
      by (auto simp: plugin_handle_def dr_handle_process_data_def and_then_Inl)
    have "settled (rcon d)" using assms Redis_plugin by (simp add: plugin_inv_def)
    from publish_settled [OF this, of kuint "''foo''" "write_json J t (pretty_json d)" "Client c"] f show ?thesis by auto
  qed (use h in \<open>simp add: plugin_handle_def\<close>)
  show "f \<in> {End_iterator, Reply_out_of_range, Publish_overrun}" if h: "plugin_progress kuint ev p = Inl f"
    using h assms redis.step_allowed
    by (auto simp: plugin_progress_def redis_progress_def and_then_Inl plugin_inv_def
        split: plugin_event.splits plugin_instance.splits if_splits)
qed

end
