(* ===== verification/Service.thy ===== *)
theory Service
  imports Transport Plugins
begin

text \<open>
  The running daemon: connections with their Wialon translators, the queue of the \<open>io_service\<close>, the
  combiners and the dispatcher instances, as one machine whose events come in any order. A
  record is named by the session that stored it and the position of the call among the session's calls;
  this name stands for the callback that the translator passed along. The tree of a record is a reference
  into the store of its session.
\<close>

type_synonym record_id = "nat \<times> nat"
type_synonym tree_ref = "nat \<times> nat option"

subsection \<open>State\<close>

record service_env =
  parse_env :: "dptree wialon_env"
  print_uint :: "64 word \<Rightarrow> string"
  json :: json_env

text \<open>\<open>told\<close> lists the calls of the translators' callbacks, oldest first.\<close>

record service =
  conns :: "(session \<times> dptree conn_state) list"
  jobs :: "(tree_ref, record_id) router_io"
  plugs :: "record_id data_callback plugin_instance list"
  told :: "(record_id \<times> bool) list"

datatype service_fault =
    Translator_fault wialon_fault
  | Dispatcher_fault redis_fault
  | Combiner_fault combiner_fault
  | Accept_fault config_error
  | No_such_tree
  | No_such_plugin

definition service_start :: "record_id data_callback plugin_instance list \<Rightarrow> service" where
  "service_start ps = \<lparr>conns = [], jobs = \<lparr>posted = [], combiners = []\<rparr>, plugs = ps, told = []\<rparr>"

abbreviation of_fault :: "('e \<Rightarrow> 'f) \<Rightarrow> 'e + 'a \<Rightarrow> 'f + 'a" where
  "of_fault f r \<equiv> map_sum f id r"

lemma of_fault_Inr [simp]: "of_fault f r = Inr a \<longleftrightarrow> r = Inr a"
  by (cases r) auto

subsection \<open>Sessions\<close>

text \<open>
  A new connection: \<open>on_connection\<close>, and a translator whose uninitialized members are what the memory
  held. Connections of other translators never call the router and are left out.
\<close>

definition accept_conn ::
  "plugin_factory \<Rightarrow> 16 word \<Rightarrow> string option \<Rightarrow> dptree wialon_plugin \<Rightarrow> service \<Rightarrow> service_fault + service" where
  "accept_conn pf port peer w D =
     and_then (of_fault Accept_fault (on_connection pf port peer)) (\<lambda>s.
     Inr (if info_puid (handler s) = ''wialon'' then D\<lparr>conns := conns D @ [(s, conn_start w)]\<rparr> else D))"

text \<open>What \<open>papi\<close> does with the translator's calls: records go to the routes of the session.\<close>

definition serve_new ::
  "session \<Rightarrow> nat \<Rightarrow> nat \<times> api_call \<Rightarrow> (tree_ref, record_id) router_io \<Rightarrow> combiner_fault + (tree_ref, record_id) router_io" where
  "serve_new s i kc q =
     (case snd kc of Process_data r \<Rightarrow> session_process_data s (i, r) (i, fst kc) q | _ \<Rightarrow> Inr q)"

definition new_calls :: "'t wialon_plugin \<Rightarrow> 't wialon_plugin \<Rightarrow> (nat \<times> api_call) list" where
  "new_calls w w' = drop (length (api_calls w)) (enumerate 0 (api_calls w'))"

definition conn_turn :: "service_env \<Rightarrow> nat \<Rightarrow> conn_event \<Rightarrow> service \<Rightarrow> service_fault + service" where
  "conn_turn V i ev D =
     (case at (conns D) i of
        None \<Rightarrow> Inr D
      | Some (s, w, io) \<Rightarrow>
          and_then (of_fault Translator_fault (conn_step s (parse_env V) ev (w, io))) (\<lambda>(w', io').
          and_then (of_fault Combiner_fault (fold_res (serve_new s i) (new_calls w w') (jobs D))) (\<lambda>q.
          Inr (D\<lparr>conns := (conns D)[i := (s, w', io')], jobs := q\<rparr>))))"

subsection \<open>Answers\<close>

text \<open>The callback of a record, bound to the translator of its session.\<close>

definition call_back :: "service_env \<Rightarrow> record_id \<Rightarrow> bool \<Rightarrow> service \<Rightarrow> service_fault + service" where
  "call_back V rid ok D = conn_turn V (fst rid) (Data_answer ok) (D\<lparr>told := told D @ [(rid, ok)]\<rparr>)"

text \<open>An operation on a copy of a combiner; the destructor calls the callback it holds.\<close>

definition set_combiner :: "nat \<Rightarrow> record_id combiner \<Rightarrow> service \<Rightarrow> service" where
  "set_combiner c comb D = D\<lparr>jobs := (jobs D)\<lparr>combiners := (combiners (jobs D))[c := comb]\<rparr>\<rparr>"

definition combiner_op :: "service_env \<Rightarrow> nat \<Rightarrow> combiner_op \<Rightarrow> service \<Rightarrow> service_fault + service" where
  "combiner_op V c op D =
     (case at (combiners (jobs D)) c of
        None \<Rightarrow> Inl (Combiner_fault Destroyed)
      | Some comb \<Rightarrow>
          and_then (of_fault Combiner_fault (combiner_step op comb)) (\<lambda>comb'.
          fold_res (call_back V (comb_callback comb')) (drop (length (fired comb)) (fired comb'))
            (set_combiner c comb' D)))"

text \<open>A dispatcher calls what it was given and drops it.\<close>

definition deliver ::
  "service_env \<Rightarrow> record_id data_callback \<times> bool \<Rightarrow> service \<Rightarrow> service_fault + service" where
  "deliver V x D =
     (case fst x of
        Direct rid \<Rightarrow> call_back V rid (snd x) D
      | Combined c \<Rightarrow> and_then (combiner_op V c (Call (snd x)) D) (combiner_op V c Release))"

text \<open>An operation of a dispatcher, with the answers it gives in its course.\<close>

definition plugin_turn ::
  "service_env \<Rightarrow> nat \<Rightarrow>
    (record_id data_callback plugin_instance \<Rightarrow> redis_fault + record_id data_callback plugin_instance) \<Rightarrow>
    service \<Rightarrow> service_fault + service" where
  "plugin_turn V j f D =
     (case at (plugs D) j of
        None \<Rightarrow> Inl No_such_plugin
      | Some p \<Rightarrow>
          and_then (of_fault Dispatcher_fault (f p)) (\<lambda>p'.
          fold_res (deliver V) (drop (length (plugin_answered p)) (plugin_answered p'))
            (D\<lparr>plugs := (plugs D)[j := p']\<rparr>)))"

subsection \<open>The queue of the io_service\<close>

definition task_tree :: "service \<Rightarrow> tree_ref \<Rightarrow> dptree option" where
  "task_tree D t =
     (case at (conns D) (fst t) of None \<Rightarrow> None | Some (s, w, io) \<Rightarrow> Option.bind (snd t) (at (trees w)))"

text \<open>The bound copy of a task: it is copied for the dispatcher, and goes when the task is done.\<close>

definition hold_callback :: "service_env \<Rightarrow> record_id data_callback \<Rightarrow> service \<Rightarrow> service_fault + service" where
  "hold_callback V x D = (case x of Direct rid \<Rightarrow> Inr D | Combined c \<Rightarrow> combiner_op V c Copy D)"

definition drop_callback :: "service_env \<Rightarrow> record_id data_callback \<Rightarrow> service \<Rightarrow> service_fault + service" where
  "drop_callback V x D = (case x of Direct rid \<Rightarrow> Inr D | Combined c \<Rightarrow> combiner_op V c Release D)"

definition take_task :: "nat \<Rightarrow> service \<Rightarrow> service" where
  "take_task n D = D\<lparr>jobs := (jobs D)\<lparr>posted := remove_nth n (posted (jobs D))\<rparr>\<rparr>"

text \<open>Any thread may run any task of the queue.\<close>

definition run_task :: "service_env \<Rightarrow> nat \<Rightarrow> service \<Rightarrow> service_fault + service" where
  "run_task V n D =
     (case at (posted (jobs D)) n of
        None \<Rightarrow> Inr D
      | Some (Callback_false rid) \<Rightarrow> call_back V rid False (take_task n D)
      | Some (Handle_data d t x) \<Rightarrow>
          (case task_tree D t of
             None \<Rightarrow> Inl No_such_tree
           | Some doc \<Rightarrow>
               and_then (hold_callback V x (take_task n D)) (\<lambda>D1.
               and_then (plugin_turn V (disp_id d) (plugin_handle (print_uint V) (json V) doc x) D1)
                 (drop_callback V x))))"

subsection \<open>Events\<close>

datatype service_event =
    Accept "16 word" "string option" string nat "64 word" bool command_t
  | Connection nat conn_event
  | Run_task nat
  | Plugin nat "record_id data_callback plugin_event"

text \<open>
  Only ports that have a translator have a listener. Answers to records are no events of their own: only
  dispatchers give them.
\<close>

fun service_step :: "service_env \<Rightarrow> plugin_factory \<Rightarrow> service_event \<Rightarrow> service \<Rightarrow> service_fault + service" where
  "service_step V pf (Accept port peer buf est multi err c) D =
     (if list_port port (translators pf) = [] then Inr D
      else accept_conn pf port peer (wialon_init buf est multi err c) D)"
| "service_step V pf (Connection i ev) D =
     (case ev of Data_answer ok \<Rightarrow> Inr D | _ \<Rightarrow> conn_turn V i ev D)"
| "service_step V pf (Run_task n) D = run_task V n D"
| "service_step V pf (Plugin j ev) D =
     (if j < length (plugs D) then plugin_turn V j (plugin_progress (print_uint V) ev) D else Inr D)"

text \<open>The states a daemon with the factory \<open>pf\<close> and the dispatcher instances \<open>ps\<close> gets into.\<close>

inductive service_reachable ::
  "service_env \<Rightarrow> plugin_factory \<Rightarrow> record_id data_callback plugin_instance list \<Rightarrow> service \<Rightarrow> bool"
  for V pf ps where
  start: "service_reachable V pf ps (service_start ps)"
| step: "service_reachable V pf ps D \<Longrightarrow> service_step V pf ev D = Inr D' \<Longrightarrow> service_reachable V pf ps D'"

text \<open>A run is a way to reach a state.\<close>

lemma service_run_reachable:
  "service_reachable V pf ps D \<Longrightarrow> fold_res (service_step V pf) evs D = Inr D' \<Longrightarrow> service_reachable V pf ps D'"
  by (induction evs arbitrary: D) (auto simp: res_simps intro: service_reachable.step)

text \<open>The dispatchers that the settings make, in the order of their sections.\<close>

definition service_plugins :: "json_env \<Rightarrow> config \<Rightarrow> 'c plugin_instance list option" where
  "service_plugins J settings = those (map (make_plugin J) (pt_children settings))"

end
