(* ===== verification/Service_Core.thy ===== *)
theory Service_Core
  imports Service
begin

text \<open>
  The invariant of the running daemon, in parts: who holds a copy of which combiner, that every stored
  record is told an answer or is still under way, what the combiners know, where a callback may be, and why
  a callback was called. Each small step (a call of a callback, a copy that goes, an answer that is given,
  a record that is stored) keeps it. What the translators hand out comes first.
\<close>

subsection \<open>Translators hand out trees\<close>

definition hands_trees :: "'t wialon_plugin \<Rightarrow> bool" where
  "hands_trees s \<longleftrightarrow> Process_data None \<notin> set (api_calls s)"

lemma hands_trees_simps [simp]:
  "hands_trees (s\<lparr>sbuf := buf\<rparr>) = hands_trees s"
  "hands_trees (s\<lparr>state := st\<rparr>) = hands_trees s"
  "hands_trees (s\<lparr>api_calls := api_calls s @ [Do_read_until d]\<rparr>) = hands_trees s"
  "hands_trees (store_data s) \<longleftrightarrow> hands_trees s \<and> tree s \<noteq> None"
  "hands_trees (parser_error s) = hands_trees s"
  "hands_trees (new_tree E s) = hands_trees s"
  by (auto simp: hands_trees_def store_data_def parser_error_def new_tree_def) (metis option.exhaust)

lemma answer_hands: "answer msg s = Inr t \<Longrightarrow> hands_trees t = hands_trees s"
  by (simp add: hands_trees_def answer_calls)

lemma handle_authenticate_hands: "handle_authenticate ok s = Inr t \<Longrightarrow> hands_trees t = hands_trees s"
  by (auto simp: handle_authenticate_def Let_def hands_trees_def answer_calls split: if_splits)

lemma commit_command_hands: "commit_command E s = Inr t \<Longrightarrow> hands_trees s \<Longrightarrow> hands_trees t"
  by (auto simp: commit_command_def commit_login_def call_authenticate_def Let_def and_then_Inr
      split: option.splits command_t.splits if_splits
      dest!: answer_hands handle_authenticate_hands) (simp_all add: hands_trees_def)

lemma consume_eol_hands:
  assumes "parser_inv E s" and "hands_trees s" and "consume_eol E s = Inr t"
  shows "hands_trees t"
proof -
  have "state s \<noteq> STATE_INITIAL \<Longrightarrow> tree s \<noteq> None"
    using assms(1) by (simp add: parser_inv_def tree_ok_def)
  with assms(2,3) show ?thesis
    by (auto simp: consume_eol_def and_then_Inr unexpected_token_def store_data_frame
        split: state_t.splits if_splits dest: commit_command_hands)
qed

lemma consume_token_hands:
  assumes "parser_inv E s" and "hands_trees s" and "consume_token E tok s = Inr t"
  shows "hands_trees t"
proof (cases "tok = crlf")
  case True
  with assms consume_eol_hands show ?thesis by (auto simp: consume_token_def)
next
  case False
  have set_tree: "state s \<noteq> STATE_INITIAL \<Longrightarrow> tree s \<noteq> None"
    using assms(1) by (simp add: parser_inv_def tree_ok_def)
  consider "state s = STATE_BODY" | "state s = STATE_BAR" | "state s \<notin> {STATE_BODY, STATE_BAR}" by blast
  then show ?thesis
  proof cases
    case 1
    with set_tree assms(2,3) False show ?thesis
      by (auto simp: consume_token_def consume_body_def put_field_def and_then_Inr Let_def hands_trees_def
          store_data_def new_tree_def split: option.splits if_splits)
  next
    case 2
    with set_tree assms(2,3) False show ?thesis
      by (auto simp: consume_token_def unexpected_token_def parser_error_frame split: if_splits)
  next
    case 3
    with assms(2,3) False show ?thesis
      by (auto simp: consume_token_def consume_command_def unexpected_token_def parser_error_def start_message_def
          new_tree_def Let_def hands_trees_def split: state_t.splits option.splits if_splits)
  qed
qed

sublocale wialon_world \<subseteq> hand: machine "consume_token E" "\<lambda>s. parser_inv E s \<and> hands_trees s"
  by unfold_locales (auto intro: consume_token_inv consume_token_hands)

context wialon_world
begin

lemma handle_read_hands:
  assumes "idle_inv s" and "hands_trees s" and "handle_read E s = Inr t"
  shows "hands_trees t"
  using assms(3)
proof (cases rule: handle_read_Inr)
  case (stuck buf)
  with assms(2) show ?thesis by simp
next
  case (worked m buf s2 s3)
  have inv: "parser_inv E (s\<lparr>sbuf := buf\<rparr>)" using assms(1) by (simp add: idle_parser_inv)
  with assms(2) have "parser_inv E s2 \<and> hands_trees s2"
    using hand.run_inv [OF _ worked(2) [unfolded parse_string_def]] by simp
  with worked(3,4) show ?thesis using consume_eol_hands by auto
qed

end

text \<open>A session's translator: at rest between its calls, and every tree it handed out exists.\<close>

definition parser_rests :: "'t wialon_plugin \<Rightarrow> bool" where
  "parser_rests w \<longleftrightarrow> idle_inv w \<and> hands_trees w"

lemma conn_step_translator:
  assumes "wialon_world E" and "parser_rests w" and "conn_step s E ev (w, io) = Inr (w', io')"
  shows "parser_rests w' \<and> length (trees w) \<le> length (trees w')"
proof -
  have read: "parser_rests u \<and> length (trees w) \<le> length (trees u)"
    if "handle_read (session_env s E) (w\<lparr>sbuf := b\<rparr>) = Inr u" for b u
  proof -
    have ok: "idle_inv (w\<lparr>sbuf := b\<rparr>)" "hands_trees (w\<lparr>sbuf := b\<rparr>)" using assms(2) by (simp_all add: parser_rests_def)
    note world = session_world [OF assms(1), of s]
    from wialon_world.handle_read_idle [OF world ok(1) that] wialon_world.handle_read_hands [OF world ok that]
      wialon_world.handle_read_keeps [OF world ok(1) that]
    show ?thesis by (simp add: parser_rests_def keeps_def)
  qed
  have same: "parser_rests (w\<lparr>sbuf := b\<rparr>)" for b using assms(2) by (simp add: parser_rests_def)
  have data: "parser_rests u \<and> trees u = trees w" if "handle_process_data ok w = Inr u" for ok u
  proof -
    have "hands_trees u"
      using that assms(2)
      by (auto simp: handle_process_data_def hands_trees_def parser_rests_def answer_calls split: if_splits)
    with handle_process_data_idle [OF _ that] handle_process_data_Inr(1) [OF that] assms(2) show ?thesis
      by (simp add: parser_rests_def same_trees_def)
  qed
  show ?thesis
  proof (cases ev)
    case (Read_completed ec n bytes)
    show ?thesis
    proof (cases "reads io = [] \<or> ec = Success \<and> \<not> read_ready (hd (reads io)) (sbuf w @ bytes) n")
      case True
      with assms Read_completed show ?thesis by (auto split: list.splits)
    next
      case False
      with assms Read_completed have r: "socket_step s E (Socket_read ec n bytes) w = Inr w'"
        by (auto simp: then_issue_Inr split: list.splits if_splits)
      show ?thesis
      proof (cases "ec = Success \<and> 0 < n")
        case True
        with r read [of "sbuf w @ bytes" w'] show ?thesis by (simp add: socket_read_step)
      next
        case False
        with r same [of "sbuf w @ bytes"] show ?thesis
          by (auto simp: socket_step_def conn_handle_read_def split: if_splits)
      qed
    qed
  next
    case (Write_completed i ec)
    with assms show ?thesis
      by (auto simp: then_issue_Inr socket_step_def conn_handle_write_def handle_write_def split: if_splits)
  next
    case (Data_answer ok)
    with assms(3) data [of ok w'] show ?thesis by (simp add: then_issue_Inr)
  qed (use assms in \<open>auto split: if_splits prod.splits\<close>)
qed

subsection \<open>The parts of the invariant\<close>

text \<open>
  They speak of the routes \<open>T\<close> of the sessions, the combiners \<open>cs\<close>, the tasks \<open>ts\<close>, the dispatchers \<open>ps\<close>
  and the calls \<open>l\<close> of the translators' callbacks, of the records \<open>R\<close> that were stored, of the answers
  \<open>P\<close> that a dispatcher is about to give, and of the copies \<open>X\<close> that a running task holds.
\<close>

type_synonym record_callback = "record_id data_callback"
type_synonym record_task = "(tree_ref, record_id) task"

fun task_callback :: "record_task \<Rightarrow> record_callback multiset" where
  "task_callback (Handle_data d t x) = {#x#}"
| "task_callback (Callback_false rid) = {#}"

fun task_false :: "record_task \<Rightarrow> record_id multiset" where
  "task_false (Handle_data d t x) = {#}"
| "task_false (Callback_false rid) = {#rid#}"

fun promised :: "record_callback \<Rightarrow> record_id multiset" where
  "promised (Direct rid) = {#rid#}"
| "promised (Combined c) = {#}"

definition owed :: "record_task list \<Rightarrow> record_callback plugin_instance list \<Rightarrow> (record_callback \<times> bool) list \<Rightarrow>
    record_callback multiset" where
  "owed ts ps P = sum_list (map task_callback ts) + sum_list (map plugin_waiting ps) + mset (map fst P)"

definition unfinished :: "record_id combiner list \<Rightarrow> record_id multiset" where
  "unfinished cs = sum_list (map (\<lambda>c. if comb_copies c = 0 then {#} else {#comb_callback c#}) cs)"

definition given :: "record_callback plugin_instance list \<Rightarrow> (record_callback \<times> bool) set" where
  "given ps = (\<Union>p \<in> set ps. set (plugin_answered p))"

abbreviation owners :: "record_id combiner list \<Rightarrow> record_id list" where
  "owners cs \<equiv> map comb_callback cs"

text \<open>Every stored record has been told an answer, or is posted without a target, with a dispatcher, or with a combiner.\<close>

definition ledger_ok where
  "ledger_ok R P cs ts ps (l :: (record_id \<times> bool) list) \<longleftrightarrow>
     R = mset (map fst l) + sum_list (map task_false ts) + \<Sum>\<^sub># (image_mset promised (owed ts ps P)) + unfinished cs"

definition copies_ok where
  "copies_ok P X cs ts ps \<longleftrightarrow> (\<forall>comb \<in> set cs. combiner_ok comb) \<and>
     (\<forall>c. count (owed ts ps P + X) (Combined c) = (if c < length cs then comb_copies (cs ! c) else 0))"

definition results_ok where
  "results_ok P cs ps \<longleftrightarrow> set P \<subseteq> given ps \<and>
     (\<forall>c < length cs. if comb_result (cs ! c) then (Combined c, False) \<in> given ps \<longrightarrow> (Combined c, False) \<in> set P
        else (Combined c, False) \<in> given ps)"

text \<open>A callback that is with dispatcher \<open>j\<close> belongs to a session whose route names that dispatcher.\<close>

fun belongs :: "dispatcher list list \<Rightarrow> record_id list \<Rightarrow> record_callback \<Rightarrow> nat \<Rightarrow> bool" where
  "belongs T os (Direct rid) j \<longleftrightarrow> fst rid < length T \<and> (\<exists>d. T ! fst rid = [d] \<and> disp_id d = j)"
| "belongs T os (Combined c) j \<longleftrightarrow> c < length os \<and> j \<in> disp_id ` set (T ! fst (os ! c))"

fun task_ok :: "dispatcher list list \<Rightarrow> record_id list \<Rightarrow> record_task \<Rightarrow> bool" where
  "task_ok T os (Handle_data d t x) \<longleftrightarrow> belongs T os x (disp_id d)"
| "task_ok T os (Callback_false rid) \<longleftrightarrow> fst rid < length T \<and> T ! fst rid = []"

definition places_ok where
  "places_ok T os ts ps \<longleftrightarrow>
     (\<forall>rid \<in> set os. fst rid < length T \<and> 1 < length (T ! fst rid)) \<and> (\<forall>t \<in> set ts. task_ok T os t) \<and>
     (\<forall>j < length ps. \<forall>x. x \<in># plugin_waiting (ps ! j) \<or> x \<in> fst ` set (plugin_answered (ps ! j)) \<longrightarrow> belongs T os x j)"

text \<open>Every dispatcher that a route names has, had or will be given the callback.\<close>

definition gets :: "record_task list \<Rightarrow> record_callback plugin_instance list \<Rightarrow> record_callback \<Rightarrow> nat \<Rightarrow> bool" where
  "gets ts ps x j \<longleftrightarrow>
     (\<exists>d t. Handle_data d t x \<in> set ts \<and> disp_id d = j) \<or> x \<in># plugin_waiting (ps ! j) \<or>
     x \<in> fst ` set (plugin_answered (ps ! j))"

definition spread_ok where
  "spread_ok T os ts ps \<longleftrightarrow> (\<forall>c < length os. \<forall>d \<in> set (T ! fst (os ! c)). gets ts ps (Combined c) (disp_id d))"

text \<open>Why a callback was called.\<close>

definition told_why where
  "told_why T cs ps rid ok \<longleftrightarrow> fst rid < length T \<and>
     (T ! fst rid = [] \<and> \<not> ok \<or>
      (\<exists>d. T ! fst rid = [d] \<and> (Direct rid, ok) \<in> set (plugin_answered (ps ! disp_id d))) \<or>
      (\<exists>c < length cs. comb_callback (cs ! c) = rid \<and> comb_copies (cs ! c) = 0 \<and> comb_result (cs ! c) = ok))"

definition told_ok where
  "told_ok T cs ps l \<longleftrightarrow> (\<forall>(rid, ok) \<in> set l. told_why T cs ps rid ok)"

definition plugins_sane where
  "plugins_sane T ps \<longleftrightarrow> (\<forall>p \<in> set ps. plugin_inv p) \<and> (\<forall>ds \<in> set T. \<forall>d \<in> set ds. disp_id d < length ps)"

definition core_inv where
  "core_inv R P X T cs ts ps l \<longleftrightarrow>
     ledger_ok R P cs ts ps l \<and> copies_ok P X cs ts ps \<and> results_ok P cs ps \<and> places_ok T (owners cs) ts ps \<and>
     spread_ok T (owners cs) ts ps \<and> told_ok T cs ps l \<and> plugins_sane T ps"

subsection \<open>Lists\<close>

lemma sum_list_upd:
  fixes f :: "'a \<Rightarrow> 'b multiset"
  shows "i < length xs \<Longrightarrow> sum_list (map f (xs[i := x])) + f (xs ! i) = sum_list (map f xs) + f x"
proof (induction xs arbitrary: i)
  case (Cons y ys)
  then show ?case by (cases i) (auto simp: ac_simps)
qed simp

lemma remove_nth_split: "n < length xs \<Longrightarrow> xs = take n xs @ xs ! n # drop (Suc n) xs"
  by (rule id_take_nth_drop)

lemma sum_list_remove:
  fixes f :: "'a \<Rightarrow> 'b multiset"
  assumes "n < length xs"
  shows "sum_list (map f xs) = sum_list (map f (remove_nth n xs)) + f (xs ! n)"
  by (subst remove_nth_split [OF assms]) (simp add: remove_nth_def)

lemma set_remove_nth:
  assumes "n < length xs"
  shows "set xs = insert (xs ! n) (set (remove_nth n xs))"
  by (subst remove_nth_split [OF assms]) (simp add: remove_nth_def)

lemma given_nth: "given ps = (\<Union>i < length ps. set (plugin_answered (ps ! i)))"
proof -
  have "set ps = (!) ps ` {..<length ps}" by (auto simp: in_set_conv_nth)
  then show ?thesis by (simp add: given_def)
qed

lemma given_upd:
  assumes "j < length ps" and "plugin_answered p' = plugin_answered (ps ! j) @ as"
  shows "given (ps[j := p']) = given ps \<union> set as"
  unfolding given_nth using assms by (auto simp: nth_list_update split: if_splits)

subsection \<open>The small steps\<close>

text \<open>A combiner of which a copy is about to be used is alive.\<close>

lemma combiner_alive:
  assumes "copies_ok P X cs ts ps" and "Combined c \<in># owed ts ps P + X"
  shows "c < length cs" and "0 < comb_copies (cs ! c)" and "combiner_ok (cs ! c)"
proof -
  from assms(2) have "0 < count (owed ts ps P + X) (Combined c)" by (simp only: count_greater_zero_iff)
  with assms(1) have "0 < (if c < length cs then comb_copies (cs ! c) else 0)" by (simp only: copies_ok_def)
  then show "c < length cs" and "0 < comb_copies (cs ! c)" by (auto split: if_splits)
  with assms(1) show "combiner_ok (cs ! c)" by (simp add: copies_ok_def)
qed

lemma owners_upd [simp]: "comb_callback comb = comb_callback (cs ! c) \<Longrightarrow> owners (cs[c := comb]) = owners cs"
  by (metis list_update_id map_update)

lemma unfinished_upd:
  "c < length cs \<Longrightarrow> unfinished (cs[c := comb]) + (if comb_copies (cs ! c) = 0 then {#} else {#comb_callback (cs ! c)#}) =
     unfinished cs + (if comb_copies comb = 0 then {#} else {#comb_callback comb#})"
  unfolding unfinished_def by (rule sum_list_upd)

text \<open>A combiner that stays alive, with another result or number of copies, is still no reason for a call.\<close>

lemma told_why_upd:
  assumes "told_why T cs ps rid ok" and "0 < comb_copies (cs ! c)"
  shows "told_why T (cs[c := comb]) ps rid ok"
proof -
  have "(\<exists>i < length cs. comb_callback (cs ! i) = rid \<and> comb_copies (cs ! i) = 0 \<and> comb_result (cs ! i) = ok) \<Longrightarrow>
    \<exists>i < length cs. comb_callback (cs[c := comb] ! i) = rid \<and> comb_copies (cs[c := comb] ! i) = 0 \<and>
      comb_result (cs[c := comb] ! i) = ok"
    using assms(2) by (metis gr_implies_not0 nth_list_update_neq)
  with assms(1) show ?thesis by (auto simp: told_why_def)
qed

lemma told_ok_upd: "told_ok T cs ps l \<Longrightarrow> 0 < comb_copies (cs ! c) \<Longrightarrow> told_ok T (cs[c := comb]) ps l"
  by (auto simp: told_ok_def told_why_upd)

lemma unfinished_alive:
  assumes "c < length cs" and "comb_copies (cs ! c) \<noteq> 0" and "comb_callback comb = comb_callback (cs ! c)"
  shows "comb_copies comb \<noteq> 0 \<Longrightarrow> unfinished (cs[c := comb]) = unfinished cs"
    and "comb_copies comb = 0 \<Longrightarrow> unfinished cs = unfinished (cs[c := comb]) + {#comb_callback comb#}"
  using unfinished_upd [OF assms(1), of comb] assms(2,3) by simp_all

lemma copies_count:
  "copies_ok P X cs ts ps \<Longrightarrow> c < length cs \<Longrightarrow>
    count (owed ts ps P) (Combined c) + count X (Combined c) = comb_copies (cs ! c)"
  by (simp add: copies_ok_def)

lemma results_upd:
  assumes "results_ok P cs ps" and "set P' \<subseteq> given ps"
    and "if comb_result comb then (Combined c, False) \<in> given ps \<longrightarrow> (Combined c, False) \<in> set P'
      else (Combined c, False) \<in> given ps"
    and "\<And>c'. c' \<noteq> c \<Longrightarrow> (Combined c', False) \<in> set P \<Longrightarrow> (Combined c', False) \<in> set P'"
  shows "results_ok P' (cs[c := comb]) ps"
  unfolding results_ok_def
proof (intro conjI allI impI)
  fix c' assume "c' < length (cs[c := comb])"
  with assms(1,3,4) show "if comb_result (cs[c := comb] ! c') then (Combined c', False) \<in> given ps \<longrightarrow> (Combined c', False) \<in> set P'
      else (Combined c', False) \<in> given ps"
    by (cases "c' = c") (auto simp: results_ok_def)
qed (rule assms(2))

lemma results_at:
  "results_ok P cs ps \<Longrightarrow> c < length cs \<Longrightarrow>
    if comb_result (cs ! c) then (Combined c, False) \<in> given ps \<longrightarrow> (Combined c, False) \<in> set P
    else (Combined c, False) \<in> given ps"
  by (simp add: results_ok_def)

lemma copies_upd:
  assumes "copies_ok P X cs ts ps" and "c < length cs" and "combiner_ok comb"
    and "\<And>c'. count (owed ts' ps' P' + X') (Combined c') = (if c' = c then comb_copies comb else count (owed ts ps P + X) (Combined c'))"
  shows "copies_ok P' X' (cs[c := comb]) ts' ps'"
  using assms by (auto simp: copies_ok_def nth_list_update dest!: set_update_subset_insert [THEN subsetD])

text \<open>One more copy of a combiner that is alive.\<close>

lemma core_copy:
  assumes inv: "core_inv R P X T cs ts ps l" and "c < length cs" and alive: "0 < comb_copies (cs ! c)"
  shows "core_inv R P (X + {#Combined c#}) T (cs[c := (cs ! c)\<lparr>comb_copies := Suc (comb_copies (cs ! c))\<rparr>]) ts ps l"
proof -
  let ?comb = "(cs ! c)\<lparr>comb_copies := Suc (comb_copies (cs ! c))\<rparr>"
  have copies: "copies_ok P X cs ts ps" using inv by (simp add: core_inv_def)
  have "combiner_ok (cs ! c)" using copies assms(2) by (simp add: copies_ok_def)
  then have "combiner_ok ?comb" using alive by (simp add: combiner_ok_def)
  then have "copies_ok P (X + {#Combined c#}) (cs[c := ?comb]) ts ps"
    by (rule copies_upd [OF copies assms(2)]) (simp add: copies_count [OF copies assms(2)])
  moreover have "ledger_ok R P (cs[c := ?comb]) ts ps l"
    using inv unfinished_alive(1) [OF assms(2), of ?comb] alive by (simp add: core_inv_def ledger_ok_def)
  moreover have results: "results_ok P cs ps" using inv by (simp add: core_inv_def)
  then have "results_ok P (cs[c := ?comb]) ps"
    by (rule results_upd) (use results results_at [OF results assms(2)] in \<open>auto simp: results_ok_def\<close>)
  ultimately show ?thesis
    using inv told_ok_upd [OF _ alive, of T ps l ?comb] by (simp add: core_inv_def)
qed

text \<open>An answer is given to a combiner: the copy is used and still has to go.\<close>

lemma core_call:
  assumes inv: "core_inv R ((Combined c, b) # P) X T cs ts ps l"
  shows "core_inv R P (X + {#Combined c#}) T (cs[c := combine b (cs ! c)]) ts ps l"
proof -
  let ?comb = "combine b (cs ! c)"
  have copies: "copies_ok ((Combined c, b) # P) X cs ts ps" using inv by (simp add: core_inv_def)
  have owed: "owed ts ps ((Combined c, b) # P) = owed ts ps P + {#Combined c#}" by (simp add: owed_def)
  note alive = combiner_alive [OF copies, of c, unfolded owed, simplified]
  have same: "comb_callback ?comb = comb_callback (cs ! c)" "comb_copies ?comb = comb_copies (cs ! c)"
    "fired ?comb = fired (cs ! c)" by (simp_all add: combine_def)
  have result: "comb_result ?comb \<longleftrightarrow> comb_result (cs ! c) \<and> b" by (simp add: combine_def)
  have "combiner_ok ?comb" using alive same by (simp add: combiner_ok_def)
  then have "copies_ok P (X + {#Combined c#}) (cs[c := ?comb]) ts ps"
    by (rule copies_upd [OF copies alive(1)]) (use copies_count [OF copies alive(1)] same owed in auto)
  moreover have "ledger_ok R P (cs[c := ?comb]) ts ps l"
    using inv unfinished_alive(1) [OF alive(1), of ?comb] alive(2) same owed by (simp add: core_inv_def ledger_ok_def)
  moreover have results: "results_ok ((Combined c, b) # P) cs ps" using inv by (simp add: core_inv_def)
  then have "results_ok P (cs[c := ?comb]) ps"
    by (rule results_upd) (use results results_at [OF results alive(1)] result in \<open>auto simp: results_ok_def\<close>)
  ultimately show ?thesis
    using inv same told_ok_upd [OF _ alive(2), of T ps l ?comb] by (simp add: core_inv_def)
qed

text \<open>A copy of a combiner goes; with the last one the callback is called.\<close>

definition released :: "'c combiner \<Rightarrow> 'c combiner" where
  "released comb = comb\<lparr>comb_copies := comb_copies comb - 1, fired := if comb_copies comb = 1 then [comb_result comb] else []\<rparr>"

definition release_tells :: "'c combiner \<Rightarrow> ('c \<times> bool) list" where
  "release_tells comb = (if comb_copies comb = 1 then [(comb_callback comb, comb_result comb)] else [])"

lemma core_release:
  assumes inv: "core_inv R P (X + {#Combined c#}) T cs ts ps l"
  shows "core_inv R P X T (cs[c := released (cs ! c)]) ts ps (l @ release_tells (cs ! c))"
proof -
  let ?comb = "released (cs ! c)"
  have copies: "copies_ok P (X + {#Combined c#}) cs ts ps" using inv by (simp add: core_inv_def)
  note alive = combiner_alive [OF copies, of c, simplified]
  have same: "comb_callback ?comb = comb_callback (cs ! c)" "comb_result ?comb = comb_result (cs ! c)"
    "comb_copies ?comb = comb_copies (cs ! c) - 1" by (simp_all add: released_def)
  have "combiner_ok ?comb" using alive by (auto simp: released_def combiner_ok_def)
  then have "copies_ok P X (cs[c := ?comb]) ts ps"
    by (rule copies_upd [OF copies alive(1)]) (use copies_count [OF copies alive(1)] same in auto)
  moreover have "ledger_ok R P (cs[c := ?comb]) ts ps (l @ release_tells (cs ! c))"
    using inv unfinished_alive [OF alive(1), of ?comb] alive(2) same
    by (cases "comb_copies (cs ! c) = 1") (simp_all add: core_inv_def ledger_ok_def release_tells_def)
  moreover have results: "results_ok P cs ps" using inv by (simp add: core_inv_def)
  then have "results_ok P (cs[c := ?comb]) ps"
    by (rule results_upd) (use results results_at [OF results alive(1)] same in \<open>auto simp: results_ok_def\<close>)
  moreover have "told_why T (cs[c := ?comb]) ps (comb_callback (cs ! c)) (comb_result (cs ! c))" if "comb_copies (cs ! c) = 1"
    using inv alive(1) same that
    by (auto simp: core_inv_def places_ok_def told_why_def intro!: exI [of _ c])
  then have "told_ok T (cs[c := ?comb]) ps (l @ release_tells (cs ! c))"
    using inv told_ok_upd [of T cs ps l c ?comb] alive(2) by (auto simp: core_inv_def told_ok_def release_tells_def)
  ultimately show ?thesis
    using inv same by (simp add: core_inv_def)
qed

text \<open>A callback that no combiner holds: the answer of the only target, or the refusal without one.\<close>

lemma core_direct:
  assumes inv: "core_inv R ((Direct rid, b) # P) X T cs ts ps l"
  shows "core_inv R P X T cs ts ps (l @ [(rid, b)])"
proof -
  have owed: "owed ts ps ((Direct rid, b) # P) = owed ts ps P + {#Direct rid#}" by (simp add: owed_def)
  obtain p where "p \<in> set ps" "(Direct rid, b) \<in> set (plugin_answered p)"
    using inv by (auto simp: core_inv_def results_ok_def given_def)
  then obtain j where j: "j < length ps" "(Direct rid, b) \<in> set (plugin_answered (ps ! j))"
    by (auto simp: in_set_conv_nth)
  then have "Direct rid \<in> fst ` set (plugin_answered (ps ! j))" by force
  with inv j(1) have "belongs T (owners cs) (Direct rid) j" unfolding core_inv_def places_ok_def by blast
  with j have "told_why T cs ps rid b" by (auto simp: told_why_def)
  with inv owed show ?thesis
    by (auto simp: core_inv_def ledger_ok_def copies_ok_def results_ok_def told_ok_def ac_simps)
qed

lemma core_drop_direct: "core_inv R P (X + {#Direct rid#}) T cs ts ps l \<longleftrightarrow> core_inv R P X T cs ts ps l"
  by (simp add: core_inv_def copies_ok_def)

lemma owed_remove:
  assumes "n < length ts"
  shows "owed ts ps P = owed (remove_nth n ts) ps P + task_callback (ts ! n)"
  using sum_list_remove [OF assms, of task_callback] by (simp add: owed_def ac_simps)

lemma core_false:
  assumes inv: "core_inv R P X T cs ts ps l" and n: "n < length ts" "ts ! n = Callback_false rid"
  shows "core_inv R P X T cs (remove_nth n ts) ps (l @ [(rid, False)])"
proof -
  have tasks: "set ts = insert (Callback_false rid) (set (remove_nth n ts))" using set_remove_nth [OF n(1)] n(2) by simp
  have owed: "owed (remove_nth n ts) ps P = owed ts ps P" using owed_remove [OF n(1)] n(2) by simp
  have "sum_list (map task_false ts) = sum_list (map task_false (remove_nth n ts)) + {#rid#}"
    using sum_list_remove [OF n(1), of task_false] n(2) by simp
  with inv owed have "ledger_ok R P cs (remove_nth n ts) ps (l @ [(rid, False)])"
    by (simp add: core_inv_def ledger_ok_def ac_simps)
  moreover have "told_why T cs ps rid False"
    using inv tasks by (auto simp: core_inv_def places_ok_def told_why_def)
  ultimately show ?thesis
    using inv owed tasks
    by (auto simp: core_inv_def copies_ok_def places_ok_def told_ok_def spread_ok_def gets_def)
qed

text \<open>
  A dispatcher works: it may be given the callback of a task, which leaves the queue, and the answers \<open>as\<close> it
  comes up with are then to be given.
\<close>

lemma core_plugin:
  assumes inv: "core_inv R [] X T cs ts ps l" and j: "j < length ps" and sane: "plugin_inv p'"
    and as: "plugin_answered p' = plugin_answered (ps ! j) @ as"
    and wait: "plugin_waiting (ps ! j) + Y = plugin_waiting p' + mset (map fst as)"
    and tasks: "set ts' \<subseteq> set ts" "sum_list (map task_callback ts) = sum_list (map task_callback ts') + Y"
      "sum_list (map task_false ts') = sum_list (map task_false ts)"
    and taken: "\<And>d t x. Handle_data d t x \<in> set ts \<Longrightarrow> Handle_data d t x \<notin> set ts' \<Longrightarrow> disp_id d = j \<and> x \<in># Y"
    and y: "\<And>x. x \<in># Y \<Longrightarrow> belongs T (owners cs) x j"
  shows "core_inv R as X T cs ts' (ps[j := p']) l"
proof -
  let ?ps = "ps[j := p']"
  have "sum_list (map plugin_waiting ?ps) + plugin_waiting (ps ! j) = sum_list (map plugin_waiting ps) + plugin_waiting p'"
    by (rule sum_list_upd [OF j])
  with wait have "sum_list (map plugin_waiting ?ps) + mset (map fst as) + (plugin_waiting (ps ! j) + plugin_waiting p') =
      sum_list (map plugin_waiting ps) + Y + (plugin_waiting (ps ! j) + plugin_waiting p')"
    by (simp add: ac_simps)
  then have "sum_list (map plugin_waiting ?ps) + mset (map fst as) = sum_list (map plugin_waiting ps) + Y"
    by (simp only: add_right_cancel)
  with tasks(2) have owed: "owed ts' ?ps as = owed ts ps []" by (simp add: owed_def ac_simps)
  have given: "given ?ps = given ps \<union> set as" by (rule given_upd [OF j as])
  have more: "set (plugin_answered (ps ! i)) \<subseteq> set (plugin_answered (?ps ! i))" for i
    using as j by (cases "i = j") auto
  have in_y: "x \<in># plugin_waiting (ps ! j) \<or> x \<in># Y \<longleftrightarrow> x \<in># plugin_waiting p' \<or> x \<in> fst ` set as" for x
    using arg_cong [OF wait, of set_mset] by auto
  have "gets ts' ?ps x i" if "gets ts ps x i" for x i
  proof -
    consider d t where "Handle_data d t x \<in> set ts" "disp_id d = i" | "x \<in># plugin_waiting (ps ! i)"
      | "x \<in> fst ` set (plugin_answered (ps ! i))" using \<open>gets ts ps x i\<close> by (auto simp: gets_def)
    then show ?thesis
    proof cases
      case 1
      show ?thesis
      proof (cases "Handle_data d t x \<in> set ts'")
        case False
        with taken [OF 1(1)] 1(2) have "i = j" "x \<in># Y" by simp_all
        with in_y [of x] as j show ?thesis by (auto simp: gets_def)
      qed (use 1(2) in \<open>unfold gets_def, blast\<close>)
    next
      case 2
      with in_y [of x] as j show ?thesis by (cases "i = j") (auto simp: gets_def)
    next
      case 3
      with more [of i] show ?thesis by (auto simp: gets_def)
    qed
  qed
  then have "spread_ok T (owners cs) ts' ?ps" using inv by (simp add: core_inv_def spread_ok_def)
  moreover have "places_ok T (owners cs) ts' ?ps"
  proof -
    have places: "places_ok T (owners cs) ts ps" using inv by (simp add: core_inv_def)
    have "belongs T (owners cs) x i"
      if "i < length ?ps" "x \<in># plugin_waiting (?ps ! i) \<or> x \<in> fst ` set (plugin_answered (?ps ! i))" for i x
    proof (cases "i = j")
      case True
      with that as j in_y [of x] have "x \<in># Y \<or> x \<in># plugin_waiting (ps ! j) \<or> x \<in> fst ` set (plugin_answered (ps ! j))"
        by auto
      with True places j y show ?thesis unfolding places_ok_def by blast
    next
      case False
      with that have "i < length ps" "x \<in># plugin_waiting (ps ! i) \<or> x \<in> fst ` set (plugin_answered (ps ! i))" by simp_all
      with places show ?thesis unfolding places_ok_def by blast
    qed
    with places tasks(1) show ?thesis by (auto simp: places_ok_def)
  qed
  moreover have "told_ok T cs ?ps l"
    using inv more by (fastforce simp: core_inv_def told_ok_def told_why_def)
  moreover have "results_ok as cs ?ps"
    using inv given by (auto simp: core_inv_def results_ok_def)
  moreover have "plugins_sane T ?ps"
    using inv sane j by (auto simp: core_inv_def plugins_sane_def dest!: set_update_subset_insert [THEN subsetD])
  ultimately show ?thesis
    using inv owed tasks(3) by (simp add: core_inv_def ledger_ok_def copies_ok_def)
qed

text \<open>A record is stored: what \<open>process_data\<close> posts.\<close>

definition asks :: "dispatcher list \<Rightarrow> tree_ref \<Rightarrow> record_id \<Rightarrow> nat \<Rightarrow> record_task list" where
  "asks tgs t rid n =
     (if tgs = [] then [Callback_false rid]
      else map (\<lambda>d. Handle_data d t (if length tgs = 1 then Direct rid else Combined n)) tgs)"

definition new_combiner :: "dispatcher list \<Rightarrow> record_id \<Rightarrow> record_id combiner list" where
  "new_combiner tgs rid =
     (if 1 < length tgs then [\<lparr>comb_callback = rid, comb_result = True, comb_copies = length tgs, fired = []\<rparr>] else [])"

lemma asks_callbacks:
  "sum_list (map task_callback (asks tgs t rid n)) =
     (if tgs = [] then {#} else if length tgs = 1 then {#Direct rid#} else replicate_mset (length tgs) (Combined n))"
  "sum_list (map task_false (asks tgs t rid n)) = (if tgs = [] then {#rid#} else {#})"
  by (auto simp: asks_def comp_def image_mset_const_eq length_Suc_conv)

lemma belongs_more:
  "belongs T os x j \<Longrightarrow> \<forall>rid \<in> set os. fst rid < length T \<Longrightarrow> belongs (T @ T') (os @ os') x j"
  by (cases x) (auto simp: nth_append)

lemma task_ok_more:
  "task_ok T os t \<Longrightarrow> \<forall>rid \<in> set os. fst rid < length T \<Longrightarrow> task_ok (T @ T') (os @ os') t"
  by (cases t) (auto simp: belongs_more nth_append)

lemma core_asks:
  assumes inv: "core_inv R P X T cs ts ps l" and rid: "fst rid < length T" "T ! fst rid = tgs"
  shows "core_inv (R + {#rid#}) P X T (cs @ new_combiner tgs rid) (ts @ asks tgs t rid (length cs)) ps l"
proof -
  let ?cs = "cs @ new_combiner tgs rid" and ?ts = "ts @ asks tgs t rid (length cs)"
  have copies: "copies_ok P X cs ts ps" and places: "places_ok T (owners cs) ts ps" using inv by (simp_all add: core_inv_def)
  have owed: "owed ?ts ps P = owed ts ps P + (if tgs = [] then {#} else if length tgs = 1 then {#Direct rid#}
      else replicate_mset (length tgs) (Combined (length cs)))"
    by (simp add: owed_def asks_callbacks ac_simps)
  have none: "count (owed ts ps P) (Combined (length cs)) = 0" "count X (Combined (length cs)) = 0"
    using spec [OF conjunct2 [OF copies [unfolded copies_ok_def]], of "length cs"] by simp_all
  have "copies_ok P X ?cs ?ts ps"
    using copies none unfolding copies_ok_def owed
    by (auto simp: nth_append new_combiner_def combiner_ok_def length_Suc_conv not_less le_Suc_eq less_Suc_eq)
  moreover have "ledger_ok (R + {#rid#}) P ?cs ?ts ps l"
    using inv unfolding core_inv_def ledger_ok_def owed
    by (auto simp: asks_callbacks unfinished_def new_combiner_def length_Suc_conv not_less le_Suc_eq)
  moreover have "results_ok P ?cs ps"
  proof -
    have "(Combined (length cs), b) \<notin> given ps" for b
    proof
      assume "(Combined (length cs), b) \<in> given ps"
      then obtain j where "j < length ps" "Combined (length cs) \<in> fst ` set (plugin_answered (ps ! j))"
        by (force simp: given_nth)
      with places have "belongs T (owners cs) (Combined (length cs)) j" unfolding places_ok_def by blast
      then show False by simp
    qed
    with inv show ?thesis by (auto simp: core_inv_def results_ok_def nth_append new_combiner_def less_Suc_eq)
  qed
  moreover have "places_ok T (owners ?cs) ?ts ps"
  proof -
    note more = belongs_more [where T' = "[]", simplified] task_ok_more [where T' = "[]", simplified]
    have "task_ok T (owners ?cs) u" if "u \<in> set (asks tgs t rid (length cs))" for u
      using that rid by (cases "length tgs" rule: nat.exhaust [case_product nat.exhaust])
        (auto simp: asks_def new_combiner_def nth_append length_Suc_conv less_Suc_eq_le split: if_splits)
    with places rid more show ?thesis by (auto simp: places_ok_def new_combiner_def)
  qed
  moreover have "spread_ok T (owners ?cs) ?ts ps"
    unfolding spread_ok_def
  proof (intro allI ballI impI)
    fix c d assume c: "c < length (owners ?cs)" and d: "d \<in> set (T ! fst (owners ?cs ! c))"
    show "gets ?ts ps (Combined c) (disp_id d)"
    proof (cases "c < length cs")
      case True
      with inv d have "gets ts ps (Combined c) (disp_id d)" by (simp add: core_inv_def spread_ok_def nth_append)
      then show ?thesis by (auto simp: gets_def)
    next
      case False
      with c d rid have "1 < length tgs" "c = length cs" "d \<in> set tgs"
        by (auto simp: new_combiner_def nth_append split: if_splits)
      then have "Handle_data d t (Combined c) \<in> set ?ts" by (auto simp: asks_def)
      then show ?thesis unfolding gets_def by blast
    qed
  qed
  moreover have "told_ok T ?cs ps l"
    using inv by (fastforce simp: core_inv_def told_ok_def told_why_def nth_append)
  ultimately show ?thesis using inv by (simp add: core_inv_def)
qed

text \<open>A new session.\<close>

lemma core_accept:
  assumes inv: "core_inv R P X T cs ts ps l" and "\<forall>d \<in> set tgs. disp_id d < length ps"
  shows "core_inv R P X (T @ [tgs]) cs ts ps l"
proof -
  have places: "places_ok T (owners cs) ts ps" using inv by (simp add: core_inv_def)
  note more = belongs_more [where os' = "[]", simplified] task_ok_more [where os' = "[]", simplified]
  have "places_ok (T @ [tgs]) (owners cs) ts ps" using places more by (auto simp: places_ok_def nth_append)
  moreover have "spread_ok (T @ [tgs]) (owners cs) ts ps"
    using inv places by (auto simp: core_inv_def spread_ok_def places_ok_def nth_append)
  moreover have "told_ok (T @ [tgs]) cs ps l"
    using inv by (fastforce simp: core_inv_def told_ok_def told_why_def nth_append)
  moreover have "plugins_sane (T @ [tgs]) ps" using inv assms(2) by (auto simp: core_inv_def plugins_sane_def)
  ultimately show ?thesis using inv by (simp add: core_inv_def)
qed

end
