(* ===== verification/Service_Inv.thy ===== *)
theory Service_Inv
  imports Service_Core
begin

text \<open>
  The running daemon keeps its invariant: the invariant of theory Service_Core, for the records that its
  sessions stored, and that the trees of all tasks exist. Every operation either returns in such a state or
  raises one of the faults that its translators and its redis clients can raise.
\<close>

subsection \<open>Outcomes\<close>

definition yields :: "('s \<Rightarrow> bool) \<Rightarrow> ('e \<Rightarrow> bool) \<Rightarrow> 'e + 's \<Rightarrow> bool" where
  "yields Q F r = (case r of Inl e \<Rightarrow> F e | Inr s \<Rightarrow> Q s)"

lemma yields_simps [simp]:
  "yields Q F (Inr s) = Q s"
  "yields Q F (Inl e) = F e"
  by (simp_all add: yields_def)

lemma yields_then: "yields Q F r \<Longrightarrow> (\<And>s. r = Inr s \<Longrightarrow> Q s \<Longrightarrow> yields Q' F (f s)) \<Longrightarrow> yields Q' F (and_then r f)"
  by (cases r) auto

lemma yields_mono: "yields Q F r \<Longrightarrow> (\<And>s. Q s \<Longrightarrow> Q' s) \<Longrightarrow> yields Q' F r"
  by (cases r) auto

definition service_allowed :: "service_fault \<Rightarrow> bool" where
  "service_allowed f \<longleftrightarrow>
     f \<in> Translator_fault ` {Empty_line, Bad_data, Buffer_overrun} \<union>
       Dispatcher_fault ` {End_iterator, Reply_out_of_range, Publish_overrun} \<union> {Accept_fault Not_connected}"

subsection \<open>The records of the sessions\<close>

definition session_targets :: "session \<Rightarrow> dispatcher list" where
  "session_targets s = (case route s of Routed ds \<Rightarrow> ds | No_route \<Rightarrow> [])"

definition routes_of :: "service \<Rightarrow> dispatcher list list" where
  "routes_of D = map (session_targets \<circ> fst) (conns D)"

fun is_record :: "nat \<times> api_call \<Rightarrow> bool" where
  "is_record (k, Process_data r) = True"
| "is_record (k, call) = False"

definition records :: "nat \<Rightarrow> (nat \<times> api_call) list \<Rightarrow> record_id list" where
  "records i calls = map (\<lambda>kc. (i, fst kc)) (filter is_record calls)"

text \<open>All calls of \<open>process_data\<close> by the translators.\<close>

definition stored :: "service \<Rightarrow> record_id multiset" where
  "stored D = (\<Sum>i < length (conns D). mset (records i (enumerate 0 (api_calls (fst (snd (conns D ! i)))))))"

lemma records_append [simp]: "records i (xs @ ys) = records i xs @ records i ys"
  by (simp add: records_def)

lemma new_calls_append:
  assumes "api_calls w' = api_calls w @ calls"
  shows "enumerate 0 (api_calls w') = enumerate 0 (api_calls w) @ new_calls w w'"
    and "new_calls w w' = enumerate (length (api_calls w)) calls"
  using assms by (simp_all add: new_calls_def enumerate_append_eq)

lemma stored_upd:
  assumes "i < length (conns D)" and "conns D ! i = (s, w, io)" and "api_calls w' = api_calls w @ calls"
  shows "stored (D\<lparr>conns := (conns D)[i := (s, w', io')]\<rparr>) = stored D + mset (records i (new_calls w w'))"
proof -
  let ?f = "\<lambda>cn j. mset (records j (enumerate 0 (api_calls (fst (snd (cn ! j))))))"
  let ?cn = "(conns D)[i := (s, w', io')]"
  have "sum (?f ?cn) {..<length (conns D)} = ?f ?cn i + sum (?f ?cn) ({..<length (conns D)} - {i})"
    using assms(1) by (simp add: sum.remove)
  also have "sum (?f ?cn) ({..<length (conns D)} - {i}) = sum (?f (conns D)) ({..<length (conns D)} - {i})"
    by (rule sum.cong) auto
  also have "?f ?cn i = ?f (conns D) i + mset (records i (new_calls w w'))"
    using assms(1,2) new_calls_append(1) [OF assms(3)] by simp
  also have "\<dots> + sum (?f (conns D)) ({..<length (conns D)} - {i}) = stored D + mset (records i (new_calls w w'))"
    using assms(1) by (simp add: stored_def sum.remove [of "{..<length (conns D)}" i] ac_simps)
  finally show ?thesis by (simp add: stored_def)
qed

lemma stored_accept:
  assumes "records (length (conns D)) (enumerate 0 (api_calls w)) = []"
  shows "stored (D\<lparr>conns := conns D @ [(s, w, io)]\<rparr>) = stored D"
  using assms by (simp add: stored_def nth_append lessThan_Suc)

lemma conns_only_simps [simp]:
  "stored (D\<lparr>jobs := q\<rparr>) = stored D" "stored (D\<lparr>plugs := ps\<rparr>) = stored D" "stored (D\<lparr>told := l\<rparr>) = stored D"
  "routes_of (D\<lparr>jobs := q\<rparr>) = routes_of D" "routes_of (D\<lparr>plugs := ps\<rparr>) = routes_of D"
  "routes_of (D\<lparr>told := l\<rparr>) = routes_of D"
  by (simp_all add: stored_def routes_of_def)

lemma task_tree_simps [simp]:
  "task_tree (D\<lparr>jobs := q\<rparr>) = task_tree D" "task_tree (D\<lparr>plugs := ps\<rparr>) = task_tree D"
  "task_tree (D\<lparr>told := l\<rparr>) = task_tree D"
  by (auto simp: task_tree_def fun_eq_iff)

subsection \<open>The invariant\<close>

definition sessions_ok :: "plugin_factory \<Rightarrow> service \<Rightarrow> bool" where
  "sessions_ok pf D \<longleftrightarrow>
     (\<forall>(s, w, io) \<in> set (conns D). parser_rests w \<and> (\<exists>port peer. on_connection pf port peer = Inr s))"

definition trees_ok :: "service \<Rightarrow> bool" where
  "trees_ok D \<longleftrightarrow> (\<forall>d t x. Handle_data d t x \<in> set (posted (jobs D)) \<longrightarrow> task_tree D t \<noteq> None)"

text \<open>Every route leads to a dispatcher that there is.\<close>

definition routes_lead :: "plugin_factory \<Rightarrow> nat \<Rightarrow> bool" where
  "routes_lead pf n \<longleftrightarrow> pf_inv pf \<and> (\<forall>key. \<forall>d \<in> set (targets (router pf) key). disp_id d < n)"

definition daemon_inv ::
  "plugin_factory \<Rightarrow> (record_callback \<times> bool) list \<Rightarrow> record_callback multiset \<Rightarrow> service \<Rightarrow> bool" where
  "daemon_inv pf P X D \<longleftrightarrow>
     core_inv (stored D) P X (routes_of D) (combiners (jobs D)) (posted (jobs D)) (plugs D) (told D) \<and>
     sessions_ok pf D \<and> trees_ok D \<and> routes_lead pf (length (plugs D))"

lemma daemon_inv_parts:
  assumes "daemon_inv pf P X D"
  shows "core_inv (stored D) P X (routes_of D) (combiners (jobs D)) (posted (jobs D)) (plugs D) (told D)"
    and "sessions_ok pf D" and "trees_ok D" and "routes_lead pf (length (plugs D))"
  using assms by (simp_all add: daemon_inv_def)

subsection \<open>A turn of a connection\<close>

lemma session_data_asks:
  "session_process_data s t rid q = Inr \<lparr>posted = posted q @ asks (session_targets s) t rid (length (combiners q)),
     combiners = combiners q @ new_combiner (session_targets s) rid\<rparr>"
proof -
  have "helper_callback_false rid q = \<lparr>posted = posted q @ asks [] t rid (length (combiners q)),
      combiners = combiners q @ new_combiner [] rid\<rparr>"
    by (simp add: helper_callback_false_def post_def asks_def new_combiner_def)
  moreover have "rr_process_data ds t rid q = Inr \<lparr>posted = posted q @ asks ds t rid (length (combiners q)),
      combiners = combiners q @ new_combiner ds rid\<rparr>" for ds
  proof -
    obtain io' where io': "rr_process_data ds t rid q = Inr io'" "posted io' = posted q @ asks ds t rid (length (combiners q))"
      "combiners io' = combiners q @ new_combiner ds rid"
      using rr_process_data_posted [of ds t rid q] by (auto simp: asks_def new_combiner_def)
    then show ?thesis by (cases io') simp
  qed
  ultimately show ?thesis
    by (auto simp: session_process_data_def api_process_data_def session_targets_def split: process_data_fn.split)
qed

lemma serve_calls:
  assumes "core_inv R P X T (combiners q) (posted q) ps l" and "i < length T" and "T ! i = session_targets s"
  shows "\<exists>q'. fold_res (serve_new s i) calls q = Inr q' \<and>
    core_inv (R + mset (records i calls)) P X T (combiners q') (posted q') ps l \<and>
    (\<forall>d t x. Handle_data d t x \<in> set (posted q') \<longrightarrow>
       Handle_data d t x \<in> set (posted q) \<or> (\<exists>k r. (k, Process_data r) \<in> set calls \<and> t = (i, r)))"
  using assms(1)
proof (induction calls arbitrary: R q)
  case (Cons kc calls)
  show ?case
  proof (cases "is_record kc")
    case True
    then obtain k r where kc: "kc = (k, Process_data r)" by (cases kc rule: is_record.cases) auto
    let ?q = "\<lparr>posted = posted q @ asks (session_targets s) (i, r) (i, k) (length (combiners q)),
       combiners = combiners q @ new_combiner (session_targets s) (i, k)\<rparr>"
    have step: "serve_new s i kc q = Inr ?q" by (simp add: kc serve_new_def session_data_asks)
    have "core_inv (R + {#(i, k)#}) P X T (combiners ?q) (posted ?q) ps l"
      using core_asks [OF Cons.prems, of "(i, k)" "session_targets s" "(i, r)"] assms(2,3) by simp
    from Cons.IH [OF this] obtain q' where q': "fold_res (serve_new s i) calls ?q = Inr q'"
      "core_inv (R + {#(i, k)#} + mset (records i calls)) P X T (combiners q') (posted q') ps l"
      "\<forall>d t x. Handle_data d t x \<in> set (posted q') \<longrightarrow>
         Handle_data d t x \<in> set (posted ?q) \<or> (\<exists>k r. (k, Process_data r) \<in> set calls \<and> t = (i, r))" by blast
    moreover have "records i (kc # calls) = (i, k) # records i calls" by (simp add: records_def kc)
    moreover have asked: "t = (i, r)" if "Handle_data d t x \<in> set (asks (session_targets s) (i, r) (i, k) (length (combiners q)))" for d t x
      using that by (auto simp: asks_def split: if_splits)
    ultimately have "core_inv (R + mset (records i (kc # calls))) P X T (combiners q') (posted q') ps l"
      "fold_res (serve_new s i) (kc # calls) q = Inr q'" using step by simp_all
    moreover have "Handle_data d t x \<in> set (posted q) \<or> (\<exists>k r. (k, Process_data r) \<in> set (kc # calls) \<and> t = (i, r))"
      if "Handle_data d t x \<in> set (posted q')" for d t x
    proof -
      from q'(3) that consider "Handle_data d t x \<in> set (posted ?q)"
        | k' r' where "(k', Process_data r') \<in> set calls" "t = (i, r')" by blast
      then show ?thesis
      proof cases
        case 1
        then show ?thesis using asked [of d t x] kc by auto
      next
        case 2
        then show ?thesis by auto
      qed
    qed
    ultimately show ?thesis by blast
  next
    case False
    then have "serve_new s i kc q = Inr q" "records i (kc # calls) = records i calls"
      by (cases kc rule: is_record.cases; simp add: serve_new_def records_def)+
    with Cons.IH [OF Cons.prems] show ?thesis by fastforce
  qed
qed (simp add: records_def)

lemma conn_step_calls:
  assumes "conn_step s E ev (w, io) = Inr (w', io')"
  shows "\<exists>calls. api_calls w' = api_calls w @ calls"
proof -
  have turned: "\<exists>calls. api_calls u = api_calls w @ calls" if "turn b w u" for b u
    using that by (auto simp: turn_def follows_def)
  show ?thesis
  proof (cases ev)
    case (Read_completed ec n bytes)
    with assms show ?thesis
      by (auto simp: then_issue_Inr split: list.splits if_splits dest!: socket_step_turn turned)
  next
    case (Write_completed i ec)
    with assms show ?thesis
      by (auto simp: then_issue_Inr split: if_splits dest!: socket_step_turn turned)
  next
    case (Data_answer ok)
    with assms show ?thesis
      by (auto simp: then_issue_Inr dest!: handle_process_data_follows follows_turn turned)
  qed (use assms in \<open>auto split: if_splits prod.splits\<close>)
qed

lemma conn_step_faults:
  assumes "wialon_world E" and "parser_rests w" and "conn_step s E ev (w, io) = Inl e"
  shows "e \<in> {Empty_line, Bad_data, Buffer_overrun}"
proof (cases ev)
  case (Read_completed ec n bytes)
  have idle: "idle_inv (w\<lparr>sbuf := sbuf w @ bytes\<rparr>)" using assms(2) by (simp add: parser_rests_def)
  from Read_completed assms(3) have "handle_read (session_env s E) (w\<lparr>sbuf := sbuf w @ bytes\<rparr>) = Inl e"
    by (auto simp: then_issue_def and_then_Inl socket_step_def conn_handle_read_def split: list.splits if_splits)
  from wialon_world.handle_read_fault [OF session_world [OF assms(1)] idle this] show ?thesis by auto
qed (use assms(3) in \<open>auto simp: then_issue_def and_then_Inl socket_step_def conn_handle_write_def
    dest: handle_process_data_fault split: if_splits prod.splits\<close>)

lemma task_tree_upd:
  assumes "task_tree D t \<noteq> None" and "conns D ! i = (s, w, io)" and "length (trees w) \<le> length (trees w')"
  shows "task_tree (D\<lparr>conns := (conns D)[i := (s, w', io')]\<rparr>) t \<noteq> None"
proof (cases "fst t = i")
  case True
  with assms show ?thesis
    by (cases "snd t") (auto simp: task_tree_def at_def split: if_splits)
next
  case False
  then have "task_tree (D\<lparr>conns := (conns D)[i := (s, w', io')]\<rparr>) t = task_tree D t"
    by (simp add: task_tree_def at_def)
  with assms(1) show ?thesis by simp
qed

lemma routes_of_upd:
  "conns D ! i = (s, w, io) \<Longrightarrow> routes_of (D\<lparr>conns := (conns D)[i := (s, w', io')]\<rparr>) = routes_of D"
  by (cases "i < length (conns D)") (simp_all add: routes_of_def map_update list_update_same_conv list_update_beyond)

lemma conn_turn_yields:
  assumes world: "wialon_world (parse_env V)" and inv: "daemon_inv pf P X D"
  shows "yields (daemon_inv pf P X) service_allowed (conn_turn V i ev D)"
proof (cases "i < length (conns D)")
  case True
  obtain s w io where c: "conns D ! i = (s, w, io)" by (cases "conns D ! i")
  with True have at: "at (conns D) i = Some (s, w, io)" by (simp add: at_def)
  have ok: "parser_rests w" "\<exists>port peer. on_connection pf port peer = Inr s"
    using inv nth_mem [OF True] c by (fastforce simp: daemon_inv_def sessions_ok_def)+
  show ?thesis
  proof (cases "conn_step s (parse_env V) ev (w, io)")
    case (Inl e)
    with conn_step_faults [OF world ok(1) Inl] show ?thesis
      by (auto simp: conn_turn_def at service_allowed_def)
  next
    case (Inr r)
    then obtain w' io' where step: "conn_step s (parse_env V) ev (w, io) = Inr (w', io')" by (cases r) simp
    obtain calls where calls: "api_calls w' = api_calls w @ calls" using conn_step_calls [OF step] by blast
    note rests = conn_step_translator [OF world ok(1) step]
    let ?D = "D\<lparr>conns := (conns D)[i := (s, w', io')]\<rparr>"
    have T: "i < length (routes_of D)" "routes_of D ! i = session_targets s"
      using True c by (simp_all add: routes_of_def)
    from serve_calls [OF daemon_inv_parts(1) [OF inv] T, of "new_calls w w'"] obtain q where
      q: "fold_res (serve_new s i) (new_calls w w') (jobs D) = Inr q"
      "core_inv (stored D + mset (records i (new_calls w w'))) P X (routes_of D) (combiners q) (posted q) (plugs D) (told D)"
      "\<forall>d t x. Handle_data d t x \<in> set (posted q) \<longrightarrow>
       Handle_data d t x \<in> set (posted (jobs D)) \<or> (\<exists>k r. (k, Process_data r) \<in> set (new_calls w w') \<and> t = (i, r))"
      by blast
    have result: "conn_turn V i ev D = Inr (?D\<lparr>jobs := q\<rparr>)"
      by (simp add: conn_turn_def at step q(1))
    have "trees_ok (?D\<lparr>jobs := q\<rparr>)"
      unfolding trees_ok_def
    proof (intro allI impI)
      fix d t x assume "Handle_data d t x \<in> set (posted (jobs (?D\<lparr>jobs := q\<rparr>)))"
      then have "Handle_data d t x \<in> set (posted q)" by simp
      with q(3) consider "Handle_data d t x \<in> set (posted (jobs D))"
        | k r where "(k, Process_data r) \<in> set (new_calls w w')" "t = (i, r)" by blast
      then show "task_tree (?D\<lparr>jobs := q\<rparr>) t \<noteq> None"
      proof cases
        case 1
        with daemon_inv_parts(3) [OF inv] have "task_tree D t \<noteq> None" unfolding trees_ok_def by blast
        from task_tree_upd [OF this c] rests show ?thesis by simp
      next
        case 2
        then have "Process_data r \<in> set (api_calls w')"
          unfolding new_calls_append(2) [OF calls] enumerate_eq_zip calls by (auto dest: set_zip_rightD)
        with rests obtain k where "r = Some k" "k < length (trees w')"
          by (cases r) (auto simp: parser_rests_def hands_trees_def idle_inv_def tree_ok_def published_def)
        with 2(2) True show ?thesis by (simp add: task_tree_def at_def)
      qed
    qed
    moreover have "sessions_ok pf (?D\<lparr>jobs := q\<rparr>)"
      using inv ok(2) rests by (auto simp: daemon_inv_def sessions_ok_def dest!: set_update_subset_insert [THEN subsetD])
    moreover have "core_inv (stored ?D) P X (routes_of ?D) (combiners q) (posted q) (plugs D) (told D)"
      using q(2) stored_upd [OF True c calls, of io'] routes_of_upd [OF c, of w' io'] by simp
    ultimately show ?thesis unfolding result using daemon_inv_parts(4) [OF inv] by (simp add: daemon_inv_def)
  qed
next
  case False
  with inv show ?thesis by (simp add: conn_turn_def at_def)
qed

subsection \<open>Calls of callbacks\<close>

lemma combiner_op_call:
  assumes "c < length (combiners (jobs D))" and "0 < comb_copies (combiners (jobs D) ! c)"
  shows "combiner_op V c (Call b) D = Inr (set_combiner c (combine b (combiners (jobs D) ! c)) D)"
    and "combiner_op V c Copy D =
      Inr (set_combiner c ((combiners (jobs D) ! c)\<lparr>comb_copies := Suc (comb_copies (combiners (jobs D) ! c))\<rparr>) D)"
  using assms by (simp_all add: combiner_op_def at_def combiner_step_def combine_def)

lemma and_then_nothing [simp]: "and_then r (fold_res f []) = r"
  by (cases r) simp_all

lemma combiner_op_release:
  assumes "c < length (combiners (jobs D))" and "0 < comb_copies (combiners (jobs D) ! c)"
    and "combiner_ok (combiners (jobs D) ! c)"
  shows "combiner_op V c Release D =
    (let comb = combiners (jobs D) ! c; D' = set_combiner c (released comb) D in
     if comb_copies comb = 1 then call_back V (comb_callback comb) (comb_result comb) D' else Inr D')"
proof (cases "comb_copies (combiners (jobs D) ! c) = 1")
  case True
  with assms show ?thesis
    by (simp add: combiner_op_def at_def combiner_step_def combiner_destroy_def combiner_ok_def released_def Let_def)
next
  case False
  with assms(2,3) have "released (combiners (jobs D) ! c) =
      (combiners (jobs D) ! c)\<lparr>comb_copies := comb_copies (combiners (jobs D) ! c) - 1\<rparr>"
    by (cases "combiners (jobs D) ! c") (simp add: combiner_ok_def released_def)
  with False assms show ?thesis
    by (simp add: combiner_op_def at_def combiner_step_def combiner_ok_def Let_def)
qed

lemma set_combiner_simps [simp]:
  "stored (set_combiner c comb D) = stored D" "routes_of (set_combiner c comb D) = routes_of D"
  "task_tree (set_combiner c comb D) = task_tree D" "conns (set_combiner c comb D) = conns D"
  "plugs (set_combiner c comb D) = plugs D" "told (set_combiner c comb D) = told D"
  "posted (jobs (set_combiner c comb D)) = posted (jobs D)"
  "combiners (jobs (set_combiner c comb D)) = (combiners (jobs D))[c := comb]"
  by (simp_all add: set_combiner_def)

text \<open>Sessions and trees do not depend on the rest.\<close>

lemma sessions_ok_cong: "conns D' = conns D \<Longrightarrow> sessions_ok pf D' = sessions_ok pf D"
  by (simp add: sessions_ok_def)

lemma trees_ok_mono:
  "conns D' = conns D \<Longrightarrow> set (posted (jobs D')) \<subseteq> set (posted (jobs D)) \<Longrightarrow> trees_ok D \<Longrightarrow> trees_ok D'"
proof -
  assume same: "conns D' = conns D" and tasks: "set (posted (jobs D')) \<subseteq> set (posted (jobs D))" and "trees_ok D"
  have trees: "task_tree D' = task_tree D" using same by (intro ext) (simp add: task_tree_def)
  from tasks \<open>trees_ok D\<close> show "trees_ok D'" unfolding trees_ok_def trees by blast
qed

lemma daemon_inv_step:
  assumes "daemon_inv pf P X D" and "conns D' = conns D" and "set (posted (jobs D')) \<subseteq> set (posted (jobs D))"
    and "length (plugs D') = length (plugs D)"
    and "core_inv (stored D) P' X' (routes_of D) (combiners (jobs D')) (posted (jobs D')) (plugs D') (told D')"
  shows "daemon_inv pf P' X' D'"
proof -
  have "stored D' = stored D" "routes_of D' = routes_of D" using assms(2) by (simp_all add: stored_def routes_of_def)
  with assms sessions_ok_cong [OF assms(2)] trees_ok_mono [OF assms(2,3)] show ?thesis by (simp add: daemon_inv_def)
qed

lemma call_back_yields:
  assumes "wialon_world (parse_env V)" and "daemon_inv pf P X (D\<lparr>told := told D @ [(rid, ok)]\<rparr>)"
  shows "yields (daemon_inv pf P X) service_allowed (call_back V rid ok D)"
  unfolding call_back_def by (rule conn_turn_yields [OF assms])

lemma release_yields:
  assumes world: "wialon_world (parse_env V)" and inv: "daemon_inv pf P (X + {#Combined c#}) D"
  shows "yields (daemon_inv pf P X) service_allowed (combiner_op V c Release D)"
proof -
  let ?comb = "combiners (jobs D) ! c"
  note core = daemon_inv_parts(1) [OF inv]
  from core have "copies_ok P (X + {#Combined c#}) (combiners (jobs D)) (posted (jobs D)) (plugs D)" by (simp add: core_inv_def)
  note alive = combiner_alive [OF this, of c, simplified]
  let ?D = "set_combiner c (released ?comb) D"
  show ?thesis
  proof (cases "comb_copies ?comb = 1")
    case True
    then have tells: "release_tells ?comb = [(comb_callback ?comb, comb_result ?comb)]" by (simp add: release_tells_def)
    have "daemon_inv pf P X (?D\<lparr>told := told ?D @ [(comb_callback ?comb, comb_result ?comb)]\<rparr>)"
      by (rule daemon_inv_step [OF inv]) (use core_release [OF core] tells in simp_all)
    from call_back_yields [OF world this] True show ?thesis by (simp add: combiner_op_release [OF alive] Let_def)
  next
    case False
    then have "release_tells ?comb = []" by (simp add: release_tells_def)
    then have "daemon_inv pf P X ?D"
      by (intro daemon_inv_step [OF inv]) (use core_release [OF core] in simp_all)
    with False show ?thesis by (simp add: combiner_op_release [OF alive] Let_def)
  qed
qed

lemma deliver_yields:
  assumes world: "wialon_world (parse_env V)" and inv: "daemon_inv pf (x # P) X D"
  shows "yields (daemon_inv pf P X) service_allowed (deliver V x D)"
proof -
  note core = daemon_inv_parts(1) [OF inv]
  obtain cb b where x: "x = (cb, b)" by (cases x)
  show ?thesis
  proof (cases cb)
    case (Direct rid)
    have "daemon_inv pf P X (D\<lparr>told := told D @ [(rid, b)]\<rparr>)"
      by (rule daemon_inv_step [OF inv]) (use core_direct core x Direct in simp_all)
    from call_back_yields [OF world this] show ?thesis by (simp add: deliver_def x Direct)
  next
    case (Combined c)
    from core x Combined have "copies_ok ((Combined c, b) # P) X (combiners (jobs D)) (posted (jobs D)) (plugs D)"
      by (simp add: core_inv_def)
    note alive = combiner_alive [OF this, of c, unfolded owed_def, simplified]
    have "daemon_inv pf P (X + {#Combined c#}) (set_combiner c (combine b (combiners (jobs D) ! c)) D)"
      by (rule daemon_inv_step [OF inv]) (use core_call [of _ c b P] core x Combined in simp_all)
    from release_yields [OF world this] show ?thesis
      by (simp add: deliver_def x Combined combiner_op_call(1) [OF alive(1,2)])
  qed
qed

lemma deliver_all_yields:
  assumes "wialon_world (parse_env V)"
  shows "daemon_inv pf (P @ P') X D \<Longrightarrow> yields (daemon_inv pf P' X) service_allowed (fold_res (deliver V) P D)"
proof (induction P arbitrary: D)
  case (Cons x P)
  then show ?case
    using deliver_yields [OF assms, of pf x "P @ P'" X D] by (auto intro: yields_then)
qed simp

subsection \<open>Dispatchers and tasks\<close>

lemma plugin_turn_yields:
  assumes world: "wialon_world (parse_env V)" and inv: "daemon_inv pf [] X D" and j: "j < length (plugs D)"
    and op: "\<And>p'. f (plugs D ! j) = Inr p' \<Longrightarrow> plugin_inv p' \<and>
      (\<exists>as. plugin_answered p' = plugin_answered (plugs D ! j) @ as \<and>
        plugin_waiting (plugs D ! j) + Y = plugin_waiting p' + mset (map fst as))"
    and faults: "\<And>e. f (plugs D ! j) = Inl e \<Longrightarrow> e \<in> {End_iterator, Reply_out_of_range, Publish_overrun}"
    and tasks: "set (posted q) \<subseteq> set (posted (jobs D))" "combiners q = combiners (jobs D)"
      "sum_list (map task_callback (posted (jobs D))) = sum_list (map task_callback (posted q)) + Y"
      "sum_list (map task_false (posted q)) = sum_list (map task_false (posted (jobs D)))"
    and taken: "\<And>d t x. Handle_data d t x \<in> set (posted (jobs D)) \<Longrightarrow> Handle_data d t x \<notin> set (posted q) \<Longrightarrow>
      disp_id d = j \<and> x \<in># Y"
    and y: "\<And>x. x \<in># Y \<Longrightarrow> belongs (routes_of D) (owners (combiners (jobs D))) x j"
  shows "yields (daemon_inv pf [] X) service_allowed (plugin_turn V j f (D\<lparr>jobs := q\<rparr>))"
proof (cases "f (plugs D ! j)")
  case (Inl e)
  with faults [OF Inl] j show ?thesis by (auto simp: plugin_turn_def at_def service_allowed_def)
next
  case (Inr p')
  with op obtain as where p': "plugin_inv p'" "plugin_answered p' = plugin_answered (plugs D ! j) @ as"
    "plugin_waiting (plugs D ! j) + Y = plugin_waiting p' + mset (map fst as)" by blast
  let ?D = "D\<lparr>jobs := q, plugs := (plugs D)[j := p']\<rparr>"
  have "daemon_inv pf (as @ []) X ?D"
    by (rule daemon_inv_step [OF inv])
      (use core_plugin [OF daemon_inv_parts(1) [OF inv] j p' tasks(1,3,4) taken y] tasks(1,2) in simp_all)
  from deliver_all_yields [OF world this] show ?thesis
    using Inr p'(2) j by (simp add: plugin_turn_def at_def)
qed

lemma take_task_eq: "take_task n D = D\<lparr>jobs := (jobs D)\<lparr>posted := remove_nth n (posted (jobs D))\<rparr>\<rparr>"
  by (simp add: take_task_def)

lemma hold_yields:
  assumes inv: "daemon_inv pf [] {#} D" and x: "x \<in># owed (posted (jobs D)) (plugs D) []"
  shows "\<exists>D'. hold_callback V x (take_task n D) = Inr (take_task n D') \<and> daemon_inv pf [] {#x#} D' \<and>
    posted (jobs D') = posted (jobs D) \<and> plugs D' = plugs D \<and> routes_of D' = routes_of D \<and>
    owners (combiners (jobs D')) = owners (combiners (jobs D))"
proof (cases x)
  case (Direct rid)
  with inv core_drop_direct [of _ "[]" "{#}" rid] show ?thesis
    by (intro exI [of _ D]) (simp add: hold_callback_def daemon_inv_def)
next
  case (Combined c)
  note core = daemon_inv_parts(1) [OF inv]
  from core have "copies_ok [] {#} (combiners (jobs D)) (posted (jobs D)) (plugs D)" by (simp add: core_inv_def)
  note alive = combiner_alive [OF this, of c, simplified, OF x [unfolded Combined]]
  let ?D = "set_combiner c ((combiners (jobs D) ! c)\<lparr>comb_copies := Suc (comb_copies (combiners (jobs D) ! c))\<rparr>) D"
  have "daemon_inv pf [] {#x#} ?D"
    by (rule daemon_inv_step [OF inv]) (use core_copy [OF core alive(1,2)] Combined in simp_all)
  moreover have "hold_callback V x (take_task n D) = Inr (take_task n ?D)"
    using combiner_op_call(2) [of c "take_task n D" V] alive(1,2)
    by (simp add: hold_callback_def Combined take_task_def set_combiner_def)
  ultimately show ?thesis by (intro exI [of _ ?D]) simp
qed

lemma drop_yields:
  assumes "wialon_world (parse_env V)" and "daemon_inv pf [] {#x#} D"
  shows "yields (daemon_inv pf [] {#}) service_allowed (drop_callback V x D)"
proof (cases x)
  case (Direct rid)
  with assms(2) core_drop_direct [of _ "[]" "{#}" rid] show ?thesis by (simp add: drop_callback_def daemon_inv_def)
next
  case (Combined c)
  with release_yields [OF assms(1), of pf "[]" "{#}" c D] assms(2) show ?thesis by (simp add: drop_callback_def)
qed

lemma belongs_plugin:
  assumes "plugins_sane T ps" and "places_ok T os ts ps" and "belongs T os x j"
  shows "j < length ps"
proof (cases x)
  case (Direct rid)
  with assms(3) obtain d where "T ! fst rid \<in> set T" "d \<in> set (T ! fst rid)" "disp_id d = j" by auto
  with assms(1) show ?thesis by (auto simp: plugins_sane_def)
next
  case (Combined c)
  with assms(2,3) obtain d where "T ! fst (os ! c) \<in> set T" "d \<in> set (T ! fst (os ! c))" "disp_id d = j"
    by (auto simp: places_ok_def)
  with assms(1) show ?thesis by (auto simp: plugins_sane_def)
qed

lemma run_task_yields:
  assumes world: "wialon_world (parse_env V)" and inv: "daemon_inv pf [] {#} D"
  shows "yields (daemon_inv pf [] {#}) service_allowed (run_task V n D)"
proof (cases "n < length (posted (jobs D))")
  case n: True
  let ?ts = "posted (jobs D)"
  note core = daemon_inv_parts(1) [OF inv]
  show ?thesis
  proof (cases "?ts ! n")
    case (Callback_false rid)
    have "daemon_inv pf [] {#} ((take_task n D)\<lparr>told := told (take_task n D) @ [(rid, False)]\<rparr>)"
      by (rule daemon_inv_step [OF inv])
        (use core_false [OF core n Callback_false] set_remove_nth [OF n] in \<open>auto simp: take_task_def\<close>)
    from call_back_yields [OF world this] n Callback_false show ?thesis by (simp add: run_task_def at_def)
  next
    case (Handle_data d t x)
    have task: "Handle_data d t x \<in> set ?ts" using nth_mem [OF n] Handle_data by simp
    with daemon_inv_parts(3) [OF inv] obtain doc where doc: "task_tree D t = Some doc" unfolding trees_ok_def by blast
    have belongs: "belongs (routes_of D) (owners (combiners (jobs D))) x (disp_id d)"
      using core task by (fastforce simp: core_inv_def places_ok_def)
    with core have j: "disp_id d < length (plugs D)" using belongs_plugin by (auto simp: core_inv_def)
    have "x \<in># owed ?ts (plugs D) []" using owed_remove [OF n] Handle_data by simp
    from hold_yields [OF inv this] obtain D1 where D1: "hold_callback V x (take_task n D) = Inr (take_task n D1)"
      "daemon_inv pf [] {#x#} D1" "posted (jobs D1) = ?ts" "plugs D1 = plugs D" "routes_of D1 = routes_of D"
      "owners (combiners (jobs D1)) = owners (combiners (jobs D))" by blast
    let ?q = "(jobs D1)\<lparr>posted := remove_nth n ?ts\<rparr>"
    let ?f = "plugin_handle (print_uint V) (json V) doc x"
    have sane: "plugin_inv (plugs D ! disp_id d)" using core j by (simp add: core_inv_def plugins_sane_def)
    have "yields (daemon_inv pf [] {#x#}) service_allowed (plugin_turn V (disp_id d) ?f (D1\<lparr>jobs := ?q\<rparr>))"
    proof (rule plugin_turn_yields [OF world D1(2), where Y = "{#x#}"])
      show "plugin_inv p' \<and> (\<exists>as. plugin_answered p' = plugin_answered (plugs D1 ! disp_id d) @ as \<and>
          plugin_waiting (plugs D1 ! disp_id d) + {#x#} = plugin_waiting p' + mset (map fst as))"
        if "?f (plugs D1 ! disp_id d) = Inr p'" for p'
        using plugin.handle_answers [OF sane] that D1(4) by simp
      show "e \<in> {End_iterator, Reply_out_of_range, Publish_overrun}" if "?f (plugs D1 ! disp_id d) = Inl e" for e
        using plugin_faults(1) [OF sane] that D1(4) by simp
      show "disp_id d' = disp_id d \<and> x' \<in># {#x#}"
        if "Handle_data d' t' x' \<in> set (posted (jobs D1))" "Handle_data d' t' x' \<notin> set (posted ?q)" for d' t' x'
        using that D1(3) set_remove_nth [OF n] Handle_data by simp
      show "sum_list (map task_callback (posted (jobs D1))) = sum_list (map task_callback (posted ?q)) + {#x#}"
        using sum_list_remove [OF n, of task_callback] D1(3) Handle_data by simp
      show "sum_list (map task_false (posted ?q)) = sum_list (map task_false (posted (jobs D1)))"
        using sum_list_remove [OF n, of task_false] D1(3) Handle_data by simp
    qed (use j D1 belongs set_remove_nth [OF n] in auto)
    moreover have "take_task n D1 = D1\<lparr>jobs := ?q\<rparr>" by (simp add: take_task_def D1(3))
    ultimately show ?thesis
      using n Handle_data doc D1(1) drop_yields [OF world]
      by (auto simp: run_task_def at_def intro: yields_then)
  qed
qed (use inv in \<open>simp add: run_task_def at_def\<close>)

subsection \<open>Events\<close>

lemma session_targets_router:
  assumes "pf_inv pf" and "on_connection pf port peer = Inr s"
  shows "session_targets s = targets (router pf) (port, info_puid (handler s))" and "session_port s = port"
proof -
  show "session_targets s = targets (router pf) (port, info_puid (handler s))"
    using on_connection_parts(2) [OF assms]
    by (auto simp: session_targets_def setup_connection_routes_def targets_def split: option.splits)
  show "session_port s = port" using assms(2) by (auto simp: on_connection_def Let_def and_then_Inr)
qed

lemma accept_yields:
  assumes inv: "daemon_inv pf [] {#} D" and port: "list_port port (translators pf) \<noteq> []"
  shows "yields (daemon_inv pf [] {#}) service_allowed (accept_conn pf port peer (wialon_init buf est multi err c) D)"
proof (cases "on_connection pf port peer")
  case (Inl e)
  have "pf_inv pf" using daemon_inv_parts(4) [OF inv] by (simp add: routes_lead_def)
  have "peer = None"
  proof (cases peer)
    case (Some a)
    with on_connection_mapped [OF \<open>pf_inv pf\<close> port, of a] Inl show ?thesis by auto
  qed
  with Inl have "e = Not_connected" by (simp add: on_connection_def)
  with Inl show ?thesis by (simp add: accept_conn_def service_allowed_def)
next
  case (Inr s)
  let ?w = "wialon_init buf est multi err c :: dptree wialon_plugin" and ?D = "D\<lparr>conns := conns D @ [(s, conn_start (wialon_init buf est multi err c))]\<rparr>"
  obtain w io where w: "conn_start ?w = (w, io)" "w = handle_start ?w" by (simp add: conn_start_eq)
  have calls: "api_calls w = [Do_read_until crlf]" "parser_rests w"
    using w(2) idle_init [of buf est multi err c]
    by (simp_all add: handle_start_def wialon_init_def parser_rests_def hands_trees_def idle_inv_def tree_ok_def
        login_ok_def published_def)
  have ds: "\<forall>d \<in> set (session_targets s). disp_id d < length (plugs D)"
    using session_targets_router(1) [OF _ Inr] daemon_inv_parts(4) [OF inv] by (simp add: routes_lead_def)
  have "stored ?D = stored D" unfolding w(1) by (rule stored_accept) (simp add: records_def calls)
  moreover have "routes_of ?D = routes_of D @ [session_targets s]" by (simp add: routes_of_def w)
  moreover have "trees_ok ?D"
    unfolding trees_ok_def
  proof (intro allI impI)
    fix d t x assume "Handle_data d t x \<in> set (posted (jobs ?D))"
    then have "Handle_data d t x \<in> set (posted (jobs D))" by simp
    with daemon_inv_parts(3) [OF inv] have "task_tree D t \<noteq> None" unfolding trees_ok_def by blast
    then show "task_tree ?D t \<noteq> None" by (auto simp: task_tree_def nth_append at_def split: if_splits)
  qed
  moreover have "sessions_ok pf ?D"
    using daemon_inv_parts(2) [OF inv] Inr calls(2) w by (auto simp: sessions_ok_def)
  ultimately have "daemon_inv pf [] {#} ?D"
    using core_accept [OF daemon_inv_parts(1) [OF inv] ds] daemon_inv_parts(4) [OF inv] by (simp add: daemon_inv_def)
  with Inr inv show ?thesis by (simp add: accept_conn_def)
qed

lemma plugin_event_yields:
  assumes world: "wialon_world (parse_env V)" and inv: "daemon_inv pf [] {#} D" and j: "j < length (plugs D)"
  shows "yields (daemon_inv pf [] {#}) service_allowed (plugin_turn V j (plugin_progress (print_uint V) ev) D)"
proof -
  have sane: "plugin_inv (plugs D ! j)"
    using daemon_inv_parts(1) [OF inv] j by (simp add: core_inv_def plugins_sane_def)
  have "yields (daemon_inv pf [] {#}) service_allowed
      (plugin_turn V j (plugin_progress (print_uint V) ev) (D\<lparr>jobs := jobs D\<rparr>))"
    by (rule plugin_turn_yields [OF world inv j, where Y = "{#}"])
      (use plugin.progress_answers [OF sane] plugin_faults(2) [OF sane] in auto)
  then show ?thesis by simp
qed

text \<open>The whole daemon is a guarded machine.\<close>

definition service_inv :: "service_env \<Rightarrow> plugin_factory \<Rightarrow> service \<Rightarrow> bool" where
  "service_inv V pf D \<longleftrightarrow> wialon_world (parse_env V) \<and> daemon_inv pf [] {#} D"

lemma service_step_yields:
  assumes "service_inv V pf D"
  shows "yields (service_inv V pf) service_allowed (service_step V pf ev D)"
proof -
  have world: "wialon_world (parse_env V)" and inv: "daemon_inv pf [] {#} D" using assms by (simp_all add: service_inv_def)
  have "yields (daemon_inv pf [] {#}) service_allowed (service_step V pf ev D)"
  proof (cases ev)
    case (Connection i e)
    with conn_turn_yields [OF world inv, of i e] inv show ?thesis by (cases e) simp_all
  qed (use inv accept_yields [OF inv] run_task_yields [OF world inv] plugin_event_yields [OF world inv] in simp_all)
  then show ?thesis by (rule yields_mono) (simp add: service_inv_def world)
qed

interpretation daemon: guarded_machine "service_step V pf" "service_inv V pf" service_allowed for V pf
proof
  fix D D' ev f
  assume inv: "service_inv V pf D"
  show "service_step V pf ev D = Inr D' \<Longrightarrow> service_inv V pf D'"
    and "service_step V pf ev D = Inl f \<Longrightarrow> service_allowed f"
    using service_step_yields [OF inv, of ev] by simp_all
qed

text \<open>It holds at the start, and in every state the daemon gets into.\<close>

lemma service_start_inv:
  assumes "wialon_world (parse_env V)" and "routes_lead pf (length ps)"
    and "\<forall>p \<in> set ps. plugin_inv p \<and> plugin_answered p = [] \<and> plugin_waiting p = {#}"
  shows "service_inv V pf (service_start ps)"
proof -
  have "sum_list (map plugin_waiting ps) = {#}" using assms(3) by (induction ps) auto
  then have "core_inv {#} [] {#} [] [] [] ps []"
    using assms(3)
    by (auto simp: core_inv_def ledger_ok_def copies_ok_def results_ok_def places_ok_def spread_ok_def told_ok_def
        plugins_sane_def owed_def unfinished_def)
  with assms show ?thesis
    by (simp add: service_inv_def daemon_inv_def service_start_def stored_def routes_of_def sessions_ok_def trees_ok_def)
qed

lemma reachable_inv:
  assumes "service_reachable V pf ps D" and "service_inv V pf (service_start ps)"
  shows "service_inv V pf D"
  using assms by (induction rule: service_reachable.induct) (auto intro: daemon.step_inv)

end
