(* ===== verification/Distribution.thy ===== *)
theory Distribution
  imports System Startup
begin

text \<open>
  The plugins of the repository as their libraries describe themselves, the configuration that comes
  with it (doc/config.cfg.example), and what loading the one with the other gives.
\<close>

subsection \<open>The plugins\<close>

text \<open>The two base classes fix the type; \<open>load_settings\<close> of \<open>interface\<close> takes everything.\<close>

definition translator_interface :: "string \<Rightarrow> string \<Rightarrow> string \<Rightarrow> plugin_interface" where
  "translator_interface uid nm version =
     \<lparr>iface_type = PLUGIN_TRANSLATOR, iface_uid = uid, iface_name = nm, iface_version = version\<rparr>"

definition dispatcher_interface :: "string \<Rightarrow> string \<Rightarrow> string \<Rightarrow> plugin_interface" where
  "dispatcher_interface uid nm version =
     \<lparr>iface_type = PLUGIN_DISPATCHER, iface_uid = uid, iface_name = nm, iface_version = version\<rparr>"

definition wialon_interface :: plugin_interface where
  "wialon_interface = translator_interface ''wialon'' ''Wialon IPS'' ''1.1''"

definition echo_interface :: plugin_interface where
  "echo_interface = translator_interface ''echo-example'' ''Echo Example'' ''0.1''"

definition redis_interface :: plugin_interface where
  "redis_interface = dispatcher_interface ''redis'' ''Redis'' ''0.1''"

definition logger_interface :: plugin_interface where
  "logger_interface = dispatcher_interface ''logger-example'' ''Logger Example'' ''0.1''"

definition shipped_plugins :: "plugin_interface list" where
  "shipped_plugins = [wialon_interface, echo_interface, redis_interface, logger_interface]"

lemmas interface_defs =
  translator_interface_def dispatcher_interface_def wialon_interface_def echo_interface_def
  redis_interface_def logger_interface_def

text \<open>No two of them share a uid.\<close>

lemma shipped_uids: "inj_on iface_uid (set shipped_plugins)"
proof -
  have "distinct (map iface_uid shipped_plugins)" by code_simp
  then show ?thesis by (simp add: distinct_map)
qed

subsection \<open>A directory with their libraries\<close>

text \<open>Nothing else is loaded from it, and each of them is there, in any order and any number of copies.\<close>

definition shipped_dir :: "fs_env \<Rightarrow> string \<Rightarrow> bool" where
  "shipped_dir F dir \<longleftrightarrow>
     list_dir F dir \<noteq> None \<and> open_library F ` set (dir_libraries F dir) = Some ` set shipped_plugins"

lemma shipped_opened:
  assumes "shipped_dir F dir" and "p \<in> set (dir_libraries F dir)"
  obtains i where "i \<in> set shipped_plugins" "open_library F p = Some i"
proof -
  have "open_library F p \<in> Some ` set shipped_plugins"
    using assms unfolding shipped_dir_def by (metis image_eqI)
  with that show thesis by auto
qed

lemma shipped_dir_ok: "shipped_dir F dir \<Longrightarrow> dir_ok F dir"
  unfolding dir_ok_def by (metis shipped_dir_def shipped_opened option.discI)

lemma set_map_filter: "set (List.map_filter f xs) = {y. \<exists>x \<in> set xs. f x = Some y}"
  by (induction xs) (auto simp: map_filter_Cons List.map_filter_def split: option.splits)

lemma shipped_chosen:
  assumes "shipped_dir F (current_path F)" and "plugin_dirs F cfg = [current_path F]" and "i \<in> set shipped_plugins"
  obtains j where "chosen (scanned_plugins F cfg) (iface_uid i) = Some j"
    "info_type j = iface_type i" "info_puid j = iface_uid i"
proof -
  let ?libs = "dir_libraries F (current_path F)"
  have scanned: "set (scanned_plugins F cfg) = {j. \<exists>p \<in> set ?libs. info_of F p = Some j}"
    by (simp add: scanned_plugins_def assms(2) set_map_filter)
  have info: "\<exists>k \<in> set shipped_plugins. info_type j = iface_type k \<and> info_puid j = iface_uid k"
    if "j \<in> set (scanned_plugins F cfg)" for j
  proof -
    from that scanned obtain p where p: "p \<in> set ?libs" "info_of F p = Some j" by auto
    moreover from shipped_opened [OF assms(1) p(1)] obtain k where
      "k \<in> set shipped_plugins" "open_library F p = Some k" .
    ultimately show ?thesis by (intro bexI [of _ k]) (auto simp: make_plugin_info_def)
  qed
  have known: "known_type j" if "j \<in> set (scanned_plugins F cfg)" for j
    using info [OF that] by (auto simp: known_type_def shipped_plugins_def interface_defs)
  have "Some i \<in> open_library F ` set ?libs" using assms(1,3) by (simp add: shipped_dir_def)
  then obtain p where p: "p \<in> set ?libs" "open_library F p = Some i" by (metis imageE)
  then have "\<exists>j \<in> set (scanned_plugins F cfg). info_puid j = iface_uid i"
    unfolding scanned by (auto simp: make_plugin_info_def intro!: bexI [of _ p])
  with known have "chosen (scanned_plugins F cfg) (iface_uid i) \<noteq> None"
    by (auto simp: chosen_def find_None_iff)
  then obtain j where j: "chosen (scanned_plugins F cfg) (iface_uid i) = Some j" by blast
  then have "j \<in> set (scanned_plugins F cfg)" "info_puid j = iface_uid i"
    by (auto simp: chosen_def find_Some_iff)
  with info obtain k where "k \<in> set shipped_plugins" "info_type j = iface_type k" "iface_uid k = iface_uid i"
    by fastforce
  then have "k = i" using shipped_uids assms(3) by (auto dest: inj_onD)
  with \<open>info_type j = iface_type k\<close> \<open>info_puid j = iface_uid i\<close> that [OF j] show thesis by simp
qed

subsection \<open>The configuration\<close>

text \<open>As \<open>read_json\<close> makes trees of it: numbers and truth values are their texts, elements of arrays have no name.\<close>

abbreviation json_value :: "string \<Rightarrow> config" where "json_value v \<equiv> Node v []"
abbreviation json_object :: "(string \<times> config) list \<Rightarrow> config" where "json_object cs \<equiv> Node [] cs"
abbreviation json_array :: "config list \<Rightarrow> config" where "json_array vs \<equiv> Node [] (map (Pair []) vs)"

definition example_plugin_settings :: config where
  "example_plugin_settings = json_object
     [(''translator'', json_object
        [(''echo-example'', json_object [(''tcp'', json_array [json_value ''3333''])]),
         (''wialon'', json_object [(''tcp'', json_array [json_value ''4444''])])]),
      (''dispatcher'', json_object
        [(''logger-example'', json_object
           [(''source'', json_object [(''wialon'', json_object [(''tcp'', json_array [json_value ''4444''])])])]),
         (''redis'', json_object
           [(''host'', json_value ''localhost''), (''port'', json_value ''6789''),
            (''source'', json_object [(''wialon'', json_object [(''tcp'', json_array [json_value ''4444''])])])])])]"

definition example_log_settings :: config where
  "example_log_settings = json_object
     [(''Sinks'', json_object
        [(''Console'', json_object
           [(''Destination'', json_value ''Console''), (''Filter'', json_value ''%Severity% >= normal''),
            (''Format'', json_value (''[%TimeStamp%] <%Severity%>'' @ [CHR 0x09] @ ''[%Channel%] - %Message%'')),
            (''Asynchronous'', json_value ''false''), (''AutoFlush'', json_value ''true'')]),
         (''File'', json_object
           [(''Destination'', json_value ''TextFile''), (''FileName'', json_value ''MyApp_%3N.log''),
            (''Format'', json_value ''%TimeStamp%|%Severity%|%Channel%|%Message%''),
            (''Asynchronous'', json_value ''true''), (''AutoFlush'', json_value ''true'')])])]"

definition example_config :: config where
  "example_config = json_object [(''plugin'', example_plugin_settings), (''log'', example_log_settings)]"

lemma example_parts:
  "get_child_or ''plugin'' example_config empty_ptree = example_plugin_settings"
  "get_child (split_path ''log'') example_config = Some example_log_settings"
  "plugin_dirs F example_plugin_settings = [current_path F]"
  by (simp_all add: get_child_or_def plain_key_def plugin_dirs_def example_config_def example_plugin_settings_def)

subsection \<open>Loading it\<close>

text \<open>What both managers know afterwards.\<close>

lemma shipped_of_type:
  assumes "shipped_dir F (current_path F)" and "i \<in> set shipped_plugins"
  shows "\<exists>j. of_type (iface_type i) (chosen (scanned_plugins F example_plugin_settings) (iface_uid i)) = Some j \<and>
    info_puid j = iface_uid i"
proof -
  from shipped_chosen [OF assms(1) example_parts(3) assms(2)] obtain j where
    "chosen (scanned_plugins F example_plugin_settings) (iface_uid i) = Some j"
    "info_type j = iface_type i" "info_puid j = iface_uid i" .
  then show ?thesis by (simp add: of_type_def)
qed

lemma shipped_loaded:
  assumes "shipped_dir F (current_path F)"
  shows "\<exists>i. of_type PLUGIN_TRANSLATOR (chosen (scanned_plugins F example_plugin_settings) ''echo-example'') = Some i \<and>
      info_puid i = ''echo-example''"
    and "\<exists>i. of_type PLUGIN_TRANSLATOR (chosen (scanned_plugins F example_plugin_settings) ''wialon'') = Some i \<and>
      info_puid i = ''wialon''"
    and "\<exists>i. of_type PLUGIN_DISPATCHER (chosen (scanned_plugins F example_plugin_settings) ''logger-example'') = Some i \<and>
      info_puid i = ''logger-example''"
    and "\<exists>i. of_type PLUGIN_DISPATCHER (chosen (scanned_plugins F example_plugin_settings) ''redis'') = Some i \<and>
      info_puid i = ''redis''"
  using shipped_of_type [OF assms, of echo_interface] shipped_of_type [OF assms, of wialon_interface]
    shipped_of_type [OF assms, of logger_interface] shipped_of_type [OF assms, of redis_interface]
  by (simp_all add: shipped_plugins_def interface_defs)

definition reads_ports :: "config_env \<Rightarrow> bool" where
  "reads_ports C \<longleftrightarrow> port_of C (json_value ''3333'') = Some 3333 \<and> port_of C (json_value ''4444'') = Some 4444"

lemmas section_defs =
  get_child_or_def plain_key_def section_sources_def tcp_ports_def tcp_entries_def

lemma example_sections:
  "pt_children (get_child_or ''translator'' example_plugin_settings empty_ptree) =
     [(''echo-example'', json_object [(''tcp'', json_array [json_value ''3333''])]),
      (''wialon'', json_object [(''tcp'', json_array [json_value ''4444''])])]"
  "map fst (pt_children (get_child_or ''dispatcher'' example_plugin_settings empty_ptree)) = [''logger-example'', ''redis'']"
  "\<forall>d \<in> set (pt_children (get_child_or ''dispatcher'' example_plugin_settings empty_ptree)).
     section_sources (snd d) = [(''wialon'', json_object [(''tcp'', json_array [json_value ''4444''])])]"
  by (simp_all add: section_defs example_plugin_settings_def)

lemma example_ok:
  assumes "shipped_dir F (current_path F)" and "reads_ports C" and "\<And>uid s. accepts C uid s"
  shows "plugins_ok C F example_plugin_settings"
    and "named_ports C example_plugin_settings = {3333, 4444}"
proof -
  note loaded = shipped_loaded [OF assms(1)]
  have "\<forall>t \<in> set (pt_children (get_child_or ''translator'' example_plugin_settings empty_ptree)).
        translator_ok C (\<lambda>u. of_type PLUGIN_TRANSLATOR (chosen (scanned_plugins F example_plugin_settings) u)) t"
    unfolding example_sections(1) using assms(2,3) loaded(1,2)
    by (auto simp: translator_ok_def tcp_entry_ok_def reads_ports_def section_defs)
  moreover have "section_ok C (\<lambda>u. of_type PLUGIN_DISPATCHER (chosen (scanned_plugins F example_plugin_settings) u)) d"
    if "d \<in> set (pt_children (get_child_or ''dispatcher'' example_plugin_settings empty_ptree))" for d
  proof -
    from that have "fst d \<in> set (map fst (pt_children (get_child_or ''dispatcher'' example_plugin_settings empty_ptree)))"
      by (metis image_eqI set_map)
    then have "fst d = ''logger-example'' \<or> fst d = ''redis''" unfolding example_sections(2) by auto
    moreover have "section_sources (snd d) = [(''wialon'', json_object [(''tcp'', json_array [json_value ''4444''])])]"
      using example_sections(3) that by blast
    ultimately show ?thesis using assms(2,3) loaded(3,4)
      by (auto simp: section_ok_def ports_ok_def reads_ports_def tcp_ports_def get_child_or_def plain_key_def)
  qed
  ultimately show "plugins_ok C F example_plugin_settings"
    using shipped_dir_ok [OF assms(1)] unfolding plugins_ok_def example_parts(3) by simp
  show "named_ports C example_plugin_settings = {3333, 4444}"
    unfolding named_ports_def example_sections(1) using assms(2)
    by (auto simp: section_ports_def reads_ports_def section_defs)
qed

text \<open>The two ports, each with its translator.\<close>

lemma example_ports:
  assumes "pf_load_settings C F example_plugin_settings pf_init = Inr pf"
    and "shipped_dir F (current_path F)" and "reads_ports C" and "\<And>uid s. accepts C uid s"
  shows "list_ports (translators pf) = [(3333, ''echo-example''), (4444, ''wialon'')]"
proof -
  let ?tm = "translators (fold pf_register (scanned_plugins F example_plugin_settings) pf_init)"
  have empty: "port_mapping ?tm = []" by (simp add: pf_init_def tm_init_def)
  obtain i j where loaded: "loaded_translators ?tm ''echo-example'' = Some i" "loaded_translators ?tm ''wialon'' = Some j"
    "info_type i = PLUGIN_TRANSLATOR" "info_type j = PLUGIN_TRANSLATOR"
    using shipped_loaded(1,2) [OF assms(2)]
    by (auto simp: registers_translators of_type_def split: option.splits if_splits)
  have "tm_load_settings C (get_child_or ''translator'' example_plugin_settings empty_ptree) ?tm =
      Inr (?tm\<lparr>port_mapping := [(3333, ''echo-example''), (4444, ''wialon'')]\<rparr>)"
    unfolding tm_load_settings_def example_sections(1) using loaded empty assms(3,4)
    by (simp add: tm_load_plugin_def tm_create_def plugin_load_settings_def tm_load_port_def reads_ports_def
        map_port_def get_child_or_def plain_key_def)
  with pf_load_settings_parts(2) [OF assms(1)]
  have "translators pf = ?tm\<lparr>port_mapping := [(3333, ''echo-example''), (4444, ''wialon'')]\<rparr>" by simp
  then show ?thesis by (simp add: list_ports_def)
qed

text \<open>What comes in on the port of the translator goes to the logger, then to redis; the other port has no route.\<close>

lemma example_dispatchers:
  assumes "shipped_dir F (current_path F)" and "reads_ports C"
  shows "map (info_puid \<circ> disp_info) (declared_dispatchers C F example_plugin_settings (4444, ''wialon'')) = [''logger-example'', ''redis'']"
    and "declared_dispatchers C F example_plugin_settings (3333, ''echo-example'') = []"
proof -
  obtain i j where loaded:
    "of_type PLUGIN_DISPATCHER (chosen (scanned_plugins F example_plugin_settings) ''logger-example'') = Some i"
    "of_type PLUGIN_DISPATCHER (chosen (scanned_plugins F example_plugin_settings) ''redis'') = Some j"
    "info_puid i = ''logger-example''" "info_puid j = ''redis''"
    using shipped_loaded(3,4) [OF assms(1)] by blast
  obtain s1 s2 where sections: "pt_children (get_child_or ''dispatcher'' example_plugin_settings empty_ptree) =
      [(''logger-example'', s1), (''redis'', s2)]"
    using example_sections(2) by auto
  have "section_keys C s = [(4444, ''wialon'')]" if "s \<in> {s1, s2}" for s
  proof -
    have "section_sources s = [(''wialon'', json_object [(''tcp'', json_array [json_value ''4444''])])]"
      using example_sections(3) that unfolding sections by auto
    with assms(2) show ?thesis
      by (simp add: section_keys_def translator_keys_def tcp_ports_def reads_ports_def get_child_or_def plain_key_def
          List.map_filter_def)
  qed
  with loaded show "map (info_puid \<circ> disp_info) (declared_dispatchers C F example_plugin_settings (4444, ''wialon'')) = [''logger-example'', ''redis'']"
    and "declared_dispatchers C F example_plugin_settings (3333, ''echo-example'') = []"
    by (simp_all add: declared_dispatchers_def declared_targets_def sections)
qed

text \<open>A connection to a port of one translator.\<close>

lemma example_connection:
  assumes "pf_load_settings C F example_plugin_settings pf_init = Inr pf"
    and "list_port port (translators pf) = [(port, uid)]"
  shows "\<exists>s. on_connection pf port (Some peer) = Inr s \<and> info_puid (handler s) = uid"
proof -
  have inv: "pf_inv pf" by (rule pf_load_settings_inv [OF pf_init_inv assms(1)])
  have ne: "list_port port (translators pf) \<noteq> []" using assms(2) by simp
  from on_connection_mapped [OF inv this, of peer] obtain s where s: "on_connection pf port (Some peer) = Inr s" by blast
  have "port_translator port (translators pf) = uid"
    using on_connection_parts(1) [OF inv s] assms(2) by (simp add: port_translator_def)
  with on_connection_parts(1) [OF inv s] s show ?thesis by simp
qed

lemma example_serves:
  assumes "shipped_dir (fs E) (current_path (fs E))" and "reads_ports (config E)" and "\<And>uid s. accepts (config E) uid s"
    and "read_settings E (config_file E) = Some example_config" and "num_threads E \<noteq> 0" and "\<And>m. init_log E m"
    and "binds E [] (List.product (bind_list E) [3333, 4444])"
  obtains c where "core_main E = Served c"
    "pf_load_settings (config E) (fs E) example_plugin_settings pf_init = Inr (factory c)"
    "map (\<lambda>l. (bind_addr l, bind_port l)) (listeners c) = List.product (bind_list E) [3333, 4444]"
    "list_port 3333 (translators (factory c)) = [(3333, ''echo-example'')]"
    "list_port 4444 (translators (factory c)) = [(4444, ''wialon'')]"
proof -
  note ok = example_ok [OF assms(1-3)]
  have "start_ok E example_config"
    using ok assms(6,7) by (simp add: start_ok_def named_endpoints_def example_parts(1) split: option.split)
  with core_main_served [of E] assms(4-6) obtain c where c: "core_main E = Served c" by blast
  then have run: "core_run E example_config = Inr c"
    using assms(4) by (auto simp: core_main_def core_load_settings_def res_simps split: sum.splits if_splits option.splits)
  have pf: "pf_load_settings (config E) (fs E) example_plugin_settings pf_init = Inr (factory c)"
    using core_run_parts(1) [OF run] by (simp add: example_parts)
  note ports = example_ports [OF pf assms(1-3)]
  have "server_ports (translators (factory c)) = [3333, 4444]" by (simp add: server_ports_def ports)
  with core_run_parts(2) [OF run]
  have "map (\<lambda>l. (bind_addr l, bind_port l)) (listeners c) = List.product (bind_list E) [3333, 4444]"
    by (simp add: comp_def)
  moreover have "list_port 3333 (translators (factory c)) = [(3333, ''echo-example'')]"
      "list_port 4444 (translators (factory c)) = [(4444, ''wialon'')]"
    by (simp_all add: list_port_def multi_range_def ports [unfolded list_ports_def])
  ultimately show thesis by (rule that [OF c pf])
qed

end
