(* ===== verification/Service_Properties.thy ===== *)
theory Service_Properties
  imports Service_Inv Distribution Daemon_Properties Redis_Properties Wialon_Properties
begin

text \<open>
  The properties of the running daemon, for any order of its events: what an answer to a tracker means,
  that every record is answered once, and which faults can end the program.
\<close>

subsection \<open>A daemon with loaded settings\<close>

lemma declared_routes_ids:
  "r \<in> set (declared_routes C loaded n sections) \<Longrightarrow> disp_id (snd r) < n + length sections"
  by (induction C loaded n sections rule: declared_routes.induct) (fastforce split: option.splits)+

lemma those_Some: "those xs = Some ys \<Longrightarrow> xs = map Some ys"
  by (induction xs arbitrary: ys) (auto split: option.splits)

lemma service_plugins_made:
  assumes "service_plugins J sections = Some ps"
  shows "length ps = length (pt_children sections)"
    and "p \<in> set ps \<Longrightarrow> plugin_inv p \<and> plugin_answered p = [] \<and> plugin_waiting p = {#}"
proof -
  have made: "map (make_plugin J) (pt_children sections) = map Some ps"
    using assms unfolding service_plugins_def by (rule those_Some)
  from arg_cong [OF this, of length] show "length ps = length (pt_children sections)" by simp
  assume "p \<in> set ps"
  then have "Some p \<in> set (map (make_plugin J) (pt_children sections))" unfolding made by simp
  then obtain sec where "make_plugin J sec = Some p" unfolding set_map by (elim imageE) simp
  from make_plugin_fresh [OF this] show "plugin_inv p \<and> plugin_answered p = [] \<and> plugin_waiting p = {#}" by simp
qed

text \<open>The dispatchers that the settings declare, one for each section.\<close>

abbreviation dispatcher_sections :: "config \<Rightarrow> config" where
  "dispatcher_sections cfg \<equiv> get_child_or ''dispatcher'' cfg empty_ptree"

lemma loaded_service_inv:
  assumes "pf_load_settings C F cfg pf_init = Inr pf" and "service_plugins (json V) (dispatcher_sections cfg) = Some ps"
    and "wialon_world (parse_env V)"
  shows "service_inv V pf (service_start ps)"
proof (rule service_start_inv [OF assms(3)])
  have "disp_id d < length ps" if "d \<in> set (targets (router pf) key)" for key d
  proof -
    from that loaded_targets [OF assms(1), of key] obtain r where
      "r \<in> set (declared_routes C (\<lambda>u. of_type PLUGIN_DISPATCHER (chosen (scanned_plugins F cfg) u)) 0
        (pt_children (dispatcher_sections cfg)))" "snd r = d"
      by (auto simp: declared_dispatchers_def declared_targets_def)
    with declared_routes_ids [OF this(1)] service_plugins_made(1) [OF assms(2)] show ?thesis by simp
  qed
  then show "routes_lead pf (length ps)"
    using pf_load_settings_inv [OF pf_init_inv assms(1)] by (simp add: routes_lead_def)
qed (use service_plugins_made(2) [OF assms(2)] in blast)

lemma loaded_reachable_inv:
  assumes "pf_load_settings C F cfg pf_init = Inr pf" and "service_plugins (json V) (dispatcher_sections cfg) = Some ps"
    and "wialon_world (parse_env V)" and "service_reachable V pf ps D"
  shows "daemon_inv pf [] {#} D"
  using reachable_inv [OF assms(4) loaded_service_inv [OF assms(1-3)]] by (simp add: service_inv_def)

text \<open>The session of a record, and the record itself.\<close>

lemma routes_of_at:
  assumes inv: "daemon_inv pf P X D" and "pf_load_settings C F cfg pf_init = Inr pf" and "i < length (routes_of D)"
  obtains s w io where "at (conns D) i = Some (s, w, io)"
    "routes_of D ! i = declared_dispatchers C F cfg (session_port s, info_puid (handler s))"
proof -
  obtain s w io where c: "conns D ! i = (s, w, io)" by (cases "conns D ! i")
  have i: "i < length (conns D)" using assms(3) by (simp add: routes_of_def)
  with c nth_mem [OF i] daemon_inv_parts(2) [OF inv] obtain port peer where s: "on_connection pf port peer = Inr s"
    by (fastforce simp: sessions_ok_def)
  have "pf_inv pf" by (rule pf_load_settings_inv [OF pf_init_inv assms(2)])
  note targets = session_targets_router [OF this s]
  have "routes_of D ! i = session_targets s" using i c by (simp add: routes_of_def)
  with targets loaded_targets [OF assms(2)] that [of s w io] i c show thesis by (simp add: at_def)
qed

definition record_stored :: "service \<Rightarrow> record_id \<Rightarrow> bool" where
  "record_stored D rid \<longleftrightarrow>
     (case at (conns D) (fst rid) of
        None \<Rightarrow> False
      | Some (s, w, io) \<Rightarrow>
          (case at (api_calls w) (snd rid) of Some (Process_data r) \<Rightarrow> True | _ \<Rightarrow> False))"

lemma records_count:
  "count (mset (records i (enumerate n calls))) (j, k) =
     (if i = j \<and> n \<le> k \<and> k < n + length calls \<and> (\<exists>r. calls ! (k - n) = Process_data r) then 1 else 0)"
proof (induction calls arbitrary: n)
  case (Cons c calls)
  have "records i (enumerate n (c # calls)) =
      (case c of Process_data r \<Rightarrow> [(i, n)] | _ \<Rightarrow> []) @ records i (enumerate (Suc n) calls)"
    by (cases c) (simp_all add: records_def)
  with Cons.IH [of "Suc n"] show ?case
    by (cases c; cases "k = n") (auto simp: nth_Cons' Suc_diff_Suc not_less_eq_eq)
qed (simp add: records_def)

lemma stored_count: "count (stored D) rid = (if record_stored D rid then 1 else 0)"
proof -
  let ?f = "\<lambda>i. count (mset (records i (enumerate 0 (api_calls (fst (snd (conns D ! i))))))) rid"
  obtain j k where rid: "rid = (j, k)" by (cases rid)
  have "count (stored D) rid = sum ?f {..<length (conns D)}" by (simp add: stored_def count_sum)
  also have "\<dots> = sum (\<lambda>i. if i = j then ?f j else 0) {..<length (conns D)}"
    unfolding rid records_count by (rule sum.cong) auto
  also have "\<dots> = (if j < length (conns D) then ?f j else 0)" by simp
  also have "\<dots> = (if record_stored D rid then 1 else 0)"
    unfolding rid records_count
    by (auto simp: record_stored_def at_def split: prod.splits api_call.splits if_splits)
  finally show ?thesis .
qed

lemma stored_same: "stored D' = stored D \<Longrightarrow> record_stored D' rid = record_stored D rid"
proof -
  assume "stored D' = stored D"
  then have "count (stored D') rid = count (stored D) rid" by (rule arg_cong)
  then show ?thesis unfolding stored_count by (cases "record_stored D' rid"; cases "record_stored D rid") simp_all
qed

subsection \<open>A sample daemon\<close>

text \<open>The configuration that comes with the repository, with the libraries of the plugins.\<close>

definition shipped_config :: config_env where
  "shipped_config = \<lparr>asserts_on = True, port_of = (\<lambda>v. map_of [(''3333'', 3333), (''4444'', 4444)] (pt_data v)), accepts = (\<lambda>uid s. True)\<rparr>"

definition shipped_fs :: fs_env where
  "shipped_fs = sample_fs\<lparr>list_dir := (\<lambda>d. Some [''log.so'', ''redis.so'', ''daemonname.cfg'', ''echo.so'', ''wialon.so'']),
        open_library := map_of [(''log.so'', logger_interface), (''redis.so'', redis_interface),
          (''echo.so'', echo_interface), (''wialon.so'', wialon_interface)]\<rparr>"

definition sample_service_env :: service_env where
  "sample_service_env = \<lparr>parse_env = accept_all, print_uint = sample_uint, json = sample_json_env\<rparr>"

definition sample_factory :: plugin_factory where
  "sample_factory = projr (pf_load_settings shipped_config shipped_fs example_plugin_settings pf_init)"

definition sample_dispatchers :: "record_callback plugin_instance list" where
  "sample_dispatchers = the (service_plugins sample_json_env (dispatcher_sections example_plugin_settings))"

lemma sample_factory: "pf_load_settings shipped_config shipped_fs example_plugin_settings pf_init = Inr sample_factory"
proof -
  have "\<not> isl (pf_load_settings shipped_config shipped_fs example_plugin_settings pf_init)" by code_simp
  then show ?thesis by (simp add: sample_factory_def)
qed

lemma sample_dispatchers:
  "service_plugins sample_json_env (dispatcher_sections example_plugin_settings) = Some sample_dispatchers"
proof -
  have "service_plugins sample_json_env (dispatcher_sections example_plugin_settings) \<noteq> (None :: record_callback plugin_instance list option)" by code_simp
  then show ?thesis by (simp add: sample_dispatchers_def)
qed

lemma sample_plugs:
  "service_plugins (json sample_service_env) (dispatcher_sections example_plugin_settings) = Some sample_dispatchers"
  using sample_dispatchers by (simp add: sample_service_env_def)

lemma sample_world: "wialon_world (parse_env sample_service_env)"
  using sample.wialon_world_axioms by (simp add: sample_service_env_def)

lemma sample_reached:
  "fold_res (service_step sample_service_env sample_factory) evs (service_start sample_dispatchers) = Inr D \<Longrightarrow>
    service_reachable sample_service_env sample_factory sample_dispatchers D"
  by (rule service_run_reachable [OF service_reachable.start])

text \<open>Redis is reached, a tracker logs in and sends a text, and the logger, which comes first, confirms it.\<close>

definition sample_events :: "service_event list" where
  "sample_events =
     [Plugin 1 (Redis_event (Resolved ''localhost'' ''6789'' Success [\<lparr>address = ''a'', host_name = ''h'', service_name = ''s''\<rparr>])),
      Plugin 1 (Redis_event (Connected [\<lparr>address = ''a'', host_name = ''h'', service_name = ''s''\<rparr>] Success)),
      Accept 4444 (Some ''peer'') (replicate 32 (CHR ''x'')) 0 0 False COMMAND_COUNT,
      Connection 0 (Read_completed Success 11 (''#L#353;pw'' @ crlf)),
      Connection 0 (Read_completed Success 10 (''#M#hello'' @ crlf)),
      Run_task 0]"

subsection \<open>What an answer means\<close>

text \<open>The callbacks that stand for a record: its own, or that of its combiner.\<close>

definition stands_for :: "service \<Rightarrow> record_id \<Rightarrow> record_callback \<Rightarrow> bool" where
  "stands_for D rid x =
     (case x of
        Direct r \<Rightarrow> r = rid
      | Combined c \<Rightarrow> map_option comb_callback (at (combiners (jobs D)) c) = Some rid)"

definition dispatcher_said :: "service \<Rightarrow> record_id \<Rightarrow> dispatcher \<Rightarrow> bool \<Rightarrow> bool" where
  "dispatcher_said D rid d ok = list_ex (\<lambda>(x, b). b = ok \<and> stands_for D rid x) (plugin_answered (plugs D ! disp_id d))"

lemma dispatcher_said_iff:
  "dispatcher_said D rid d ok \<longleftrightarrow> (\<exists>x. (x, ok) \<in> set (plugin_answered (plugs D ! disp_id d)) \<and> stands_for D rid x)"
  by (auto simp: dispatcher_said_def list_ex_iff)

lemma stands_for_combined: "stands_for D rid (Combined c) \<longleftrightarrow> c < length (combiners (jobs D)) \<and> comb_callback (combiners (jobs D) ! c) = rid"
  by (auto simp: stands_for_def at_def)

lemma in_task_callbacks: "x \<in># sum_list (map task_callback ts) \<longleftrightarrow> (\<exists>d t. Handle_data d t x \<in> set ts)"
proof (induction ts)
  case (Cons u ts)
  then show ?case by (cases u) auto
qed simp

lemma in_waiting: "x \<in># sum_list (map plugin_waiting ps) \<longleftrightarrow> (\<exists>p \<in> set ps. x \<in># plugin_waiting p)"
  by (induction ps) auto

lemma owed_iff:
  "x \<in># owed ts ps [] \<longleftrightarrow> (\<exists>d t. Handle_data d t x \<in> set ts) \<or> (\<exists>p \<in> set ps. x \<in># plugin_waiting p)"
proof -
  have "owed ts ps [] = sum_list (map task_callback ts) + sum_list (map plugin_waiting ps)" by (simp add: owed_def)
  then show ?thesis by (simp only: union_iff in_task_callbacks in_waiting)
qed

lemma combined_answer:
  assumes inv: "daemon_inv pf [] {#} D" and c: "c < length (combiners (jobs D))"
    and gone: "comb_copies (combiners (jobs D) ! c) = 0" and rid: "comb_callback (combiners (jobs D) ! c) = rid"
  shows "1 < length (routes_of D ! fst rid)"
    and "comb_result (combiners (jobs D) ! c) \<Longrightarrow> d \<in> set (routes_of D ! fst rid) \<Longrightarrow> dispatcher_said D rid d True"
    and "\<not> comb_result (combiners (jobs D) ! c) \<Longrightarrow> \<exists>d \<in> set (routes_of D ! fst rid). dispatcher_said D rid d False"
proof -
  let ?cs = "combiners (jobs D)" and ?ts = "posted (jobs D)" and ?T = "routes_of D"
  note core = daemon_inv_parts(1) [OF inv]
  have copies: "copies_ok [] {#} ?cs ?ts (plugs D)" and results: "results_ok [] ?cs (plugs D)"
    and places: "places_ok ?T (owners ?cs) ?ts (plugs D)" and spread: "spread_ok ?T (owners ?cs) ?ts (plugs D)"
    and sane: "plugins_sane ?T (plugs D)"
    using core by (simp_all add: core_inv_def)
  have mine: "stands_for D rid (Combined c)" using c rid by (simp add: stands_for_combined)
  have i: "fst rid < length ?T" "1 < length (?T ! fst rid)" using places c rid by (auto simp: places_ok_def)
  then show "1 < length (?T ! fst rid)" by simp
  have none: "Combined c \<notin># owed ?ts (plugs D) []"
    using copies_count [OF copies c] gone by (simp add: count_eq_zero_iff)
  show "dispatcher_said D rid d True" if result: "comb_result (?cs ! c)" and d: "d \<in> set (?T ! fst rid)" for d
  proof -
    have j: "disp_id d < length (plugs D)" using sane i(1) d by (auto simp: plugins_sane_def)
    have "gets ?ts (plugs D) (Combined c) (disp_id d)" using spread c d rid by (simp add: spread_ok_def)
    moreover have "Handle_data d' t (Combined c) \<notin> set ?ts" for d' t using none unfolding owed_iff by blast
    moreover have "Combined c \<notin># plugin_waiting (plugs D ! disp_id d)"
      using none nth_mem [OF j] unfolding owed_iff by blast
    ultimately obtain b where b: "(Combined c, b) \<in> set (plugin_answered (plugs D ! disp_id d))" by (auto simp: gets_def)
    have "b"
    proof (rule ccontr)
      assume "\<not> b"
      with b j have "(Combined c, False) \<in> given (plugs D)" by (auto simp: given_nth)
      with results c result show False by (auto simp: results_ok_def)
    qed
    with b mine show ?thesis by (auto simp: dispatcher_said_iff)
  qed
  show "\<exists>d \<in> set (?T ! fst rid). dispatcher_said D rid d False" if result: "\<not> comb_result (?cs ! c)"
  proof -
    have "(Combined c, False) \<in> given (plugs D)" using results c result by (auto simp: results_ok_def)
    then obtain j where j: "j < length (plugs D)" "(Combined c, False) \<in> set (plugin_answered (plugs D ! j))"
      by (auto simp: given_nth)
    then have "Combined c \<in> fst ` set (plugin_answered (plugs D ! j))" by force
    with places j(1) have "belongs ?T (owners ?cs) (Combined c) j" unfolding places_ok_def by blast
    with c rid obtain d where "d \<in> set (?T ! fst rid)" "disp_id d = j" by auto
    with j(2) mine show ?thesis by (auto simp: dispatcher_said_iff)
  qed
qed

text \<open>
  C2. An answer tells the truth, however connections, tasks and dispatchers interleave: when a tracker's
  record is answered with success, the settings declare dispatchers for it and each of them has
  confirmed this record; when it is answered with failure, they declare none, or one of them has refused it.
\<close>

theorem answers_tell_the_truth:
  assumes "pf_load_settings C F cfg pf_init = Inr pf" and "service_plugins (json V) (dispatcher_sections cfg) = Some ps"
    and "wialon_world (parse_env V)" and "service_reachable V pf ps D" and "(rid, ok) \<in> set (told D)"
  shows "\<exists>s w io ds. at (conns D) (fst rid) = Some (s, w, io) \<and>
    ds = declared_dispatchers C F cfg (session_port s, info_puid (handler s)) \<and>
    (if ok then ds \<noteq> [] \<and> (\<forall>d \<in> set ds. dispatcher_said D rid d True)
     else ds = [] \<or> (\<exists>d \<in> set ds. dispatcher_said D rid d False))"
proof -
  note inv = loaded_reachable_inv [OF assms(1-4)]
  have why: "told_why (routes_of D) (combiners (jobs D)) (plugs D) rid ok"
    using daemon_inv_parts(1) [OF inv] assms(5) by (auto simp: core_inv_def told_ok_def)
  then have i: "fst rid < length (routes_of D)" by (simp add: told_why_def)
  obtain s w io where s: "at (conns D) (fst rid) = Some (s, w, io)"
    "routes_of D ! fst rid = declared_dispatchers C F cfg (session_port s, info_puid (handler s))"
    by (rule routes_of_at [OF inv assms(1) i])
  let ?ds = "routes_of D ! fst rid"
  consider "?ds = []" "\<not> ok" | d where "?ds = [d]" "(Direct rid, ok) \<in> set (plugin_answered (plugs D ! disp_id d))"
    | c where "c < length (combiners (jobs D))" "comb_callback (combiners (jobs D) ! c) = rid"
      "comb_copies (combiners (jobs D) ! c) = 0" "comb_result (combiners (jobs D) ! c) = ok"
    using why by (auto simp: told_why_def)
  then have "if ok then ?ds \<noteq> [] \<and> (\<forall>d \<in> set ?ds. dispatcher_said D rid d True)
      else ?ds = [] \<or> (\<exists>d \<in> set ?ds. dispatcher_said D rid d False)"
  proof cases
    case 2
    then have "dispatcher_said D rid d ok" by (auto simp: dispatcher_said_iff stands_for_def)
    with 2(1) show ?thesis by (cases ok) auto
  next
    case 3
    note answer = combined_answer [OF inv 3(1,3,2)]
    show ?thesis using answer 3(4) by (cases ok) auto
  qed simp
  with s show ?thesis by auto
qed

text \<open>Then redis confirms it too.\<close>

lemma answers_tell_the_truth_witness:
  "\<exists>D s w io. fold_res (service_step sample_service_env sample_factory)
      (sample_events @ [Run_task 0, Plugin 1 (Redis_event (Written Success 52)), Plugin 1 (Redis_event (Read Success ('':1'' @ crlf)))])
      (service_start sample_dispatchers) = Inr D \<and>
    told D = [((0, 4), True)] \<and> at (conns D) 0 = Some (s, w, io) \<and>
    (\<forall>d \<in> set (declared_dispatchers shipped_config shipped_fs example_plugin_settings (session_port s, info_puid (handler s))).
       dispatcher_said D (0, 4) d True)"
proof -
  let ?run = "fold_res (service_step sample_service_env sample_factory)
      (sample_events @ [Run_task 0, Plugin 1 (Redis_event (Written Success 52)), Plugin 1 (Redis_event (Read Success ('':1'' @ crlf)))])
      (service_start sample_dispatchers)"
  have "case ?run of Inl _ \<Rightarrow> False | Inr D \<Rightarrow> told D = [((0, 4), True)]" by code_simp
  then obtain D where D: "?run = Inr D" "told D = [((0, 4), True)]" by (auto split: sum.splits)
  have "((0, 4), True) \<in> set (told D)" using D(2) by simp
  from answers_tell_the_truth [OF sample_factory sample_plugs sample_world sample_reached [OF D(1)] this] D show ?thesis by auto
qed

subsection \<open>Every record once\<close>

text \<open>A record that is posted, or with a dispatcher.\<close>

definition under_way :: "service \<Rightarrow> record_id \<Rightarrow> bool" where
  "under_way D rid \<longleftrightarrow> Callback_false rid \<in> set (posted (jobs D)) \<or>
     (\<exists>d t x. Handle_data d t x \<in> set (posted (jobs D)) \<and> stands_for D rid x) \<or>
     (\<exists>p \<in> set (plugs D). \<exists>x. x \<in># plugin_waiting p \<and> stands_for D rid x)"

lemma in_task_false: "rid \<in># sum_list (map task_false ts) \<longleftrightarrow> Callback_false rid \<in> set ts"
proof (induction ts)
  case (Cons u ts)
  then show ?case by (cases u) auto
qed simp

lemma in_unfinished: "rid \<in># unfinished cs \<longleftrightarrow> (\<exists>c < length cs. comb_copies (cs ! c) \<noteq> 0 \<and> comb_callback (cs ! c) = rid)"
proof -
  have "rid \<in># unfinished cs \<longleftrightarrow> (\<exists>comb \<in> set cs. comb_copies comb \<noteq> 0 \<and> comb_callback comb = rid)"
    unfolding unfinished_def by (induction cs) auto
  also have "\<dots> \<longleftrightarrow> (\<exists>c < length cs. comb_copies (cs ! c) \<noteq> 0 \<and> comb_callback (cs ! c) = rid)"
    unfolding Bex_def in_set_conv_nth by blast
  finally show ?thesis .
qed

lemma promised_iff: "rid \<in># promised x \<longleftrightarrow> x = Direct rid"
  by (cases x) auto

text \<open>The part of the ledger that is not told is under way.\<close>

lemma under_way_ledger:
  assumes inv: "daemon_inv pf [] {#} D"
  shows "under_way D rid \<longleftrightarrow> rid \<in># sum_list (map task_false (posted (jobs D))) +
    \<Sum>\<^sub># (image_mset promised (owed (posted (jobs D)) (plugs D) [])) + unfinished (combiners (jobs D))"
proof -
  let ?cs = "combiners (jobs D)" and ?owed = "owed (posted (jobs D)) (plugs D) []"
  have copies: "copies_ok [] {#} ?cs (posted (jobs D)) (plugs D)"
    using daemon_inv_parts(1) [OF inv] by (simp add: core_inv_def)
  have alive: "Combined c \<in># ?owed \<longleftrightarrow> c < length ?cs \<and> comb_copies (?cs ! c) \<noteq> 0" for c
  proof
    assume "Combined c \<in># ?owed"
    then have "Combined c \<in># ?owed + {#}" by simp
    from combiner_alive(1,2) [OF copies this] show "c < length ?cs \<and> comb_copies (?cs ! c) \<noteq> 0" by simp
  next
    assume "c < length ?cs \<and> comb_copies (?cs ! c) \<noteq> 0"
    with copies_count [OF copies, of c] have "count ?owed (Combined c) \<noteq> 0" by simp
    then show "Combined c \<in># ?owed" by (simp only: count_eq_zero_iff not_not)
  qed
  have "rid \<in># \<Sum>\<^sub># (image_mset promised ?owed) \<longleftrightarrow> Direct rid \<in># ?owed" by (auto simp: promised_iff)
  moreover have "rid \<in># unfinished ?cs \<longleftrightarrow> (\<exists>c. Combined c \<in># ?owed \<and> stands_for D rid (Combined c))"
    by (auto simp: in_unfinished alive stands_for_combined)
  moreover have "(\<exists>x. x \<in># ?owed \<and> stands_for D rid x) \<longleftrightarrow>
      Direct rid \<in># ?owed \<or> (\<exists>c. Combined c \<in># ?owed \<and> stands_for D rid (Combined c))"
    (is "?some \<longleftrightarrow> ?alone \<or> ?joined")
  proof
    assume ?some
    then obtain x where x: "x \<in># ?owed" "stands_for D rid x" by blast
    then show "?alone \<or> ?joined"
    proof (cases x)
      case (Direct r)
      with x show ?thesis by (simp add: stands_for_def)
    qed blast
  next
    have "stands_for D rid (Direct rid)" by (simp add: stands_for_def)
    then show "?alone \<or> ?joined \<Longrightarrow> ?some" by blast
  qed
  moreover have "under_way D rid \<longleftrightarrow> Callback_false rid \<in> set (posted (jobs D)) \<or> (\<exists>x. x \<in># ?owed \<and> stands_for D rid x)"
    unfolding under_way_def owed_iff by blast
  ultimately show ?thesis unfolding union_iff in_task_false by blast
qed

lemma ledger_balances:
  assumes "pf_load_settings C F cfg pf_init = Inr pf" and "service_plugins (json V) (dispatcher_sections cfg) = Some ps"
    and "wialon_world (parse_env V)" and "service_reachable V pf ps D"
  shows "count (mset (map fst (told D))) rid + of_bool (under_way D rid) = of_bool (record_stored D rid)"
proof -
  note inv = loaded_reachable_inv [OF assms]
  let ?rest = "sum_list (map task_false (posted (jobs D))) +
    \<Sum>\<^sub># (image_mset promised (owed (posted (jobs D)) (plugs D) [])) + unfinished (combiners (jobs D))"
  have "stored D = mset (map fst (told D)) + ?rest"
    using daemon_inv_parts(1) [OF inv] by (simp add: core_inv_def ledger_ok_def ac_simps)
  from arg_cong [OF this, of "\<lambda>m. count m rid"]
  have sum: "of_bool (record_stored D rid) = count (mset (map fst (told D))) rid + count ?rest rid"
    by (simp only: stored_count count_union of_bool_def)
  then have small: "count ?rest rid \<le> 1" by (cases "record_stored D rid") simp_all
  have some: "under_way D rid \<longleftrightarrow> 0 < count ?rest rid"
    unfolding under_way_ledger [OF inv] by (simp only: count_greater_zero_iff)
  have "of_bool b = n" if "n \<le> 1" "b \<longleftrightarrow> 0 < n" for b and n :: nat using that by (cases n) auto
  note way = this [OF small some]
  show ?thesis unfolding sum way ..
qed

text \<open>
  C3. No record is lost and none is answered twice: in every state that the daemon gets into, a record that a
  translator stored has been answered, exactly once, or is under way (posted, or with a dispatcher), and
  never both; nothing else is answered.
\<close>

theorem records_answered_once:
  assumes "pf_load_settings C F cfg pf_init = Inr pf" and "service_plugins (json V) (dispatcher_sections cfg) = Some ps"
    and "wialon_world (parse_env V)" and "service_reachable V pf ps D"
  shows "count (mset (map fst (told D))) rid + of_bool (under_way D rid) = of_bool (record_stored D rid)"
  by (rule ledger_balances [OF assms])

lemma records_answered_once_witness:
  "\<exists>D. fold_res (service_step sample_service_env sample_factory) sample_events (service_start sample_dispatchers) = Inr D \<and>
    record_stored D (0, 4) \<and> told D = [] \<and> under_way D (0, 4)"
proof -
  have "case fold_res (service_step sample_service_env sample_factory) sample_events (service_start sample_dispatchers) of
      Inl _ \<Rightarrow> False | Inr D \<Rightarrow> record_stored D (0, 4) \<and> told D = []"
    by code_simp
  then obtain D where D: "fold_res (service_step sample_service_env sample_factory) sample_events
      (service_start sample_dispatchers) = Inr D" "record_stored D (0, 4)" "told D = []" by (auto split: sum.splits)
  from records_answered_once [OF sample_factory sample_plugs sample_world sample_reached [OF D(1)], of "(0, 4)"] D(2,3)
  have "under_way D (0, 4)" by (cases "under_way D (0, 4)") simp_all
  with D show ?thesis by blast
qed

subsection \<open>Tasks\<close>

text \<open>Answering records posts nothing, stores nothing, and touches the sessions of these records only.\<close>

definition answering :: "service \<Rightarrow> service \<Rightarrow> bool" where
  "answering D D' \<longleftrightarrow> posted (jobs D') = posted (jobs D) \<and> stored D' = stored D \<and>
     (\<exists>l. told D' = told D @ l \<and> (\<forall>i. i \<notin> fst ` fst ` set l \<longrightarrow> at (conns D') i = at (conns D) i))"

lemma answering_refl [simp]: "answering D D"
  by (simp add: answering_def)

lemma answering_trans [trans]: "answering D D' \<Longrightarrow> answering D' D'' \<Longrightarrow> answering D D''"
  unfolding answering_def by (elim conjE exE) (intro conjI exI [of _ "_ @ _"], auto simp: image_Un)

lemma answering_same [simp]:
  "answering D (set_combiner c comb D')  = answering D D'"
  "answering (D\<lparr>plugs := ps\<rparr>) D' = answering D D'"
  by (simp_all add: answering_def)

lemma call_back_works:
  assumes "call_back V rid ok D = Inr D'"
  shows "answering D D'"
proof (cases "at (conns D) (fst rid)")
  case None
  with assms show ?thesis by (auto simp: call_back_def conn_turn_def answering_def)
next
  case (Some c)
  obtain s w io where c: "c = (s, w, io)" by (cases c)
  with Some assms obtain w' io' q where w': "handle_process_data ok w = Inr w'"
    "fold_res (serve_new s (fst rid)) (new_calls w w') (jobs D) = Inr q"
    "D' = D\<lparr>told := told D @ [(rid, ok)], conns := (conns D)[fst rid := (s, w', io')], jobs := q\<rparr>"
    by (auto simp: call_back_def conn_turn_def and_then_Inr then_issue_def)
  obtain calls where calls: "api_calls w' = api_calls w @ calls" "\<forall>r. Process_data r \<notin> set calls"
    using w'(1) by (auto simp: handle_process_data_def answer_eq Let_def split: if_splits)
  have "fold_res (serve_new s (fst rid)) (enumerate n calls) p = Inr p \<and> records (fst rid) (enumerate n calls) = []" for n p
    using calls(2)
  proof (induction calls arbitrary: n)
    case (Cons a calls)
    then show ?case by (cases a) (auto simp: serve_new_def records_def)
  qed (simp add: records_def)
  with new_calls_append(2) [OF calls(1)] w'(2) have "q = jobs D" "records (fst rid) (new_calls w w') = []" by simp_all
  moreover have "stored D' = stored D + mset (records (fst rid) (new_calls w w'))"
    using stored_upd [OF _ _ calls(1), of "fst rid" "D" s io io'] Some c w'(3) by (simp add: at_Some stored_def)
  ultimately show ?thesis using w'(3) by (simp add: answering_def at_def)
qed

lemma combiner_op_works:
  assumes "combiner_op V c op D = Inr D'"
  shows "answering D D'"
proof -
  have calls: "fold_res (call_back V rid) oks D1 = Inr D2 \<Longrightarrow> answering D1 D2" for rid oks D1 D2
  proof (induction oks arbitrary: D1)
    case (Cons ok oks)
    then show ?case by (auto simp: and_then_Inr intro: answering_trans call_back_works)
  qed simp
  have "answering D (set_combiner c comb D)" for comb by simp
  with assms show ?thesis
    by (auto simp: combiner_op_def and_then_Inr simp del: answering_same split: option.splits
        intro: answering_trans [OF _ calls])
qed

lemma deliver_works: "deliver V x D = Inr D' \<Longrightarrow> answering D D'"
  by (auto simp: deliver_def and_then_Inr split: data_callback.splits
      intro: call_back_works answering_trans [OF combiner_op_works combiner_op_works])

lemma plugin_turn_works:
  assumes "plugin_turn V j f D = Inr D'"
  shows "answering D D'"
proof -
  have all: "fold_res (deliver V) xs D1 = Inr D2 \<Longrightarrow> answering D1 D2" for xs D1 D2
  proof (induction xs arbitrary: D1)
    case (Cons x xs)
    then show ?case by (auto simp: and_then_Inr intro: answering_trans deliver_works)
  qed simp
  from assms obtain ps xs where "fold_res (deliver V) xs (D\<lparr>plugs := ps\<rparr>) = Inr D'"
    by (auto simp: plugin_turn_def and_then_Inr split: option.splits)
  from all [OF this] show ?thesis by simp
qed

lemma run_task_works:
  assumes "run_task V n D = Inr D'" and "n < length (posted (jobs D))"
  shows "answering (take_task n D) D'"
  using assms
  by (auto simp: run_task_def at_def hold_callback_def drop_callback_def and_then_Inr
      split: task.splits option.splits data_callback.splits
      intro: call_back_works plugin_turn_works answering_trans [OF plugin_turn_works combiner_op_works]
        answering_trans [OF combiner_op_works answering_trans [OF plugin_turn_works combiner_op_works]])

text \<open>An order in which to run \<open>n\<close> tasks.\<close>

fun task_order :: "nat \<Rightarrow> nat list \<Rightarrow> bool" where
  "task_order n [] \<longleftrightarrow> n = 0"
| "task_order n (k # ks) \<longleftrightarrow> k < n \<and> task_order (n - 1) ks"

lemma run_all_tasks:
  assumes "task_order (length (posted (jobs D))) ks" and "fold_res (service_step V pf) (map Run_task ks) D = Inr D'"
  shows "posted (jobs D') = [] \<and> stored D' = stored D"
  using assms
proof (induction ks arbitrary: D)
  case (Cons k ks)
  then obtain D1 where D1: "run_task V k D = Inr D1" "fold_res (service_step V pf) (map Run_task ks) D1 = Inr D'"
    by (auto simp: and_then_Inr)
  from run_task_works [OF this(1)] Cons.prems(1)
  have "posted (jobs D1) = remove_nth k (posted (jobs D))" "stored D1 = stored D"
    by (simp_all add: answering_def take_task_def)
  with Cons.IH [of D1] Cons.prems(1) D1(2) show ?case by (simp add: remove_nth_def)
qed simp

text \<open>
  C7. Every record gets to its dispatchers: once the threads of the daemon have run the tasks that were
  posted, in any order, nothing is posted, and each record that was stored has been answered or waits
  with a dispatcher that the settings declare for its session.
\<close>

theorem records_reach_dispatchers:
  assumes "pf_load_settings C F cfg pf_init = Inr pf" and "service_plugins (json V) (dispatcher_sections cfg) = Some ps"
    and "wialon_world (parse_env V)" and "service_reachable V pf ps D"
    and "task_order (length (posted (jobs D))) ks" and "fold_res (service_step V pf) (map Run_task ks) D = Inr D'"
    and "record_stored D rid"
  shows "posted (jobs D') = [] \<and>
    (rid \<in> fst ` set (told D') \<or>
     (\<exists>s w io. at (conns D') (fst rid) = Some (s, w, io) \<and>
       (\<exists>d \<in> set (declared_dispatchers C F cfg (session_port s, info_puid (handler s))).
          \<exists>x. x \<in># plugin_waiting (plugs D' ! disp_id d) \<and> stands_for D' rid x)))"
proof -
  have reached: "service_reachable V pf ps D'" by (rule service_run_reachable [OF assms(4,6)])
  note inv = loaded_reachable_inv [OF assms(1-3) reached]
  note ran = run_all_tasks [OF assms(5,6)]
  then have "record_stored D' rid" using assms(7) stored_same by blast
  with ledger_balances [OF assms(1-3) reached, of rid]
  have "under_way D' rid \<or> 0 < count (mset (map fst (told D'))) rid" by (cases "under_way D' rid") simp_all
  then have "rid \<in> fst ` set (told D') \<or> under_way D' rid" by (simp only: count_greater_zero_iff) auto
  moreover have "\<exists>s w io. at (conns D') (fst rid) = Some (s, w, io) \<and>
       (\<exists>d \<in> set (declared_dispatchers C F cfg (session_port s, info_puid (handler s))).
          \<exists>x. x \<in># plugin_waiting (plugs D' ! disp_id d) \<and> stands_for D' rid x)" if "under_way D' rid"
  proof -
    from that ran obtain p x where "p \<in> set (plugs D')" "x \<in># plugin_waiting p" and mine: "stands_for D' rid x"
      by (auto simp: under_way_def)
    then obtain j where j: "j < length (plugs D')" "x \<in># plugin_waiting (plugs D' ! j)" by (auto simp: in_set_conv_nth)
    have places: "places_ok (routes_of D') (owners (combiners (jobs D'))) (posted (jobs D')) (plugs D')"
      using daemon_inv_parts(1) [OF inv] by (simp add: core_inv_def)
    with j have "belongs (routes_of D') (owners (combiners (jobs D'))) x j" unfolding places_ok_def by blast
    with mine places have i: "fst rid < length (routes_of D')" and d: "\<exists>d \<in> set (routes_of D' ! fst rid). disp_id d = j"
      by (cases x; fastforce simp: stands_for_def at_def places_ok_def split: if_splits)+
    obtain s w io where "at (conns D') (fst rid) = Some (s, w, io)"
      "routes_of D' ! fst rid = declared_dispatchers C F cfg (session_port s, info_puid (handler s))"
      by (rule routes_of_at [OF inv assms(1) i])
    with d j(2) mine show ?thesis by auto
  qed
  ultimately show ?thesis using ran by blast
qed

lemma records_reach_dispatchers_witness:
  "\<exists>D D'. fold_res (service_step sample_service_env sample_factory) (butlast sample_events) (service_start sample_dispatchers) = Inr D \<and>
    length (posted (jobs D)) = 2 \<and>
    fold_res (service_step sample_service_env sample_factory) (map Run_task [1, 0]) D = Inr D' \<and> posted (jobs D') = []"
proof -
  have "case fold_res (service_step sample_service_env sample_factory) (butlast sample_events) (service_start sample_dispatchers) of
      Inl _ \<Rightarrow> False
    | Inr D \<Rightarrow> record_stored D (0, 4) \<and> length (posted (jobs D)) = 2 \<and>
        \<not> isl (fold_res (service_step sample_service_env sample_factory) (map Run_task [1, 0]) D)"
    by code_simp
  then obtain D D' where D: "fold_res (service_step sample_service_env sample_factory) (butlast sample_events)
      (service_start sample_dispatchers) = Inr D" "record_stored D (0, 4)" "length (posted (jobs D)) = 2"
      "fold_res (service_step sample_service_env sample_factory) (map Run_task [1, 0]) D = Inr D'"
    by (auto split: sum.splits dest!: returned)
  have "task_order (length (posted (jobs D))) [1, 0]" using D(3) by simp
  from records_reach_dispatchers [OF sample_factory sample_plugs sample_world sample_reached [OF D(1)] this D(4,2)] D show ?thesis
    by blast
qed

subsection \<open>Sessions that have ended\<close>

text \<open>
  The handlers of the operations in flight hold the connection and the translator (\<open>shared_from_this\<close>,
  \<open>process_handler_.lock()\<close>), the callbacks of unanswered records the translator and with it the connection;
  without any of them the session is destroyed.
\<close>

definition session_over :: "service \<Rightarrow> nat \<Rightarrow> bool" where
  "session_over D i \<longleftrightarrow>
     (case at (conns D) i of
        None \<Rightarrow> False
      | Some (s, w, io) \<Rightarrow> reads io = [] \<and> writes io = [] \<and> (\<forall>k < length (api_calls w). \<not> under_way D (i, k)))"

lemma ended_step: "reads io = [] \<Longrightarrow> writes io = [] \<Longrightarrow> \<forall>ok. ev \<noteq> Data_answer ok \<Longrightarrow> conn_step s E ev (w, io) = Inr (w, io)"
  by (cases ev) auto

lemma record_stored_call: "record_stored D (i, k) \<Longrightarrow> at (conns D) i = Some (s, w, io) \<Longrightarrow> k < length (api_calls w)"
  by (auto simp: record_stored_def at_def split: if_splits)

text \<open>The ledger of a state, record by record.\<close>

definition accounted :: "service \<Rightarrow> bool" where
  "accounted D \<longleftrightarrow> (\<forall>rid. count (mset (map fst (told D))) rid + of_bool (under_way D rid) = of_bool (record_stored D rid))"

lemma ledger_arith:
  fixes a b :: nat
  shows "a + of_bool u = of_bool st \<Longrightarrow> u \<longleftrightarrow> st \<and> a = 0"
    and "a + b + of_bool u = of_bool st \<Longrightarrow> 0 < b \<Longrightarrow> st \<and> a = 0"
  by (cases u; cases st; simp)+

lemma accounted_told:
  assumes "accounted D" and "told D = l1 @ l2" and "rid \<in> fst ` set l2"
  shows "record_stored D rid" and "rid \<notin> fst ` set l1"
proof -
  have "0 < count (mset (map fst l2)) rid" using assms(3) by (simp only: count_greater_zero_iff set_mset_mset set_map)
  moreover have "count (mset (map fst l1)) rid + count (mset (map fst l2)) rid + of_bool (under_way D rid) = of_bool (record_stored D rid)"
    using assms(1) unfolding accounted_def assms(2) map_append mset_append count_union by blast
  ultimately have "record_stored D rid \<and> count (mset (map fst l1)) rid = 0" by (intro ledger_arith(2))
  then have "record_stored D rid \<and> rid \<notin> fst ` set l1" unfolding count_eq_zero_iff set_mset_mset set_map .
  then show "record_stored D rid" and "rid \<notin> fst ` set l1" by blast+
qed

lemma accounted_under_way:
  assumes "accounted D"
  shows "under_way D rid \<longleftrightarrow> record_stored D rid \<and> rid \<notin> fst ` set (told D)"
proof -
  have "count (mset (map fst (told D))) rid + of_bool (under_way D rid) = of_bool (record_stored D rid)"
    using assms by (simp only: accounted_def)
  from ledger_arith(1) [OF this] show ?thesis by (simp only: count_eq_zero_iff set_mset_mset set_map)
qed

lemma session_over_kept:
  assumes "session_over D i" and "accounted D" and "accounted D'"
    and "at (conns D') i = at (conns D) i" and "told D' = told D @ l"
  shows "session_over D' i"
proof -
  have "record_stored D' (i, k) = record_stored D (i, k)" for k using assms(4) by (simp add: record_stored_def)
  then have "under_way D' (i, k) \<Longrightarrow> under_way D (i, k)" for k
    unfolding accounted_under_way [OF assms(2)] accounted_under_way [OF assms(3)] assms(5) by auto
  with assms(1,4) show ?thesis by (auto simp: session_over_def split: option.splits)
qed

lemma answering_ended:
  assumes "session_over D i" and "accounted D" and "accounted D'"
    and "answering D1 D'" and "conns D1 = conns D" "told D1 = told D" "stored D1 = stored D"
  shows "at (conns D') i = at (conns D) i \<and> (\<exists>l. told D' = told D @ l \<and> i \<notin> fst ` fst ` set l)"
proof -
  from assms(4-) obtain l where l: "told D' = told D @ l" "\<forall>i. i \<notin> fst ` fst ` set l \<longrightarrow> at (conns D') i = at (conns D) i"
    "stored D' = stored D" by (auto simp: answering_def)
  have "i \<notin> fst ` fst ` set l"
  proof
    assume "i \<in> fst ` fst ` set l"
    then obtain k where k: "(i, k) \<in> fst ` set l" by force
    from accounted_told [OF assms(3) l(1) k] stored_same [OF l(3)] have way: "record_stored D (i, k)" "under_way D (i, k)"
      using accounted_under_way [OF assms(2)] by blast+
    with assms(1) record_stored_call [OF way(1)] show False by (auto simp: session_over_def split: option.splits)
  qed
  with l show ?thesis by blast
qed

text \<open>
  C12. A session that has ended stays untouched: when nothing of it is in flight and all its records are
  answered, its connection and its translator may be destroyed, since no event of the daemon reads or changes
  them any more, and no callback that refers to them is called.
\<close>

theorem ended_session_untouched:
  assumes "pf_load_settings C F cfg pf_init = Inr pf" and "service_plugins (json V) (dispatcher_sections cfg) = Some ps"
    and "wialon_world (parse_env V)" and "service_reachable V pf ps D"
    and "session_over D i" and "service_step V pf ev D = Inr D'"
  shows "session_over D' i \<and> at (conns D') i = at (conns D) i \<and> (\<exists>l. told D' = told D @ l \<and> i \<notin> fst ` fst ` set l)"
proof -
  have acc: "accounted D" "accounted D'"
    using ledger_balances [OF assms(1-4)] ledger_balances [OF assms(1-3) service_reachable.step [OF assms(4,6)]]
    by (simp_all add: accounted_def)
  obtain s w io where c: "at (conns D) i = Some (s, w, io)" "reads io = []" "writes io = []"
    using assms(5) by (auto simp: session_over_def split: option.splits)
  note answered = answering_ended [OF assms(5) acc]
  have "at (conns D') i = at (conns D) i \<and> (\<exists>l. told D' = told D @ l \<and> i \<notin> fst ` fst ` set l)"
  proof (cases ev)
    case (Accept port peer buf est multi err cm)
    with assms(6) c(1) show ?thesis by (auto simp: accept_conn_def and_then_Inr at_def nth_append split: if_splits)
  next
    case (Connection j e)
    show ?thesis
    proof (cases "j = i \<or> (\<exists>ok. e = Data_answer ok)")
      case True
      then have "D' = D"
        using Connection assms(6) c(1) ended_step [OF c(2,3), of e s "parse_env V" w]
        by (cases e) (auto simp: conn_turn_def new_calls_def at_Some list_update_same_conv simp del: conn_step.simps)
      then show ?thesis by simp
    next
      case False
      with Connection assms(6) have "conn_turn V j e D = Inr D'" by (cases e) auto
      with False show ?thesis by (auto simp: conn_turn_def and_then_Inr at_def split: option.splits)
    qed
  next
    case (Run_task n)
    with assms(6) run_task_works [of V n D D'] answered [of "take_task n D"] show ?thesis
      by (cases "n < length (posted (jobs D))") (simp_all add: take_task_def run_task_def at_def)
  next
    case (Plugin j e)
    with assms(6) answered [of D] plugin_turn_works [of V j "plugin_progress (print_uint V) e" D D'] show ?thesis
      by (auto split: if_splits)
  qed
  moreover from this session_over_kept [OF assms(5) acc] have "session_over D' i" by blast
  ultimately show ?thesis by blast
qed

text \<open>The tracker's record is answered, its writes end, and it closes the connection; then another one comes.\<close>

lemma ended_session_untouched_witness:
  "\<exists>D D'. fold_res (service_step sample_service_env sample_factory)
      (sample_events @ [Run_task 0, Plugin 1 (Redis_event (Read Eof [])), Plugin 1 (Redis_event (Written Eof 0)),
        Connection 0 (Write_completed 0 Eof), Connection 0 (Write_completed 0 Eof), Connection 0 (Read_completed Eof 0 [])])
      (service_start sample_dispatchers) = Inr D \<and>
    session_over D 0 \<and>
    service_step sample_service_env sample_factory (Accept 4444 (Some ''other'') [] 0 0 False COMMAND_COUNT) D = Inr D' \<and>
    length (conns D') = 2 \<and> at (conns D') 0 = at (conns D) 0"
proof -
  let ?run = "fold_res (service_step sample_service_env sample_factory)
      (sample_events @ [Run_task 0, Plugin 1 (Redis_event (Read Eof [])), Plugin 1 (Redis_event (Written Eof 0)),
        Connection 0 (Write_completed 0 Eof), Connection 0 (Write_completed 0 Eof), Connection 0 (Read_completed Eof 0 [])])
      (service_start sample_dispatchers)"
  let ?accept = "service_step sample_service_env sample_factory (Accept 4444 (Some ''other'') [] 0 0 False COMMAND_COUNT)"
  have "case ?run of Inl _ \<Rightarrow> False | Inr D \<Rightarrow>
      (case at (conns D) 0 of None \<Rightarrow> False | Some (s, w, io) \<Rightarrow> reads io = [] \<and> writes io = [] \<and>
        list_all (\<lambda>k. record_stored D (0, k) \<longrightarrow> (0, k) \<in> fst ` set (told D)) [0..<length (api_calls w)]) \<and>
      (case ?accept D of Inl _ \<Rightarrow> False | Inr D' \<Rightarrow> length (conns D') = 2)"
    by code_simp
  then obtain D D' s w io where D: "?run = Inr D" "?accept D = Inr D'" "length (conns D') = 2"
    "at (conns D) 0 = Some (s, w, io)" "reads io = []" "writes io = []"
    "\<forall>k < length (api_calls w). record_stored D (0, k) \<longrightarrow> (0, k) \<in> fst ` set (told D)"
    by (auto simp: list_all_iff split: sum.splits option.splits)
  note reached = sample_reached [OF D(1)]
  have "accounted D" using ledger_balances [OF sample_factory sample_plugs sample_world reached] by (simp add: accounted_def)
  then have "session_over D 0" using D(4-7) by (auto simp: session_over_def accounted_under_way)
  with ended_session_untouched [OF sample_factory sample_plugs sample_world reached this D(2)] D show ?thesis by blast
qed

subsection \<open>Faults\<close>

text \<open>
  C21. The parts never break each other: whatever comes, the daemon ends only by what its translators and its
  redis clients do on their own (an empty line, a size that is no number, an answer that is longer than its
  buffer; a host that does not resolve, an empty reply, a request that outgrows its buffer) or by a client that
  is gone when it is served. No answer reaches a combiner that is destroyed already, no task finds its tree or its
  dispatcher missing.
\<close>

theorem service_faults:
  assumes "pf_load_settings C F cfg pf_init = Inr pf" and "service_plugins (json V) (dispatcher_sections cfg) = Some ps"
    and "wialon_world (parse_env V)" and "fold_res (service_step V pf) evs (service_start ps) = Inl f"
  shows "f \<in> Translator_fault ` {Empty_line, Bad_data, Buffer_overrun} \<union>
    Dispatcher_fault ` {End_iterator, Reply_out_of_range, Publish_overrun} \<union> {Accept_fault Not_connected}"
  using daemon.run_allowed [OF loaded_service_inv [OF assms(1-3)] assms(4)] by (simp add: service_allowed_def)

lemma service_faults_witness:
  "fold_res (service_step sample_service_env sample_factory)
     [Accept 3333 (Some ''peer'') [] 0 0 False COMMAND_COUNT, Accept 4444 None [] 0 0 False COMMAND_COUNT]
     (service_start sample_dispatchers) = Inl (Accept_fault Not_connected)"
proof -
  let ?run = "fold_res (service_step sample_service_env sample_factory)
     [Accept 3333 (Some ''peer'') [] 0 0 False COMMAND_COUNT, Accept 4444 None [] 0 0 False COMMAND_COUNT]
     (service_start sample_dispatchers)"
  have "case ?run of Inr _ \<Rightarrow> False | Inl f \<Rightarrow> (case f of Accept_fault _ \<Rightarrow> True | _ \<Rightarrow> False)" by code_simp
  then obtain e where e: "?run = Inl (Accept_fault e)" by (auto split: sum.splits service_fault.splits)
  from service_faults [OF sample_factory sample_plugs sample_world e] e show ?thesis by auto
qed

end
