(* ===== verification/Acknowledgement.thy ===== *)
theory Acknowledgement
  imports Service_Properties
begin

text \<open>
  The way of a record through the daemon and back, turn by turn: the connection stores it and posts a
  task, the task has the redis dispatcher publish it, redis answers or is lost, the callback reaches the
  translator and its answer leaves through the connection.
\<close>

subsection \<open>The connection\<close>

text \<open>The code of an answer to stored data.\<close>

definition data_code :: "command_t \<Rightarrow> bool \<Rightarrow> string" where
  "data_code c ok = (if ok then ''1'' else if c = COMMAND_MESSAGE then ''0'' else ''-1'')"

lemma connection_stores:
  assumes "wialon_world E" and "idle_inv w" and "authenticated w" and "sbuf w = []" and "reads io = [Read_until crlf]"
    and k: "map_of estimates k = Some (n, c)" and c: "c \<in> {COMMAND_DATA, COMMAND_SHORTDATA, COMMAND_MESSAGE}"
    and ws: "length ws = n" "\<forall>f \<in> set ws. field_text f" and m: "m = message k (join_fields ws)"
  shows "\<exists>u. conn_step s E (Read_completed Success (length m + 2) (m @ crlf)) (w, io) = Inr (u, io) \<and>
    trees u = trees w @ [record_tree E c ws] \<and> cmd u = k \<and> current_cmd u = c \<and>
    api_calls u = api_calls w @ [Process_data (Some (length (trees w))), Do_read_until crlf]"
proof -
  have "n \<noteq> 0" using k c by (elim estimates_cases) auto
  then have ne: "ws \<noteq> []" using ws(1) by auto
  have "idle_inv (w\<lparr>sbuf := m @ crlf\<rparr>)" using assms(2) by simp
  from wialon_world.read_data [OF session_world [OF assms(1)] this _ k c ne ws(2), of "[]" s] assms(3) ws(1) m
  obtain u where u: "handle_read (session_env s E) (w\<lparr>sbuf := m @ crlf\<rparr>) = Inr u"
    "trees u = trees w @ [record_tree E c ws]" "cmd u = k" "current_cmd u = c"
    "api_calls u = api_calls w @ [Process_data (Some (length (trees w))), Do_read_until crlf]"
    by (simp add: body_start_def)
  have "read_ready (Read_until crlf) (m @ crlf) (length m + 2)" by (simp add: read_ready_def)
  moreover have "io\<lparr>reads := [Read_until crlf]\<rparr> = io" using assms(5) by simp
  ultimately show ?thesis using u assms(4,5)
    by (intro exI [of _ u]) (simp add: socket_read_step then_issue_def issued_def issue_def do_read_until_def)
qed

lemma connection_answers:
  assumes k: "map_of estimates k = Some (n, c)" and c: "c \<in> {COMMAND_DATA, COMMAND_SHORTDATA, COMMAND_MESSAGE}"
    and u: "cmd u = k" "current_cmd u = c" and "writes io = []" and reply: "reply = reply_text k (data_code c ok)"
  shows "\<exists>v. conn_step s E (Data_answer ok) (u, io) = Inr (v, io\<lparr>writes := [(length reply, 0)]\<rparr>) \<and>
    trees v = trees u \<and> api_calls v = api_calls u @ [Do_write reply] \<and> take (length reply) (answer_buffer v) = reply"
proof -
  have len: "length reply \<le> 32"
    using estimates_key_length [OF k] reply by (simp add: reply_text_length data_code_def)
  let ?v = "u\<lparr>answer_buffer := reply @ drop (length reply) (answer_buffer u), api_calls := api_calls u @ [Do_write reply]\<rparr>"
  have "handle_process_data ok u = answer (data_code c ok) u"
    using u(2) c by (auto simp: handle_process_data_def data_code_def)
  also have "\<dots> = Inr ?v" using len reply u(1) by (simp add: answer_eq Let_def)
  finally have v: "handle_process_data ok u = Inr ?v" .
  show ?thesis
    unfolding conn_step.simps v using assms(5)
    by (intro exI [of _ ?v]) (simp add: then_issue_def issued_def issue_def do_write_def)
qed

lemma connection_sends:
  assumes "take n (answer_buffer v) = reply" and "length reply = n" and "writes io = []"
  shows "conn_step s E (Part_sent 0 n) (v, io\<lparr>writes := [(n, 0)]\<rparr>) =
      Inr (v, io\<lparr>writes := [(n, n)], sent := sent io @ reply\<rparr>)"
    and "conn_step s E (Write_completed 0 Success) (v, io\<lparr>writes := [(n, n)], sent := sent io @ reply\<rparr>) =
      Inr (v, io\<lparr>sent := sent io @ reply\<rparr>)"
  using assms
  by (simp_all add: socket_step_def conn_handle_write_def handle_write_def then_issue_def issued_def remove_nth_def)

subsection \<open>The dispatcher\<close>

text \<open>A connected client with nothing to do.\<close>

definition client_idle :: "'c redis \<Rightarrow> bool" where
  "client_idle r \<longleftrightarrow>
     is_connected r \<and> \<not> busy r \<and> out_buf r = no_requests \<and> out_tmp_buf r = no_requests \<and> in_buf r = []"

text \<open>What the server's side brings: a line that confirms, or the end of the connection.\<close>

definition verdict :: "'c redis_event \<Rightarrow> bool \<Rightarrow> bool" where
  "verdict ev ok \<longleftrightarrow>
     (if ok then \<exists>l. ev = Read Success (l @ [LF]) \<and> reply_line l \<and> length l + 1 < 2 ^ 64
      else \<exists>ec got. ev = Read ec got \<and> ec \<noteq> Success)"

text \<open>A client whose one request was sent and waits, and the one that is sending it.\<close>

definition client_awaits :: "string \<Rightarrow> 'c \<Rightarrow> redis_op \<Rightarrow> 'c redis \<Rightarrow> bool" where
  "client_awaits bytes cb op r \<longleftrightarrow>
     busy r \<and> is_connected r \<and> out_buf r = no_requests \<and> out_tmp_buf r = \<lparr>data = bytes, callbacks = [Client cb]\<rparr> \<and>
     in_buf r = [] \<and> op \<in> set (pending r)"

lemma dispatcher_publishes:
  fixes d :: "'c dispatcher_redis"
  assumes "prints_uint kuint" and "client_idle (rcon d)" and "length (write_json J x (pretty_json d)) < 2 ^ 32"
  shows "\<exists>d1. dr_handle_process_data kuint J x cb d = Inr d1 \<and> answers (rcon d1) = answers (rcon d) \<and>
    client_awaits (publish_bytes kuint ''foo'' (write_json J x (pretty_json d))) cb Writing (rcon d1)"
proof -
  let ?b = "publish_bytes kuint ''foo'' (write_json J x (pretty_json d))"
  have small: "length ''foo'' < 2 ^ 32" by simp
  have "?b \<noteq> []" by (simp add: publish_bytes_def)
  with publish_bytes_size [OF assms(1) small assms(3)] assms(2) show ?thesis
    by (simp add: dr_handle_process_data_def publish_def client_idle_def Let_def redis_write_def enqueue_def
        start_op_def client_awaits_def)
qed

lemma dispatcher_sends:
  assumes "client_awaits bytes cb Writing (rcon d)"
  shows "\<exists>d'. redis_progress kuint (Written Success (length bytes)) d = Inr d' \<and> answers (rcon d') = answers (rcon d) \<and>
    client_awaits [] cb Reading (rcon d')"
  using assms
  by (simp add: redis_progress_def redis_step_def finish_op_def redis_handle_write_def sent_bytes_def start_read_def
      start_op_def client_awaits_def Let_def)

lemma dispatcher_hears:
  assumes "client_awaits [] cb Reading (rcon d)" and "verdict ev ok"
  shows "\<exists>d'. redis_progress kuint ev d = Inr d' \<and> answers (rcon d') = answers (rcon d) @ [(cb, ok)]"
proof -
  let ?r = "\<lambda>got. (rcon d)\<lparr>pending := remove1 Reading (pending (rcon d)), in_buf := got\<rparr>"
  have step: "redis_step kuint (Read ec got) (rcon d) = redis_handle_read ec (?r got)" if "ec = Success \<Longrightarrow> got \<noteq> []" for ec got
    using assms(1) that by (simp add: client_awaits_def redis_step_def finish_op_def)
  have "\<exists>r'. redis_step kuint ev (rcon d) = Inr r' \<and> answers r' = answers (rcon d) @ [(cb, ok)]"
  proof (cases ok)
    case True
    with assms(2) obtain l where l: "ev = Read Success (l @ [LF])" "reply_line l" "length l + 1 < 2 ^ 64"
      by (auto simp: verdict_def)
    have "callbacks (out_tmp_buf (?r (l @ [LF]))) = [Client cb] @ []" "callbacks (out_buf (?r (l @ [LF]))) = []" "busy (?r (l @ [LF]))"
      using assms(1) by (simp_all add: client_awaits_def)
    then show ?thesis
      using handle_read_lines [of "[l]" "?r (l @ [LF])" "[]" "[Client cb]" "[]"] l(2,3) step [of Success "l @ [LF]"] True
      by (auto simp: l(1) join_lines_def clients_def List.map_filter_def unlock_busy_def rest_same_def)
  next
    case False
    with assms(2) obtain ec got where e: "ev = Read ec got" "ec \<noteq> Success" by (auto simp: verdict_def)
    have "busy (?r got)" "callbacks (out_tmp_buf (?r got)) = [Client cb]" using assms(1) by (simp_all add: client_awaits_def)
    with reconnect_fields [of "?r got"] step [of ec got] e(2) False show ?thesis
      by (auto simp: e redis_handle_read_def clients_def List.map_filter_def)
  qed
  moreover have "requested ev = {#}" using assms(2) by (auto simp: verdict_def split: if_splits)
  ultimately show ?thesis by (auto simp: redis_progress_def)
qed

subsection \<open>Turns of the daemon\<close>

lemma conn_turn_stores:
  assumes "at (conns D) i = Some (s, w, io)" and "session_targets s = [d]"
    and "conn_step s (parse_env V) ev (w, io) = Inr (u, io')"
    and "api_calls u = api_calls w @ [Process_data r, Do_read_until crlf]"
  shows "conn_turn V i ev D = Inr (D\<lparr>conns := (conns D)[i := (s, u, io')],
    jobs := (jobs D)\<lparr>posted := posted (jobs D) @ [Handle_data d (i, r) (Direct (i, length (api_calls w)))]\<rparr>\<rparr>)"
proof -
  have calls: "new_calls w u = [(length (api_calls w), Process_data r), (Suc (length (api_calls w)), Do_read_until crlf)]"
    using new_calls_append(2) [OF assms(4)] by simp
  have "fold_res (serve_new s i) (new_calls w u) (jobs D) =
      Inr ((jobs D)\<lparr>posted := posted (jobs D) @ [Handle_data d (i, r) (Direct (i, length (api_calls w)))]\<rparr>)"
    unfolding calls by (cases "jobs D") (simp add: serve_new_def session_data_asks assms(2) asks_def new_combiner_def)
  with assms(1,3) show ?thesis by (simp add: conn_turn_def)
qed

lemma conn_turn_quiet:
  assumes "at (conns D) i = Some (s, w, io)" and "conn_step s (parse_env V) ev (w, io) = Inr (u, io')"
    and "api_calls u = api_calls w @ map Do_write bs"
  shows "conn_turn V i ev D = Inr (D\<lparr>conns := (conns D)[i := (s, u, io')]\<rparr>)"
proof -
  have "fold_res (serve_new s i) (enumerate n (map Do_write bs)) q = Inr q" for n q
    by (induction bs arbitrary: n) (simp_all add: serve_new_def)
  with assms(1,2) new_calls_append(2) [OF assms(3)] show ?thesis by (simp add: conn_turn_def)
qed

lemma run_task_direct:
  assumes "at (posted (jobs D)) n = Some (Handle_data d t (Direct rid))" and "task_tree D t = Some x"
    and "at (plugs D) (disp_id d) = Some p" and "plugin_handle (print_uint V) (json V) x (Direct rid) p = Inr p'"
    and "plugin_answered p' = plugin_answered p"
  shows "run_task V n D = Inr ((take_task n D)\<lparr>plugs := (plugs D)[disp_id d := p']\<rparr>)"
  using assms by (simp add: run_task_def hold_callback_def drop_callback_def plugin_turn_def take_task_def)

lemma plugin_turn_quiet:
  assumes "at (plugs D) j = Some p" and "f p = Inr p'" and "plugin_answered p' = plugin_answered p"
  shows "plugin_turn V j f D = Inr (D\<lparr>plugs := (plugs D)[j := p']\<rparr>)"
  using assms by (simp add: plugin_turn_def)

lemma plugin_turn_answers:
  assumes "at (plugs D) j = Some p" and "f p = Inr p'" and "plugin_answered p' = plugin_answered p @ [(Direct rid, ok)]"
  shows "plugin_turn V j f D = call_back V rid ok (D\<lparr>plugs := (plugs D)[j := p']\<rparr>)"
  using assms by (simp add: plugin_turn_def deliver_def)

lemma at_update [simp]: "at xs i = Some x \<Longrightarrow> at (xs[i := y]) i = Some y"
  by (auto simp: at_def split: if_splits)

subsection \<open>There and back\<close>

lemma record_published:
  assumes c: "at (conns D) i = Some (s, w, io)" and d: "session_targets s = [d]"
    and p: "at (plugs D) (disp_id d) = Some (Redis_plugin r)" "client_idle (rcon r)"
    and w: "wialon_world (parse_env V)" "idle_inv w" "authenticated w" "sbuf w = []" "reads io = [Read_until crlf]"
    and k: "map_of estimates k = Some (n, c)" "c \<in> {COMMAND_DATA, COMMAND_SHORTDATA, COMMAND_MESSAGE}"
    and ws: "length ws = n" "\<forall>f \<in> set ws. field_text f" and m: "m = message k (join_fields ws)"
    and out: "prints_uint (print_uint V)" "length (write_json (json V) (record_tree (parse_env V) c ws) (pretty_json r)) < 2 ^ 32"
  shows "\<exists>D1 u r1. fold_res (service_step V pf)
      [Connection i (Read_completed Success (length m + 2) (m @ crlf)), Run_task (length (posted (jobs D)))] D = Inr D1 \<and>
    at (conns D1) i = Some (s, u, io) \<and> trees u = trees w @ [record_tree (parse_env V) c ws] \<and> cmd u = k \<and> current_cmd u = c \<and>
    at (plugs D1) (disp_id d) = Some (Redis_plugin r1) \<and> answers (rcon r1) = answers (rcon r) \<and>
    client_awaits (publish_bytes (print_uint V) ''foo'' (write_json (json V) (record_tree (parse_env V) c ws) (pretty_json r)))
      (Direct (i, length (api_calls w))) Writing (rcon r1) \<and>
    told D1 = told D \<and> posted (jobs D1) = posted (jobs D)"
proof -
  let ?tree = "record_tree (parse_env V) c ws" and ?cb = "Direct (i, length (api_calls w))"
  from connection_stores [OF w k ws m, of s] obtain u where
    u: "conn_step s (parse_env V) (Read_completed Success (length m + 2) (m @ crlf)) (w, io) = Inr (u, io)"
      "trees u = trees w @ [?tree]" "cmd u = k" "current_cmd u = c"
      "api_calls u = api_calls w @ [Process_data (Some (length (trees w))), Do_read_until crlf]" by blast
  define Da where "Da = D\<lparr>conns := (conns D)[i := (s, u, io)],
    jobs := (jobs D)\<lparr>posted := posted (jobs D) @ [Handle_data d (i, Some (length (trees w))) ?cb]\<rparr>\<rparr>"
  have a: "service_step V pf (Connection i (Read_completed Success (length m + 2) (m @ crlf))) D = Inr Da"
    using conn_turn_stores [OF c d u(1,5)] by (simp add: Da_def)
  from dispatcher_publishes [OF out(1) p(2) out(2), of ?cb] obtain r1 where
    r1: "dr_handle_process_data (print_uint V) (json V) ?tree ?cb r = Inr r1" "answers (rcon r1) = answers (rcon r)"
      "client_awaits (publish_bytes (print_uint V) ''foo'' (write_json (json V) ?tree (pretty_json r))) ?cb Writing (rcon r1)" by blast
  have "at (posted (jobs Da)) (length (posted (jobs D))) = Some (Handle_data d (i, Some (length (trees w))) ?cb)"
    by (simp add: Da_def at_def nth_append)
  moreover have "task_tree Da (i, Some (length (trees w))) = Some ?tree"
    using c u(2) by (simp add: Da_def task_tree_def at_Some)
  moreover have "at (plugs Da) (disp_id d) = Some (Redis_plugin r)" using p(1) by (simp add: Da_def)
  ultimately have "run_task V (length (posted (jobs D))) Da =
      Inr ((take_task (length (posted (jobs D))) Da)\<lparr>plugs := (plugs Da)[disp_id d := Redis_plugin r1]\<rparr>)"
    by (rule run_task_direct) (simp_all add: plugin_handle_def plugin_answered_def r1)
  then have b: "service_step V pf (Run_task (length (posted (jobs D)))) Da =
      Inr ((take_task (length (posted (jobs D))) Da)\<lparr>plugs := (plugs D)[disp_id d := Redis_plugin r1]\<rparr>)"
    by (simp add: Da_def)
  show ?thesis
    using a b u(2-4) r1(2,3) at_update [OF p(1), of "Redis_plugin r1"] at_update [OF c, of "(s, u, io)"]
    by (simp del: service_step.simps at_update) (simp add: Da_def take_task_def remove_nth_def)
qed

lemma answer_returned:
  assumes c: "at (conns D) i = Some (s, u, io)" and k: "map_of estimates k = Some (n, c)"
      "c \<in> {COMMAND_DATA, COMMAND_SHORTDATA, COMMAND_MESSAGE}" and u: "cmd u = k" "current_cmd u = c" "writes io = []"
    and p: "at (plugs D) j = Some (Redis_plugin r)" "client_awaits bytes (Direct (i, x)) Writing (rcon r)"
    and ev: "verdict ev ok" and reply: "reply = reply_text k (data_code c ok)"
  shows "\<exists>D' v r'. fold_res (service_step V pf)
      [Plugin j (Redis_event (Written Success (length bytes))), Plugin j (Redis_event ev),
       Connection i (Part_sent 0 (length reply)), Connection i (Write_completed 0 Success)] D = Inr D' \<and>
    at (conns D') i = Some (s, v, io\<lparr>sent := sent io @ reply\<rparr>) \<and> trees v = trees u \<and>
    told D' = told D @ [((i, x), ok)] \<and> at (plugs D') j = Some (Redis_plugin r') \<and>
    answers (rcon r') = answers (rcon r) @ [(Direct (i, x), ok)] \<and> posted (jobs D') = posted (jobs D)"
proof -
  note j = p(1) [unfolded at_Some, THEN conjunct1]
  from dispatcher_sends [OF p(2)] obtain r1 where
    r1: "redis_progress (print_uint V) (Written Success (length bytes)) r = Inr r1" "answers (rcon r1) = answers (rcon r)"
      "client_awaits [] (Direct (i, x)) Reading (rcon r1)" by blast
  define D1 where "D1 = D\<lparr>plugs := (plugs D)[j := Redis_plugin r1]\<rparr>"
  have a: "service_step V pf (Plugin j (Redis_event (Written Success (length bytes)))) D = Inr D1"
    using plugin_turn_quiet [OF p(1), of _ "Redis_plugin r1" V] r1(1,2) j
    by (simp add: D1_def plugin_progress_def plugin_answered_def)
  from dispatcher_hears [OF r1(3) ev] obtain r2 where
    r2: "redis_progress (print_uint V) ev r1 = Inr r2" "answers (rcon r2) = answers (rcon r1) @ [(Direct (i, x), ok)]" by blast
  from connection_answers [OF k u reply, of s "parse_env V"] obtain v where
    v: "conn_step s (parse_env V) (Data_answer ok) (u, io) = Inr (v, io\<lparr>writes := [(length reply, 0)]\<rparr>)" "trees v = trees u"
      "api_calls v = api_calls u @ [Do_write reply]" "take (length reply) (answer_buffer v) = reply" by blast
  let ?io0 = "io\<lparr>writes := [(length reply, 0)]\<rparr>"
    and ?io1 = "io\<lparr>writes := [(length reply, length reply)], sent := sent io @ reply\<rparr>"
    and ?io2 = "io\<lparr>sent := sent io @ reply\<rparr>"
  define D2 where "D2 t = D\<lparr>plugs := (plugs D)[j := Redis_plugin r2], told := told D @ [((i, x), ok)],
    conns := (conns D)[i := (s, v, t)]\<rparr>" for t
  have at: "at (conns (D2 t)) i = Some (s, v, t)" for t unfolding D2_def using at_update [OF c] by simp
  have "plugin_turn V j (plugin_progress (print_uint V) (Redis_event ev)) D1 =
      call_back V (i, x) ok (D1\<lparr>plugs := (plugs D1)[j := Redis_plugin r2]\<rparr>)"
    using plugin_turn_answers [of D1 j "Redis_plugin r1" _ "Redis_plugin r2" "(i, x)" ok V] p(1) r2
    by (simp add: D1_def plugin_progress_def plugin_answered_def)
  also have "\<dots> = Inr (D2 ?io0)"
    unfolding call_back_def D2_def using conn_turn_quiet [where bs = "[reply]", OF _ v(1)] c v(3) by (simp add: D1_def)
  finally have b: "service_step V pf (Plugin j (Redis_event ev)) D1 = Inr (D2 ?io0)" using j by (simp add: D1_def)
  note sends = connection_sends [OF v(4) refl u(3), of s "parse_env V"]
  have "conn_turn V i (Part_sent 0 (length reply)) (D2 ?io0) = Inr ((D2 ?io0)\<lparr>conns := (conns (D2 ?io0))[i := (s, v, ?io1)]\<rparr>)"
    by (rule conn_turn_quiet [where bs = "[]", OF at]) (use sends(1) in simp_all)
  then have c1: "service_step V pf (Connection i (Part_sent 0 (length reply))) (D2 ?io0) = Inr (D2 ?io1)"
    by (simp add: D2_def)
  have "conn_turn V i (Write_completed 0 Success) (D2 ?io1) = Inr ((D2 ?io1)\<lparr>conns := (conns (D2 ?io1))[i := (s, v, ?io2)]\<rparr>)"
    by (rule conn_turn_quiet [where bs = "[]", OF at]) (use sends(2) in simp_all)
  then have c2: "service_step V pf (Connection i (Write_completed 0 Success)) (D2 ?io1) = Inr (D2 ?io2)"
    by (simp add: D2_def)
  have "at (plugs (D2 ?io2)) j = Some (Redis_plugin r2)" using p(1) by (simp add: D2_def)
  then show ?thesis
    using a b c1 c2 v(2) r1(2) r2(2) at [of ?io2]
    by (intro exI [of _ "D2 ?io2"] exI [of _ v] exI [of _ r2]) (simp add: D2_def del: service_step.simps)
qed

end
