(* ===== verification/Windows_Setup.thy ===== *)
theory Windows_Setup
  imports Prelude "HOL-Library.State_Monad" "HOL-Library.Multiset"
begin

text \<open>
  include/initializers and include/windows/setup/service_setup: installing, removing and looking up
  the Windows service. The Windows API and Boost.Filesystem are outside src/: every call is an event of
  a log that holds its arguments and its answer, and the answers are those of an environment that may
  look at the calls made so far.
\<close>

subsection \<open>Arguments\<close>

text \<open>\<open>setup_type\<close> wraps a string, \<open>setup_arg\<close> makes one of a C string, a string or a path.\<close>

datatype setup_type = Setup_type (setup_get: string)

definition setup_arg :: "string \<Rightarrow> setup_type" where
  "setup_arg s = Setup_type s"

subsection \<open>The API\<close>

datatype scm_access = SC_MANAGER_CONNECT | SC_MANAGER_CREATE_SERVICE | SC_MANAGER_ENUMERATE_SERVICE

type_synonym win_handle = "nat option"   \<comment> \<open>\<open>None\<close> is \<open>NULL\<close>\<close>

record enum_result =
  enum_ok :: bool
  bytes_needed :: "32 word"
  names_returned :: "string list"
  resume_at :: "32 word"

datatype win_call =
    Open_SC_manager scm_access win_handle
  | Close_service_handle win_handle
  | Enum_services_status win_handle "32 word" "32 word" enum_result
  | Open_service_delete win_handle string win_handle
  | Delete_service win_handle
  | Create_service win_handle string string string win_handle
  | Change_service_config win_handle string string bool
  | Change_service_config2 win_handle string
  | Reg_create_key string "32 word" win_handle
  | Reg_set_value win_handle "string option" string "32 word"
  | Reg_close_key win_handle
  | Reg_delete_key string "32 word"

record windows =
  exists_path :: "string \<Rightarrow> bool option"   \<comment> \<open>\<open>None\<close> when \<open>boost::filesystem::exists\<close> throws\<close>
  filename_of :: "string \<Rightarrow> string"
  branch_path_of :: "string \<Rightarrow> string"
  open_sc_manager :: "win_call list \<Rightarrow> scm_access \<Rightarrow> win_handle"
  enum_services :: "win_call list \<Rightarrow> win_handle \<Rightarrow> 32 word \<Rightarrow> 32 word \<Rightarrow> enum_result"
  open_service :: "win_call list \<Rightarrow> win_handle \<Rightarrow> string \<Rightarrow> win_handle"
  create_service :: "win_call list \<Rightarrow> win_handle \<Rightarrow> string \<Rightarrow> string \<Rightarrow> string \<Rightarrow> win_handle"
  change_config :: "win_call list \<Rightarrow> win_handle \<Rightarrow> string \<Rightarrow> string \<Rightarrow> bool"
  reg_create :: "win_call list \<Rightarrow> string \<Rightarrow> 32 word \<times> win_handle"
  reg_set :: "win_call list \<Rightarrow> win_handle \<Rightarrow> string option \<Rightarrow> string \<Rightarrow> 32 word"
  reg_delete :: "win_call list \<Rightarrow> string \<Rightarrow> 32 word"
  last_error :: "win_call list \<Rightarrow> 32 word"
  status_size :: "32 word"   \<comment> \<open>\<open>sizeof(ENUM_SERVICE_STATUS)\<close>\<close>

type_synonym 'a win = "(win_call list, 'a) state"

text \<open>A call: the answer is taken from the environment and the event added to the log.\<close>

definition ask :: "(win_call list \<Rightarrow> 'a) \<Rightarrow> ('a \<Rightarrow> win_call) \<Rightarrow> 'a win" where
  "ask answer call = State (\<lambda>l. (answer l, l @ [call (answer l)]))"

definition tell :: "win_call \<Rightarrow> unit win" where
  "tell call = ask (\<lambda>_. ()) (\<lambda>_. call)"

definition look :: "(win_call list \<Rightarrow> 'a) \<Rightarrow> 'a win" where
  "look f = State (\<lambda>l. (f l, l))"

lemma run_ask [simp]: "run_state (ask answer call) l = (answer l, l @ [call (answer l)])"
  by (simp add: ask_def)

lemma run_tell [simp]: "run_state (tell call) l = ((), l @ [call])"
  by (simp add: tell_def)

lemma run_look [simp]: "run_state (look f) l = (f l, l)"
  by (simp add: look_def)

text \<open>What the API reads of a string given as a C string.\<close>

definition c_str :: "string \<Rightarrow> string" where
  "c_str s = takeWhile (\<lambda>c. c \<noteq> CHR 0x00) s"

lemma c_str_id [simp]: "CHR 0x00 \<notin> set s \<Longrightarrow> c_str s = s"
  by (auto simp: c_str_def takeWhile_eq_all_conv)

subsection \<open>The service control manager\<close>

text \<open>
  How an operation ends: with the value of its error code (0 is success), with an exception, or with
  \<open>strcpy_s\<close> refusing a description that does not fit, which ends the process.
\<close>

datatype setup_result =
    Reported "32 word"
  | Scm_exception "32 word"
  | System_exception "32 word"
  | Filesystem_exception
  | Description_too_long

definition scm_open :: "windows \<Rightarrow> scm_access \<Rightarrow> 32 word \<Rightarrow> (win_handle \<times> 32 word) win" where
  "scm_open W access ec = do {
     h \<leftarrow> ask (\<lambda>l. open_sc_manager W l access) (Open_SC_manager access);
     e \<leftarrow> look (last_error W);
     State_Monad.return (h, if h = None then e else ec)
   }"

text \<open>
  A \<open>windows_scm\<close> in scope, made with the throwing constructor: the destructor closes its handle
  however the scope is left, but for an aborted process.
\<close>

definition with_scm :: "windows \<Rightarrow> scm_access \<Rightarrow> (win_handle \<Rightarrow> setup_result win) \<Rightarrow> setup_result win" where
  "with_scm W access body = do {
     (h, ec) \<leftarrow> scm_open W access 0;
     if ec \<noteq> 0 then State_Monad.return (Scm_exception ec)
     else do {
       r \<leftarrow> body h;
       if r = Description_too_long then State_Monad.return r
       else do { tell (Close_service_handle h); State_Monad.return r }
     }
   }"

subsection \<open>Is a service installed\<close>

abbreviation ERROR_MORE_DATA :: "32 word" where "ERROR_MORE_DATA \<equiv> 234"

definition enum_query :: "windows \<Rightarrow> win_handle \<Rightarrow> 32 word \<Rightarrow> 32 word \<Rightarrow> enum_result win" where
  "enum_query W scm sz resume =
     ask (\<lambda>l. enum_services W l scm sz resume) (Enum_services_status scm sz resume)"

definition is_installed :: "windows \<Rightarrow> string \<Rightarrow> 32 word \<Rightarrow> (bool \<times> 32 word) win" where
  "is_installed W service_name ec0 = do {
     (scm, ec) \<leftarrow> scm_open W SC_MANAGER_ENUMERATE_SERVICE ec0;
     r \<leftarrow> (if ec \<noteq> 0 then State_Monad.return (False, ec)
       else do {
         first \<leftarrow> enum_query W scm (status_size W) 0;
         e \<leftarrow> look (last_error W);
         if \<not> enum_ok first \<and> e = ERROR_MORE_DATA then do {
           second \<leftarrow> enum_query W scm (status_size W + bytes_needed first) (resume_at first);
           State_Monad.return (service_name \<in> set (names_returned second), ec)
         }
         else State_Monad.return (False, e)
       });
     tell (Close_service_handle scm);
     State_Monad.return r
   }"

definition check_windows_service :: "windows \<Rightarrow> setup_type \<Rightarrow> 32 word \<Rightarrow> (bool \<times> 32 word) win" where
  "check_windows_service W service_name ec = is_installed W (setup_get service_name) ec"

text \<open>\<open>exist()\<close> throws what the other overload reports.\<close>

definition check_windows_service_throwing :: "windows \<Rightarrow> setup_type \<Rightarrow> (32 word + bool) win" where
  "check_windows_service_throwing W service_name = do {
     (installed, ec) \<leftarrow> is_installed W (setup_get service_name) 0;
     State_Monad.return (if ec \<noteq> 0 then Inl ec else Inr installed)
   }"

subsection \<open>Removing the service\<close>

abbreviation backslash :: char where "backslash \<equiv> CHR 0x5C"

definition app_paths :: string where
  "app_paths = ''SOFTWARE'' @ [backslash] @ ''Microsoft'' @ [backslash] @ ''Windows'' @ [backslash] @
     ''CurrentVersion'' @ [backslash] @ ''App Paths'' @ [backslash]"

definition unregister_application :: "windows \<Rightarrow> string \<Rightarrow> 32 word \<Rightarrow> setup_result win" where
  "unregister_application W service_path_name ec =
     (let sub_key = c_str (app_paths @ service_path_name) in do {
       err \<leftarrow> ask (\<lambda>l. reg_delete W l sub_key) (Reg_delete_key sub_key);
       e \<leftarrow> look (last_error W);
       State_Monad.return (Reported (if err \<noteq> 0 then e else ec))
     })"

text \<open>Both setups start with a look at the file; 2 is the code of a missing one.\<close>

definition if_exists :: "windows \<Rightarrow> string \<Rightarrow> setup_result win \<Rightarrow> setup_result win" where
  "if_exists W path body =
     (case exists_path W path of
        None \<Rightarrow> State_Monad.return Filesystem_exception
      | Some False \<Rightarrow> State_Monad.return (Reported 2)
      | Some True \<Rightarrow> body)"

definition uninstall_service :: "windows \<Rightarrow> string \<Rightarrow> string \<Rightarrow> 32 word \<Rightarrow> setup_result win" where
  "uninstall_service W service_name service_path_name ec =
     if_exists W service_path_name (with_scm W SC_MANAGER_CONNECT (\<lambda>scm. do {
       h \<leftarrow> ask (\<lambda>l. open_service W l scm (c_str service_name)) (Open_service_delete scm (c_str service_name));
       if h = None then do {
         e \<leftarrow> look (last_error W);
         State_Monad.return (Reported e)
       }
       else do {
         tell (Delete_service h);
         tell (Close_service_handle h);
         unregister_application W service_path_name ec
       }
     }))"

definition uninstall_windows_service ::
  "windows \<Rightarrow> setup_type \<Rightarrow> setup_type \<Rightarrow> 32 word \<Rightarrow> setup_result win" where
  "uninstall_windows_service W service_name service_path_name ec =
     uninstall_service W (setup_get service_name) (setup_get service_path_name) ec"

definition or_throw :: "setup_result \<Rightarrow> setup_result" where
  "or_throw r = (case r of Reported ec \<Rightarrow> if ec \<noteq> 0 then System_exception ec else r | _ \<Rightarrow> r)"

definition uninstall_windows_service_throwing ::
  "windows \<Rightarrow> setup_type \<Rightarrow> setup_type \<Rightarrow> setup_result win" where
  "uninstall_windows_service_throwing W service_name service_path_name = do {
     r \<leftarrow> uninstall_windows_service W service_name service_path_name 0;
     State_Monad.return (or_throw r)
   }"

subsection \<open>Installing the service\<close>

definition set_value :: "windows \<Rightarrow> win_handle \<Rightarrow> string option \<Rightarrow> string \<Rightarrow> 32 word win" where
  "set_value W hkey value_name entry =
     ask (\<lambda>l. reg_set W l hkey value_name entry) (Reg_set_value hkey value_name entry)"

definition close_key :: "win_handle \<Rightarrow> unit win" where
  "close_key hkey = (if hkey \<noteq> None then tell (Reg_close_key hkey) else State_Monad.return ())"

text \<open>A failed registry call closes the key, then reports the last error.\<close>

definition key_failed :: "windows \<Rightarrow> win_handle \<Rightarrow> setup_result win" where
  "key_failed W hkey = do {
     close_key hkey;
     e \<leftarrow> look (last_error W);
     State_Monad.return (Reported e)
   }"

text \<open>The entries are written as \<open>length()\<close> bytes, without the zero byte behind them.\<close>

definition register_application :: "windows \<Rightarrow> string \<Rightarrow> 32 word \<Rightarrow> setup_result win" where
  "register_application W path ec =
     (let sub_key = c_str (app_paths @ filename_of W path) in do {
       (err, hkey) \<leftarrow> ask (\<lambda>l. reg_create W l sub_key) (\<lambda>(err, h). Reg_create_key sub_key err h);
       if err \<noteq> 0 then key_failed W hkey
       else do {
         err \<leftarrow> set_value W hkey None path;
         if err \<noteq> 0 then key_failed W hkey
         else do {
           err \<leftarrow> set_value W hkey (Some ''path'') (branch_path_of W path);
           if err \<noteq> 0 then key_failed W hkey
           else do { close_key hkey; State_Monad.return (Reported ec) }
         }
       }
     })"

text \<open>The arguments of the constructor.\<close>

record service_setup =
  service_name :: string
  service_display_name :: string
  service_description :: string
  service_path_name :: string
  service_user :: string
  service_password :: string
  service_option_string :: string

definition install_windows_service ::
  "setup_type \<Rightarrow> setup_type \<Rightarrow> setup_type \<Rightarrow> setup_type \<Rightarrow> setup_type \<Rightarrow> setup_type \<Rightarrow> setup_type \<Rightarrow> service_setup" where
  "install_windows_service nm display description path user password options =
     \<lparr>service_name = setup_get nm, service_display_name = setup_get display,
      service_description = setup_get description, service_path_name = setup_get path,
      service_user = setup_get user, service_password = setup_get password,
      service_option_string = setup_get options\<rparr>"

definition service_command :: "service_setup \<Rightarrow> string" where
  "service_command S = service_path_name S @
     (if service_option_string S \<noteq> [] then CHR 0x20 # service_option_string S else [])"

definition actual_service_user :: "service_setup \<Rightarrow> string" where
  "actual_service_user S =
     (if backslash \<in> set (service_user S) then service_user S else CHR 0x2E # backslash # service_user S)"

text \<open>The buffer of the description has 2048 characters, the zero one included.\<close>

definition describe_and_register :: "windows \<Rightarrow> service_setup \<Rightarrow> win_handle \<Rightarrow> 32 word \<Rightarrow> setup_result win" where
  "describe_and_register W S h ec =
     (if length (c_str (service_description S)) \<ge> 2048 then State_Monad.return Description_too_long
      else do {
        tell (Change_service_config2 h (c_str (service_description S)));
        tell (Close_service_handle h);
        register_application W (service_path_name S) ec
      })"

definition install_service :: "windows \<Rightarrow> service_setup \<Rightarrow> 32 word \<Rightarrow> setup_result win" where
  "install_service W S ec =
     (let nm = c_str (service_name S); display = c_str (service_display_name S);
          command = c_str (service_command S); user = c_str (actual_service_user S);
          password = c_str (service_password S) in
     if_exists W (service_path_name S) (with_scm W SC_MANAGER_CREATE_SERVICE (\<lambda>scm. do {
       h \<leftarrow> ask (\<lambda>l. create_service W l scm nm display command) (Create_service scm nm display command);
       if h = None then do {
         e \<leftarrow> look (last_error W);
         State_Monad.return (Reported e)
       }
       else if service_user S \<noteq> [] then do {
         succeed \<leftarrow> ask (\<lambda>l. change_config W l h user password) (Change_service_config h user password);
         e \<leftarrow> look (last_error W);
         if \<not> succeed then State_Monad.return (Reported e)
         else describe_and_register W S h ec
       }
       else describe_and_register W S h ec
     })))"

definition install_service_throwing :: "windows \<Rightarrow> service_setup \<Rightarrow> setup_result win" where
  "install_service_throwing W S = do {
     r \<leftarrow> install_service W S 0;
     State_Monad.return (or_throw r)
   }"

subsection \<open>Handles\<close>

datatype win_resource = Sc nat | Key nat

definition resource :: "(nat \<Rightarrow> win_resource) \<Rightarrow> win_handle \<Rightarrow> win_resource multiset" where
  "resource f h = (case h of None \<Rightarrow> {#} | Some n \<Rightarrow> {#f n#})"

fun acquired :: "win_call \<Rightarrow> win_resource multiset" where
  "acquired (Open_SC_manager _ h) = resource Sc h"
| "acquired (Open_service_delete _ _ h) = resource Sc h"
| "acquired (Create_service _ _ _ _ h) = resource Sc h"
| "acquired (Reg_create_key _ _ h) = resource Key h"
| "acquired _ = {#}"

fun released :: "win_call \<Rightarrow> win_resource multiset" where
  "released (Close_service_handle h) = resource Sc h"
| "released (Reg_close_key h) = resource Key h"
| "released _ = {#}"

text \<open>The service whose account could not be set.\<close>

fun refused :: "win_call \<Rightarrow> win_resource multiset" where
  "refused (Change_service_config h _ _ ok) = (if ok then {#} else resource Sc h)"
| "refused _ = {#}"

text \<open>The result of an operation and the calls it makes behind the log \<open>l\<close>.\<close>

definition outcome :: "'a win \<Rightarrow> win_call list \<Rightarrow> 'a \<times> win_call list" where
  "outcome m l = (case run_state m l of (r, l') \<Rightarrow> (r, drop (length l) l'))"

text \<open>
  An operation only adds to the log; started with the handles \<open>X\<close> in hand, it releases them and those
  it acquires, but for a service whose account was refused (\<open>strcpy_s\<close> may end the process first).
\<close>

definition owes :: "win_resource multiset \<Rightarrow> setup_result win \<Rightarrow> win_call list \<Rightarrow> bool" where
  "owes X m l \<longleftrightarrow>
     (\<exists>r cs. run_state m l = (r, l @ cs) \<and>
       (r \<noteq> Description_too_long \<longrightarrow>
         X + sum_list (map acquired cs) = sum_list (map released cs) + sum_list (map refused cs)))"

lemma owes_return: "X = {#} \<or> r = Description_too_long \<Longrightarrow> owes X (State_Monad.return r) l"
  by (auto simp: owes_def)

lemma owes_look: "owes X (f (g l)) l \<Longrightarrow> owes X (State_Monad.bind (look g) f) l"
  by (simp add: owes_def)

lemma owes_ask:
  assumes "owes Y (f (answer l)) (l @ [call (answer l)])"
    and "X + acquired (call (answer l)) = Y + released (call (answer l)) + refused (call (answer l))"
  shows "owes X (State_Monad.bind (ask answer call) f) l"
proof -
  let ?c = "call (answer l)"
  obtain r cs where run: "run_state (f (answer l)) (l @ [?c]) = (r, (l @ [?c]) @ cs)"
    "r \<noteq> Description_too_long \<longrightarrow>
       Y + sum_list (map acquired cs) = sum_list (map released cs) + sum_list (map refused cs)"
    using assms(1) unfolding owes_def by blast
  have "X + sum_list (map acquired (?c # cs)) = sum_list (map released (?c # cs)) + sum_list (map refused (?c # cs))"
    if "r \<noteq> Description_too_long"
  proof -
    have "X + sum_list (map acquired (?c # cs)) = (X + acquired ?c) + sum_list (map acquired cs)" by simp
    also have "\<dots> = (released ?c + refused ?c) + (Y + sum_list (map acquired cs))"
      by (simp add: assms(2))
    finally show ?thesis using run(2) that by simp
  qed
  with run(1) show ?thesis unfolding owes_def by (intro exI [of _ r] exI [of _ "?c # cs"]) simp
qed

lemma owes_tell:
  assumes "owes Y (f ()) (l @ [c])" and "X + acquired c = Y + released c + refused c"
  shows "owes X (State_Monad.bind (tell c) f) l"
  unfolding tell_def using assms by (intro owes_ask) simp_all

lemmas owes_intros = owes_ask owes_tell owes_look

lemma owes_if_exists: "owes {#} m l \<Longrightarrow> owes {#} (if_exists W path m) l"
  by (simp add: if_exists_def owes_return split: option.split bool.split)

lemma owes_with_scm:
  assumes "\<And>h l. owes {#} (body h) l"
  shows "owes {#} (with_scm W access body) l"
proof -
  let ?h = "open_sc_manager W l access"
  let ?l = "l @ [Open_SC_manager access ?h]"
  obtain r cs where body: "run_state (body ?h) ?l = (r, ?l @ cs)"
    "r \<noteq> Description_too_long \<longrightarrow>
       sum_list (map acquired cs) = sum_list (map released cs) + sum_list (map refused cs)"
    using assms [of ?h ?l] unfolding owes_def by auto
  let ?ec = "if ?h = None then last_error W ?l else 0"
  show ?thesis
  proof (cases "?ec = 0")
    case False
    then show ?thesis
      unfolding owes_def
      by (intro exI [of _ "Scm_exception ?ec"] exI [of _ "[Open_SC_manager access ?h]"])
        (auto simp: with_scm_def scm_open_def resource_def split: if_splits)
  next
    case True
    let ?cs = "Open_SC_manager access ?h # cs @ (if r = Description_too_long then [] else [Close_service_handle ?h])"
    from body True have "run_state (with_scm W access body) l = (r, l @ ?cs)"
      by (simp add: with_scm_def scm_open_def)
    with body(2) show ?thesis
      unfolding owes_def by (intro exI [of _ r] exI [of _ ?cs]) (simp add: ac_simps)
  qed
qed

lemma owes_unregister: "owes {#} (unregister_application W path ec) l"
  unfolding unregister_application_def Let_def by (intro owes_intros owes_return) simp_all

lemma owes_close_key: "owes {#} (m ()) (l @ (if hkey = None then [] else [Reg_close_key hkey])) \<Longrightarrow>
    owes (resource Key hkey) (State_Monad.bind (close_key hkey) m) l"
  by (cases hkey) (auto simp: close_key_def resource_def intro!: owes_tell)

lemma owes_key_failed: "owes (resource Key hkey) (key_failed W hkey) l"
  unfolding key_failed_def by (intro owes_close_key owes_look owes_return) simp

lemma owes_register: "owes {#} (register_application W path ec) l"
proof -
  have ret: "owes (resource Key hkey) (State_Monad.bind (close_key hkey) (\<lambda>_. State_Monad.return r)) l" for hkey r l
    by (intro owes_close_key owes_return) simp
  have "owes (resource Key hkey)
    (State_Monad.bind (set_value W hkey None path) (\<lambda>err.
     if err \<noteq> 0 then key_failed W hkey
     else State_Monad.bind (set_value W hkey (Some ''path'') (branch_path_of W path)) (\<lambda>err.
     if err \<noteq> 0 then key_failed W hkey
     else State_Monad.bind (close_key hkey) (\<lambda>_. State_Monad.return (Reported ec))))) l" for hkey l
    unfolding set_value_def
    by (intro owes_ask [where Y = "resource Key hkey"]; (simp split del: if_split)?)
      (auto intro!: owes_ask [where Y = "resource Key hkey"] simp: owes_key_failed ret)
  then show ?thesis
    unfolding register_application_def Let_def
    by (intro owes_ask [where Y = "resource Key (snd (reg_create W l (c_str (app_paths @ filename_of W path))))"])
      (auto simp: owes_key_failed split: prod.split)
qed

lemma owes_describe: "owes (resource Sc h) (describe_and_register W S h ec) l"
  unfolding describe_and_register_def
  by (simp add: owes_return)
    (intro impI owes_tell [where Y = "resource Sc h"] owes_tell [where Y = "{#}"] owes_register; simp)

lemma owes_uninstall: "owes {#} (uninstall_service W nm path ec) l"
  unfolding uninstall_service_def
  by (intro owes_if_exists owes_with_scm
      owes_ask [where Y = "resource Sc (open_service W l scm nm)" for l scm nm])
    (auto simp: resource_def intro!: owes_look owes_return owes_tell owes_unregister)

lemma owes_install: "owes {#} (install_service W S ec) l"
proof -
  let ?u = "c_str (actual_service_user S)" and ?p = "c_str (service_password S)"
  have account: "owes (resource Sc h)
    (State_Monad.bind (ask (\<lambda>l. change_config W l h ?u ?p) (Change_service_config h ?u ?p)) (\<lambda>ok.
     State_Monad.bind (look (last_error W)) (\<lambda>e.
     if \<not> ok then State_Monad.return (Reported e) else describe_and_register W S h ec))) l" for h l
    by (rule owes_ask [where Y = "if change_config W l h ?u ?p then resource Sc h else {#}"])
      (auto intro!: owes_look owes_return owes_describe)
  show ?thesis
    unfolding install_service_def Let_def
    by (intro owes_if_exists owes_with_scm owes_ask [where Y = "resource Sc (create_service W l scm nm d c)" for l scm nm d c])
      (auto simp: resource_def account [unfolded resource_def] owes_describe [unfolded resource_def]
        intro!: owes_look owes_return split: option.split)
qed

lemma owes_outcome:
  assumes "owes {#} m l" and "outcome m l = (r, cs)" and "r \<noteq> Description_too_long"
  shows "sum_list (map acquired cs) = sum_list (map released cs) + sum_list (map refused cs)"
  using assms by (auto simp: owes_def outcome_def)

subsection \<open>What the operations did\<close>

lemma outcome_iff: "outcome m l = (r, cs) \<longleftrightarrow> (\<exists>l'. run_state m l = (r, l') \<and> cs = drop (length l) l')"
  by (auto simp: outcome_def split: prod.splits)

fun created_keys :: "win_call \<Rightarrow> string set" where
  "created_keys (Reg_create_key k _ _) = {k}"
| "created_keys _ = {}"

fun deleted_keys :: "win_call \<Rightarrow> string set" where
  "deleted_keys (Reg_delete_key k _) = {k}"
| "deleted_keys _ = {}"

lemma uninstall_calls:
  assumes "outcome (uninstall_service W nm path ec) l = (r, cs)"
  shows "\<Union> (deleted_keys ` set cs) \<subseteq> {c_str (app_paths @ path)}"
  using assms
  by (auto simp: outcome_iff uninstall_service_def if_exists_def with_scm_def scm_open_def
      unregister_application_def Let_def split: option.splits bool.splits if_splits)

lemma register_calls:
  "outcome (register_application W path ec) l = (r, cs) \<Longrightarrow>
    \<Union> (created_keys ` set cs) = {c_str (app_paths @ filename_of W path)}"
  by (auto simp: outcome_iff register_application_def set_value_def key_failed_def close_key_def Let_def
      split: prod.splits if_splits)

text \<open>What a registration left undone shows in the answers.\<close>

definition registered :: "windows \<Rightarrow> string \<Rightarrow> win_call list \<Rightarrow> bool" where
  "registered W path cs \<longleftrightarrow>
     (\<exists>k h. Reg_create_key k 0 h \<in> set cs \<and> k = c_str (app_paths @ filename_of W path) \<and>
       Reg_set_value h None path 0 \<in> set cs \<and> Reg_set_value h (Some ''path'') (branch_path_of W path) 0 \<in> set cs)"

fun registry_refused :: "win_call \<Rightarrow> bool" where
  "registry_refused (Reg_create_key _ err _) = (err \<noteq> 0)"
| "registry_refused (Reg_set_value _ _ _ err) = (err \<noteq> 0)"
| "registry_refused (Reg_delete_key _ err) = (err \<noteq> 0)"
| "registry_refused _ = False"

text \<open>
  A registry call was refused, and the last error was zero when the key was closed behind it (\<open>l\<close> is the log
  before the calls \<open>cs\<close>).
\<close>

fun closes_key :: "win_call \<Rightarrow> bool" where
  "closes_key (Reg_close_key _) = True"
| "closes_key _ = False"

definition refused_silently :: "windows \<Rightarrow> win_call list \<Rightarrow> win_call list \<Rightarrow> bool" where
  "refused_silently W l cs \<longleftrightarrow>
     (\<exists>xs c ys zs. cs = xs @ [c] @ ys @ zs \<and> registry_refused c \<and> list_all closes_key ys \<and>
       last_error W (l @ xs @ [c] @ ys) = 0)"

lemma refused_silently_more:
  assumes "refused_silently W (l @ pre) cs"
  shows "refused_silently W l (pre @ cs @ post)"
proof -
  from assms obtain xs c ys zs where "cs = xs @ [c] @ ys @ zs" "registry_refused c" "list_all closes_key ys"
    "last_error W ((l @ pre) @ xs @ [c] @ ys) = 0"
    unfolding refused_silently_def by blast
  then show ?thesis unfolding refused_silently_def
    by (intro exI [of _ "pre @ xs"] exI [of _ c] exI [of _ ys] exI [of _ "zs @ post"]) simp
qed

lemma key_failed_run:
  assumes "run_state (key_failed W hkey) (l @ xs @ [c]) = (Reported 0, l')" and "registry_refused c"
  shows "\<exists>ys. l' = l @ (xs @ [c] @ ys) \<and> refused_silently W l (xs @ [c] @ ys)"
proof -
  let ?ys = "if hkey = None then [] else [Reg_close_key hkey]"
  have "l' = l @ xs @ [c] @ ?ys" "last_error W (l @ xs @ [c] @ ?ys) = 0"
    using assms(1) by (auto simp: key_failed_def close_key_def split: if_splits)
  moreover from this(2) have "refused_silently W l (xs @ [c] @ ?ys)"
    unfolding refused_silently_def using assms(2)
    by (intro exI [of _ xs] exI [of _ c] exI [of _ ?ys] exI [of _ "[]"]) simp
  ultimately show ?thesis by (intro exI [of _ ?ys]) simp
qed

lemma register_run:
  assumes "run_state (register_application W path ec) l = (Reported 0, l')"
  shows "\<exists>cs. l' = l @ cs \<and> (registered W path cs \<or> refused_silently W l cs)"
proof -
  let ?key = "c_str (app_paths @ filename_of W path)"
  obtain err h where k: "reg_create W l ?key = (err, h)" by (cases "reg_create W l ?key")
  let ?c1 = "Reg_create_key ?key err h"
  obtain e2 where e2: "reg_set W (l @ [?c1]) h None path = e2" by blast
  let ?c2 = "Reg_set_value h None path e2"
  obtain e3 where e3: "reg_set W (l @ [?c1, ?c2]) h (Some ''path'') (branch_path_of W path) = e3" by blast
  let ?c3 = "Reg_set_value h (Some ''path'') (branch_path_of W path) e3"
  note run = assms [unfolded register_application_def Let_def set_value_def]
  consider (create) "err \<noteq> 0" | (default) "err = 0" "e2 \<noteq> 0" | (path) "err = 0" "e2 = 0" "e3 \<noteq> 0"
    | (all) "err = 0" "e2 = 0" "e3 = 0" by blast
  then show ?thesis
  proof cases
    case create
    with run k have "run_state (key_failed W h) (l @ [] @ [?c1]) = (Reported 0, l')" by simp
    from key_failed_run [OF this] create show ?thesis by auto
  next
    case default
    with run k e2 have "run_state (key_failed W h) (l @ [?c1] @ [?c2]) = (Reported 0, l')" by simp
    from key_failed_run [OF this] default show ?thesis by auto
  next
    case path
    with run k e2 e3 have "run_state (key_failed W h) (l @ [?c1, ?c2] @ [?c3]) = (Reported 0, l')" by simp
    from key_failed_run [OF this] path show ?thesis by auto
  next
    case all
    with run k e2 e3 have "l' = l @ [?c1, ?c2, ?c3] @ (if h = None then [] else [Reg_close_key h])"
      by (simp add: close_key_def split: if_splits)
    moreover have "registered W path ([?c1, ?c2, ?c3] @ (if h = None then [] else [Reg_close_key h]))"
      unfolding registered_def using all by auto
    ultimately show ?thesis by blast
  qed
qed

text \<open>
  What Windows documents for the service manager: a call that fails sets the last error. (The registry
  functions return theirs, and are not documented to set it.)
\<close>

fun scm_failed :: "win_call \<Rightarrow> bool" where
  "scm_failed (Open_SC_manager _ None) = True"
| "scm_failed (Open_service_delete _ _ None) = True"
| "scm_failed (Create_service _ _ _ _ None) = True"
| "scm_failed (Change_service_config _ _ _ False) = True"
| "scm_failed _ = False"

definition scm_reports :: "windows \<Rightarrow> bool" where
  "scm_reports W \<longleftrightarrow> (\<forall>l. l \<noteq> [] \<longrightarrow> scm_failed (last l) \<longrightarrow> last_error W l \<noteq> 0)"

lemma scm_reportsD: "scm_reports W \<Longrightarrow> l \<noteq> [] \<Longrightarrow> scm_failed (last l) \<Longrightarrow> last_error W l \<noteq> 0"
  by (simp add: scm_reports_def)

lemma if_exists_success:
  "run_state (if_exists W path m) l = (Reported 0, l') \<longleftrightarrow>
    exists_path W path = Some True \<and> run_state m l = (Reported 0, l')"
  by (simp add: if_exists_def split: option.split bool.split)

lemma with_scm_success:
  assumes "scm_reports W" and "run_state (with_scm W access body) l = (Reported 0, l')"
  obtains n l'' where
    "run_state (body (Some n)) (l @ [Open_SC_manager access (Some n)]) = (Reported 0, l'')"
    "l' = l'' @ [Close_service_handle (Some n)]"
proof (cases "open_sc_manager W l access")
  case None
  with assms show ?thesis by (simp add: with_scm_def scm_open_def scm_reportsD)
next
  case (Some n)
  with assms(2) that show ?thesis
    by (auto simp: with_scm_def scm_open_def split: prod.splits if_splits)
qed

text \<open>The events of an installation that reports success.\<close>

definition service_made :: "service_setup \<Rightarrow> win_call list \<Rightarrow> bool" where
  "service_made S cs \<longleftrightarrow>
     (\<exists>m n. Create_service (Some m) (c_str (service_name S)) (c_str (service_display_name S))
         (c_str (service_command S)) (Some n) \<in> set cs \<and>
       Change_service_config2 (Some n) (c_str (service_description S)) \<in> set cs \<and>
       (service_user S \<noteq> [] \<longrightarrow>
         Change_service_config (Some n) (c_str (actual_service_user S)) (c_str (service_password S)) True \<in> set cs))"

definition described :: "windows \<Rightarrow> service_setup \<Rightarrow> nat \<Rightarrow> win_call list \<Rightarrow> win_call list \<Rightarrow> bool" where
  "described W S n l cs \<longleftrightarrow>
     Change_service_config2 (Some n) (c_str (service_description S)) \<in> set cs \<and>
     (registered W (service_path_name S) cs \<or> refused_silently W l cs)"

lemma registered_append:
  "registered W path cs \<Longrightarrow> set cs \<subseteq> set cs' \<Longrightarrow> registered W path cs'"
  unfolding registered_def by blast

lemma described_more:
  assumes "described W S n (l @ pre) cs"
  shows "described W S n l (pre @ cs @ post)"
proof -
  have "set cs \<subseteq> set (pre @ cs @ post)" by auto
  with assms registered_append [of W "service_path_name S" cs "pre @ cs @ post"]
    refused_silently_more [of W l pre cs post] show ?thesis unfolding described_def by blast
qed

lemma describe_run:
  assumes "run_state (describe_and_register W S (Some n) ec) l = (Reported 0, l')"
  shows "\<exists>cs. l' = l @ cs \<and> described W S n l cs"
proof -
  let ?cs = "[Change_service_config2 (Some n) (c_str (service_description S)), Close_service_handle (Some n)]"
  have "run_state (register_application W (service_path_name S) ec) (l @ ?cs) = (Reported 0, l')"
    using assms by (simp add: describe_and_register_def split: if_splits)
  from register_run [OF this] obtain cs where reg: "l' = (l @ ?cs) @ cs"
    "registered W (service_path_name S) cs \<or> refused_silently W (l @ ?cs) cs" by blast
  have "described W S n l (?cs @ cs)"
    using reg(2) registered_append [of W "service_path_name S" cs "?cs @ cs"]
      refused_silently_more [of W l ?cs cs "[]"]
    unfolding described_def by auto
  with reg(1) show ?thesis by auto
qed

lemma install_success:
  assumes "scm_reports W" and "outcome (install_service W S ec) l = (Reported 0, cs)"
  shows "exists_path W (service_path_name S) = Some True \<and> service_made S cs \<and>
    (registered W (service_path_name S) cs \<or> refused_silently W l cs)"
proof -
  obtain l' where run: "run_state (install_service W S ec) l = (Reported 0, l')" and cs: "cs = drop (length l) l'"
    using assms(2) by (auto simp: outcome_iff)
  from run have path: "exists_path W (service_path_name S) = Some True"
    unfolding install_service_def Let_def if_exists_success by blast
  from run obtain m l'' where body:
    "run_state (State_Monad.bind (ask (\<lambda>l. create_service W l (Some m) (c_str (service_name S)) (c_str (service_display_name S)) (c_str (service_command S)))
         (Create_service (Some m) (c_str (service_name S)) (c_str (service_display_name S)) (c_str (service_command S)))) (\<lambda>h.
       if h = None then State_Monad.bind (look (last_error W)) (\<lambda>e. State_Monad.return (Reported e))
       else if service_user S \<noteq> [] then
         State_Monad.bind (ask (\<lambda>l. change_config W l h (c_str (actual_service_user S)) (c_str (service_password S)))
           (Change_service_config h (c_str (actual_service_user S)) (c_str (service_password S)))) (\<lambda>succeed.
         State_Monad.bind (look (last_error W)) (\<lambda>e.
         if \<not> succeed then State_Monad.return (Reported e) else describe_and_register W S h ec))
       else describe_and_register W S h ec))
     (l @ [Open_SC_manager SC_MANAGER_CREATE_SERVICE (Some m)]) = (Reported 0, l'')"
    "l' = l'' @ [Close_service_handle (Some m)]"
    unfolding install_service_def Let_def if_exists_success by (blast elim: with_scm_success [OF assms(1)])
  let ?l = "l @ [Open_SC_manager SC_MANAGER_CREATE_SERVICE (Some m)]"
  let ?create = "Create_service (Some m) (c_str (service_name S)) (c_str (service_display_name S)) (c_str (service_command S))"
  from body(1) assms(1) obtain n where n:
    "create_service W ?l (Some m) (c_str (service_name S)) (c_str (service_display_name S)) (c_str (service_command S)) = Some n"
    by (cases "create_service W ?l (Some m) (c_str (service_name S)) (c_str (service_display_name S)) (c_str (service_command S))")
      (simp_all add: scm_reportsD)
  let ?change = "Change_service_config (Some n) (c_str (actual_service_user S)) (c_str (service_password S)) True"
  let ?mid = "?create (Some n) # (if service_user S \<noteq> [] then [?change] else [])"
  have "run_state (describe_and_register W S (Some n) ec) (?l @ ?mid) = (Reported 0, l'')"
    using body(1) n assms(1) by (simp add: scm_reportsD split: if_splits)
  from describe_run [OF this] obtain ds where ds: "l'' = (?l @ ?mid) @ ds" "described W S n (?l @ ?mid) ds" by blast
  let ?pre = "Open_SC_manager SC_MANAGER_CREATE_SERVICE (Some m) # ?mid"
  have all: "cs = ?pre @ ds @ [Close_service_handle (Some m)]"
    unfolding cs body(2) ds(1) by simp
  then have sub: "?create (Some n) \<in> set cs" "service_user S \<noteq> [] \<Longrightarrow> ?change \<in> set cs" by auto
  have "described W S n (l @ ?pre) ds" using ds(2) by simp
  from described_more [OF this, of "[Close_service_handle (Some m)]"] have d: "described W S n l cs" unfolding all .
  with sub have "service_made S cs" unfolding service_made_def described_def by blast
  with path d show ?thesis unfolding described_def by blast
qed

text \<open>The keys an installation creates.\<close>

lemma created_append: "\<Union> (created_keys ` set (xs @ ys)) = \<Union> (created_keys ` set xs) \<union> \<Union> (created_keys ` set ys)"
  by auto

lemma describe_created:
  "\<exists>r cs. run_state (describe_and_register W S h ec) l = (r, l @ cs) \<and>
    \<Union> (created_keys ` set cs) \<subseteq> {c_str (app_paths @ filename_of W (service_path_name S))}"
  by (auto simp: describe_and_register_def register_application_def set_value_def key_failed_def close_key_def Let_def
      split: prod.splits)

lemma install_calls:
  assumes "outcome (install_service W S ec) l = (r, cs)"
  shows "\<Union> (created_keys ` set cs) \<subseteq> {c_str (app_paths @ filename_of W (service_path_name S))}"
proof -
  have "\<And>h l r l'. run_state (describe_and_register W S h ec) l = (r, l') \<Longrightarrow>
      \<exists>cs. l' = l @ cs \<and> \<Union> (created_keys ` set cs) \<subseteq> {c_str (app_paths @ filename_of W (service_path_name S))}"
    using describe_created by (metis prod.inject)
  with assms show ?thesis
    by (fastforce simp: outcome_iff install_service_def if_exists_def with_scm_def scm_open_def Let_def
        split: option.splits bool.splits if_splits prod.splits)
qed

text \<open>Without an account nothing is refused.\<close>

lemma install_without_user:
  assumes "service_user S = []" and "length (c_str (service_description S)) < 2048"
    and "run_state (install_service W S ec) l = (r, l')"
  shows "r \<noteq> Description_too_long" and "\<exists>cs. l' = l @ cs \<and> sum_list (map refused cs) = {#}"
proof -
  have "\<And>h l r l'. run_state (describe_and_register W S h ec) l = (r, l') \<Longrightarrow>
      r \<noteq> Description_too_long \<and> (\<exists>cs. l' = l @ cs \<and> sum_list (map refused cs) = {#})"
    using assms(2)
    by (auto simp: describe_and_register_def register_application_def set_value_def key_failed_def close_key_def Let_def
        split: prod.splits if_splits)
  with assms(1,3) show "r \<noteq> Description_too_long" and "\<exists>cs. l' = l @ cs \<and> sum_list (map refused cs) = {#}"
    by (fastforce simp: install_service_def if_exists_def with_scm_def scm_open_def Let_def
        split: option.splits bool.splits if_splits prod.splits)+
qed

lemma uninstall_plain:
  "run_state (uninstall_service W nm path ec) l = (r, l') \<Longrightarrow>
    r \<noteq> Description_too_long \<and> (\<exists>cs. l' = l @ cs \<and> sum_list (map refused cs) = {#})"
  by (auto simp: uninstall_service_def if_exists_def with_scm_def scm_open_def unregister_application_def Let_def
      split: option.splits bool.splits if_splits)

end
