(* ===== verification/Program.thy ===== *)
theory Program
  imports Core Windows_Setup
begin

text \<open>
  src/main: the table of options with its defaults, what the program reads of the parsed options, and
  the branch of a Windows build, which installs or removes the service instead of running the daemon.
\<close>

subsection \<open>Options\<close>

text \<open>
  An option is a switch or takes a text, several texts or a number, with or without a default.
  \<open>BOOST_OS_WINDOWS\<close> is defined on every system (Boost.Predef), so \<open>pid-file\<close> is never an option and
  the configuration is looked for in the working directory.
\<close>

datatype option_value = Switch | Text string | Texts "string list" | Number "64 word"

record option_spec =
  long_name :: string
  short_name :: "char option"
  default_value :: "option_value option"

definition option_spec :: "string \<Rightarrow> char option \<Rightarrow> option_value option \<Rightarrow> option_spec" where
  "option_spec l s d = \<lparr>long_name = l, short_name = s, default_value = d\<rparr>"

definition general_options :: "option_spec list" where
  "general_options =
     [option_spec ''help'' (Some CHR ''h'') None,
      option_spec ''version'' (Some CHR ''v'') None,
      option_spec ''foreground'' (Some CHR ''F'') None,
      option_spec ''config-file'' None (Some (Text ''daemonname.cfg''))]"

definition network_options :: "32 word \<Rightarrow> option_spec list" where
  "network_options hardware_concurrency =
     [option_spec ''bind'' None (Some (Texts [''0.0.0.0''])),
      option_spec ''num-threads'' None (Some (Number (ucast (max 1 hardware_concurrency))))]"

definition service_options :: "option_spec list" where
  "service_options = [option_spec ''install'' None None, option_spec ''uninstall'' None None]"

definition allowed_options :: "bool \<Rightarrow> 32 word \<Rightarrow> option_spec list" where
  "allowed_options windows_api hw =
     general_options @ network_options hw @ (if windows_api then service_options else [])"

text \<open>\<open>po::store\<close> adds the default of every option that was not given.\<close>

type_synonym variables_map = "string \<rightharpoonup> option_value"

definition store_options :: "option_spec list \<Rightarrow> variables_map \<Rightarrow> variables_map" where
  "store_options table given =
     map_of (map (\<lambda>s. (long_name s, the (default_value s))) (filter (\<lambda>s. default_value s \<noteq> None) table)) ++ given"

definition vm_count :: "variables_map \<Rightarrow> string \<Rightarrow> bool" where
  "vm_count vm key = (vm key \<noteq> None)"

definition options_of :: "variables_map \<Rightarrow> options" where
  "options_of vm =
     \<lparr>opt_version = vm_count vm ''version'', opt_help = vm_count vm ''help'',
      opt_foreground = vm_count vm ''foreground''\<rparr>"

text \<open>What \<open>core\<close> reads of them.\<close>

definition env_options :: "variables_map \<Rightarrow> daemon_env \<Rightarrow> daemon_env option" where
  "env_options vm E =
     (case (vm ''bind'', vm ''num-threads'', vm ''config-file'') of
        (Some (Texts addrs), Some (Number n), Some (Text file)) \<Rightarrow>
          Some (E\<lparr>bind_list := addrs, num_threads := n, config_file := file\<rparr>)
      | _ \<Rightarrow> None)"

subsection \<open>The Windows build\<close>

datatype windows_line = Console console_line | Install_failed "32 word" | Uninstall_failed "32 word"

datatype windows_exit = Exit nat | Exception setup_result

definition install_self :: "windows \<Rightarrow> string \<Rightarrow> string \<Rightarrow> setup_result win" where
  "install_self W exec_path options =
     install_service W
       (install_windows_service (setup_arg ''daemonname'') (setup_arg ''Daemon Name'')
         (setup_arg ''Daemon Name is server software'') (setup_arg exec_path)
         (setup_arg []) (setup_arg []) (setup_arg options)) 0"

definition uninstall_self :: "windows \<Rightarrow> string \<Rightarrow> setup_result win" where
  "uninstall_self W exec_path =
     uninstall_windows_service W (setup_arg ''daemonname'') (setup_arg exec_path) 0"

text \<open>Both report through the error code, and what they throw leaves \<open>main\<close>.\<close>

definition setup_exit ::
  "(32 word \<Rightarrow> windows_line) \<Rightarrow> string \<Rightarrow> setup_result \<Rightarrow> windows_line list \<times> windows_exit" where
  "setup_exit failed message r =
     (case r of
        Reported ec \<Rightarrow>
          if ec \<noteq> 0 then ([failed ec], Exit 1)
          else ([Console (Line message), Console (Line ''Bye!'')], Exit 0)
      | _ \<Rightarrow> ([], Exception r))"

definition service_or_daemon ::
  "windows \<Rightarrow> string \<Rightarrow> variables_map \<Rightarrow> (bool \<Rightarrow> nat \<times> bool) \<Rightarrow> (windows_line list \<times> windows_exit) win" where
  "service_or_daemon W exec_path vm launch =
     (case vm ''install'' of
        Some (Text options) \<Rightarrow> do {
          r \<leftarrow> install_self W exec_path options;
          State_Monad.return (setup_exit Install_failed ''Service is installed'' r)
        }
      | _ \<Rightarrow>
          if vm_count vm ''uninstall'' then do {
            r \<leftarrow> uninstall_self W exec_path;
            State_Monad.return (setup_exit Uninstall_failed ''Service is uninstalled'' r)
          }
          else (let (out, status) = launch_daemon launch (vm_count vm ''foreground'') in
                State_Monad.return (map Console out, Exit status)))"

definition windows_main ::
  "windows \<Rightarrow> string \<Rightarrow> string \<Rightarrow> variables_map option \<Rightarrow> (bool \<Rightarrow> nat \<times> bool) \<Rightarrow>
    (windows_line list \<times> windows_exit) win" where
  "windows_main W compiler exec_path vm launch =
     (case vm of
        None \<Rightarrow> State_Monad.return ([Console Parse_error, Console Usage], Exit 1)
      | Some vm \<Rightarrow>
          if vm_count vm ''version'' then State_Monad.return ([Console (Line ''0.1.0pre-alpha'')], Exit 0)
          else (let info = Console (Line (daemon_info compiler)) in
            if vm_count vm ''help'' then State_Monad.return ([info, Console Usage], Exit 0)
            else do {
              (out, status) \<leftarrow> service_or_daemon W exec_path vm launch;
              State_Monad.return (info # out, status)
            }))"

text \<open>Without the service options the Windows build is the other one.\<close>

lemma windows_main_daemon:
  assumes "\<And>vm'. vm = Some vm' \<Longrightarrow> vm' ''install'' = None \<and> \<not> vm_count vm' ''uninstall''"
  shows "run_state (windows_main W compiler exec_path vm launch) l =
    (let (out, status) = main_program compiler (map_option options_of vm) launch in
     ((map Console out, Exit status), l))"
  using assms
  by (auto simp: windows_main_def service_or_daemon_def main_program_def options_of_def Let_def
      split: option.splits prod.splits)

text \<open>Defaults.\<close>

lemma default_options:
  "vm_count (store_options (allowed_options w hw) Map.empty) key \<longleftrightarrow> key \<in> {''config-file'', ''bind'', ''num-threads''}"
  by (auto simp: vm_count_def store_options_def allowed_options_def general_options_def network_options_def
      service_options_def option_spec_def)

subsection \<open>The working directory\<close>

text \<open>
  \<open>operator()\<close> of \<open>core\<close> first goes to the directory of the executable when it was launched in the
  background (mode \<open>server\<close>) and \<open>BOOST_OS_WINDOWS\<close> is defined where core.cpp is compiled; the change throws,
  outside the \<open>try\<close>, when it fails (here nothing). The environment of the daemon depends on the directory:
  relative names of the configuration file and of the plugin directories are looked up there.
\<close>

datatype run_mode = Common_mode | Server_mode

definition launch_mode :: "bool \<Rightarrow> run_mode" where
  "launch_mode foreground = (if foreground then Common_mode else Server_mode)"

definition enter_directory :: "bool \<Rightarrow> (string \<Rightarrow> bool) \<Rightarrow> string \<Rightarrow> run_mode \<Rightarrow> string \<Rightarrow> string option" where
  "enter_directory os_windows can_enter executable_path mode cwd =
     (if os_windows \<and> mode = Server_mode then (if can_enter executable_path then Some executable_path else None)
      else Some cwd)"

definition core_operator ::
  "bool \<Rightarrow> (string \<Rightarrow> bool) \<Rightarrow> string \<Rightarrow> (string \<Rightarrow> daemon_env) \<Rightarrow> run_mode \<Rightarrow> string \<Rightarrow> daemon_outcome option" where
  "core_operator os_windows can_enter executable_path E mode cwd =
     map_option (\<lambda>dir. core_main (E dir)) (enter_directory os_windows can_enter executable_path mode cwd)"

text \<open>In the background it does not matter where the daemon was started from, in the foreground only that does.\<close>

lemma core_operator_directory:
  "core_operator True can_enter exe E (launch_mode False) cwd = (if can_enter exe then Some (core_main (E exe)) else None)"
  "core_operator os can_enter exe E (launch_mode True) cwd = Some (core_main (E cwd))"
  by (simp_all add: core_operator_def enter_directory_def launch_mode_def)

end
