(* ===== verification/Setup_Properties.thy ===== *)
theory Setup_Properties
  imports Program
begin

text \<open>
  The properties of the Windows service setup: handles, what a reported success means, the registry
  keys it leaves, and the search for an installed service. Environments are arbitrary; the witnesses
  use one that grants every call.
\<close>

subsection \<open>An environment that grants every call\<close>

definition windows_filename :: "string \<Rightarrow> string" where
  "windows_filename p = rev (takeWhile (\<lambda>c. c \<noteq> backslash) (rev p))"

definition granting :: windows where
  "granting =
     \<lparr>exists_path = (\<lambda>_. Some True), filename_of = windows_filename,
      branch_path_of = (\<lambda>p. take (length p - length (windows_filename p) - 1) p),
      open_sc_manager = (\<lambda>l _. Some (length l)),
      enum_services = (\<lambda>_ _ _ _. \<lparr>enum_ok = True, bytes_needed = 0, names_returned = [], resume_at = 0\<rparr>),
      open_service = (\<lambda>l _ _. Some (length l)), create_service = (\<lambda>l _ _ _ _. Some (length l)),
      change_config = (\<lambda>_ _ _ _. True), reg_create = (\<lambda>l _. (0, Some (length l))),
      reg_set = (\<lambda>_ _ _ _. 0), reg_delete = (\<lambda>_ _. 0),
      last_error = (\<lambda>l. if l \<noteq> [] \<and> scm_failed (last l) then 5 else 0), status_size = 36\<rparr>"


abbreviation daemon_exe :: string where
  "daemon_exe \<equiv> ''C:'' @ [backslash] @ ''d'' @ [backslash] @ ''eiptnd.exe''"

subsection \<open>Handles\<close>

lemma outcome_return [simp]: "outcome (State_Monad.return r) l = (r, [])"
  by (simp add: outcome_def)

lemma releases:
  assumes "owes {#} m l" and "run_state m l = (r, l')" and "r \<noteq> Description_too_long"
    and "l' = l @ cs" and "sum_list (map refused cs) = {#}"
  shows "sum_list (map acquired cs) = sum_list (map released cs)"
  using assms by (auto simp: owes_def)

lemma install_self_releases:
  "\<exists>r cs. run_state (install_self W path options) l = (r, l @ cs) \<and>
    sum_list (map acquired cs) = sum_list (map released cs)"
proof -
  let ?S = "install_windows_service (setup_arg ''daemonname'') (setup_arg ''Daemon Name'')
         (setup_arg ''Daemon Name is server software'') (setup_arg path)
         (setup_arg []) (setup_arg []) (setup_arg options)"
  have S: "service_user ?S = []" "length (c_str (service_description ?S)) < 2048"
    by (simp_all add: install_windows_service_def setup_arg_def)
  obtain r l' where run: "run_state (install_service W ?S 0) l = (r, l')" by (cases "run_state (install_service W ?S 0) l")
  from install_without_user [OF S run] obtain cs where "r \<noteq> Description_too_long" "l' = l @ cs"
    "sum_list (map refused cs) = {#}" by blast
  with releases [OF owes_install run] run show ?thesis by (auto simp: install_self_def)
qed

lemma uninstall_self_releases:
  "\<exists>r cs. run_state (uninstall_self W path) l = (r, l @ cs) \<and>
    sum_list (map acquired cs) = sum_list (map released cs)"
proof -
  obtain r l' where run: "run_state (uninstall_service W ''daemonname'' path 0) l = (r, l')"
    by (cases "run_state (uninstall_service W ''daemonname'' path 0) l")
  from uninstall_plain [OF run] obtain cs where "r \<noteq> Description_too_long" "l' = l @ cs"
    "sum_list (map refused cs) = {#}" by blast
  with releases [OF owes_uninstall run] run show ?thesis
    by (auto simp: uninstall_self_def uninstall_windows_service_def setup_arg_def)
qed

lemma service_or_daemon_releases:
  "\<exists>r cs. run_state (service_or_daemon W path vm launch) l = (r, l @ cs) \<and>
    sum_list (map acquired cs) = sum_list (map released cs)"
proof -
  obtain r cs where i: "run_state (install_self W path options) l = (r, l @ cs)"
    "sum_list (map acquired cs) = sum_list (map released cs)" if "vm ''install'' = Some (Text options)" for options
    using install_self_releases by (cases "\<exists>options. vm ''install'' = Some (Text options)") (auto, metis)
  obtain r' cs' where u: "run_state (uninstall_self W path) l = (r', l @ cs')"
    "sum_list (map acquired cs') = sum_list (map released cs')"
    using uninstall_self_releases by metis
  show ?thesis
  proof (cases "\<exists>options. vm ''install'' = Some (Text options)")
    case True
    with i show ?thesis by (auto simp: service_or_daemon_def)
  next
    case False
    then have "service_or_daemon W path vm launch =
      (if vm_count vm ''uninstall'' then State_Monad.bind (uninstall_self W path)
         (\<lambda>r. State_Monad.return (setup_exit Uninstall_failed ''Service is uninstalled'' r))
       else (let (out, status) = launch_daemon launch (vm_count vm ''foreground'') in
         State_Monad.return (map Console out, Exit status)))"
      by (auto simp: service_or_daemon_def split: option.split option_value.split)
    with u show ?thesis by (simp add: Let_def split: prod.split)
  qed
qed

text \<open>
  C19. Whatever the Windows API answers, the program closes every handle it was given, exactly once:
  each service manager, service and registry key it opened, on every path, errors included. Only an
  installation that is told an account (which the program never does) and has it refused keeps its
  service handle.
\<close>

theorem setup_handles_released:
  "(case outcome (windows_main W compiler path vm launch) l of (_, cs) \<Rightarrow>
      sum_list (map acquired cs) = sum_list (map released cs)) \<and>
   (case outcome (install_service W S ec) l of (r, cs) \<Rightarrow>
      r = Description_too_long \<or>
      sum_list (map acquired cs) = sum_list (map released cs) + sum_list (map refused cs)) \<and>
   (case outcome (is_installed W nm ec) l of (_, cs) \<Rightarrow>
      sum_list (map acquired cs) = sum_list (map released cs))"
proof (intro conjI)
  have "\<exists>r cs. run_state (windows_main W compiler path vm launch) l = (r, l @ cs) \<and>
      sum_list (map acquired cs) = sum_list (map released cs)"
  proof (cases vm)
    case None
    then show ?thesis by (simp add: windows_main_def)
  next
    case (Some vm')
    obtain r cs where "run_state (service_or_daemon W path vm' launch) l = (r, l @ cs)"
      "sum_list (map acquired cs) = sum_list (map released cs)"
      using service_or_daemon_releases by metis
    with Some show ?thesis by (simp add: windows_main_def Let_def split: prod.split)
  qed
  then show "case outcome (windows_main W compiler path vm launch) l of (_, cs) \<Rightarrow>
      sum_list (map acquired cs) = sum_list (map released cs)"
    by (auto simp: outcome_def)
next
  show "case outcome (install_service W S ec) l of (r, cs) \<Rightarrow>
      r = Description_too_long \<or>
      sum_list (map acquired cs) = sum_list (map released cs) + sum_list (map refused cs)"
    by (auto split: prod.split dest: owes_outcome [OF owes_install])
next
  show "case outcome (is_installed W nm ec) l of (_, cs) \<Rightarrow>
      sum_list (map acquired cs) = sum_list (map released cs)"
    by (auto simp: outcome_def is_installed_def scm_open_def enum_query_def split: prod.split)
qed

subsection \<open>What a reported success means\<close>





text \<open>
  Whatever Windows answers, removing the service never deletes the key its installation created:
  the key is created under the file name and deleted under the full path.
\<close>

theorem uninstall_leaves_key:
  assumes "CHR 0x00 \<notin> set path" and "CHR 0x00 \<notin> set (filename_of W path)" and "filename_of W path \<noteq> path"
    and "outcome (install_self W path options) l = (r, cs)" and "outcome (uninstall_self W' path) l' = (r', cs')"
  shows "\<Union> (created_keys ` set cs) \<inter> \<Union> (deleted_keys ` set cs') = {}"
proof -
  have "\<Union> (created_keys ` set cs) \<subseteq> {app_paths @ filename_of W path}"
    using install_calls [OF assms(4) [unfolded install_self_def]] assms(2)
    by (simp add: install_windows_service_def setup_arg_def app_paths_def)
  moreover have "\<Union> (deleted_keys ` set cs') \<subseteq> {app_paths @ path}"
    using uninstall_calls [of W' "''daemonname''" path 0 l' r' cs'] assms(1,5)
    by (simp add: uninstall_self_def uninstall_windows_service_def setup_arg_def app_paths_def)
  ultimately show ?thesis using assms(3) by auto
qed

theorem uninstall_leaves_key_witness:
  "(let cs = snd (outcome (install_self granting daemon_exe []) []);
        cs' = snd (outcome (uninstall_self granting daemon_exe) []) in
    \<Union> (created_keys ` set cs) \<inter> \<Union> (deleted_keys ` set cs') = {})"
  using uninstall_leaves_key [of daemon_exe granting "[]" "[]" "fst (outcome (install_self granting daemon_exe []) [])"
      "snd (outcome (install_self granting daemon_exe []) [])" granting
      "[]" "fst (outcome (uninstall_self granting daemon_exe) [])" "snd (outcome (uninstall_self granting daemon_exe) [])"]
  by (simp add: granting_def windows_filename_def Let_def)

text \<open>
  A registry that refuses the key (and, as documented for these functions, returns its error without
  setting the last error) goes unnoticed: the program prints that the service is installed, ends with
  exit code 0, and has written no entry.
\<close>

theorem registry_failure_unreported:
  assumes "exists_path W path = Some True" and "\<And>l a. open_sc_manager W l a \<noteq> None"
    and "\<And>l s n d c. create_service W l s n d c \<noteq> None"
    and "\<And>l k. fst (reg_create W l k) \<noteq> 0" and "\<And>l. l \<noteq> [] \<Longrightarrow> \<not> scm_failed (last l) \<Longrightarrow> last_error W l = 0"
    and "vm ''install'' = Some (Text options)" and "vm ''version'' = None" and "vm ''help'' = None"
  shows "\<exists>cs. outcome (windows_main W compiler path (Some vm) launch) [] =
      (([Console (Line (daemon_info compiler)), Console (Line ''Service is installed''), Console (Line ''Bye!'')], Exit 0), cs) \<and>
    (\<forall>c \<in> set cs. \<forall>h v e err. c \<noteq> Reg_set_value h v e err)"
proof -
  let ?S = "\<lparr>service_name = ''daemonname'', service_display_name = ''Daemon Name'',
    service_description = ''Daemon Name is server software'', service_path_name = path,
    service_user = [], service_password = [], service_option_string = options\<rparr>"
  have self: "install_self W path options = install_service W ?S 0"
    by (simp add: install_self_def install_windows_service_def setup_arg_def)
  let ?cmd = "c_str (service_command ?S)" and ?key = "c_str (app_paths @ filename_of W path)"
  let ?open = "Open_SC_manager SC_MANAGER_CREATE_SERVICE"
  obtain m where m: "open_sc_manager W [] SC_MANAGER_CREATE_SERVICE = Some m" using assms(2) by blast
  obtain n where n: "create_service W [?open (Some m)] (Some m) ''daemonname'' ''Daemon Name'' ?cmd = Some n"
    using assms(3) by blast
  let ?l = "[?open (Some m), Create_service (Some m) ''daemonname'' ''Daemon Name'' ?cmd (Some n),
    Change_service_config2 (Some n) ''Daemon Name is server software'', Close_service_handle (Some n)]"
  obtain err h where reg: "reg_create W ?l ?key = (err, h)" "err \<noteq> 0"
    using assms(4) [of ?l ?key] by (cases "reg_create W ?l ?key") auto
  let ?cs = "?l @ Reg_create_key ?key err h # (if h = None then [] else [Reg_close_key h]) @ [Close_service_handle (Some m)]"
  have "run_state (install_self W path options) [] = (Reported 0, ?cs)"
    using m n reg
    by (cases h) (simp_all add: self install_service_def if_exists_def with_scm_def scm_open_def describe_and_register_def
        register_application_def key_failed_def close_key_def assms(1,5) Let_def)
  then have "outcome (windows_main W compiler path (Some vm) launch) [] =
      (([Console (Line (daemon_info compiler)), Console (Line ''Service is installed''), Console (Line ''Bye!'')], Exit 0), ?cs)"
    using assms(6-) by (simp add: outcome_def windows_main_def service_or_daemon_def vm_count_def setup_exit_def)
  then show ?thesis by (intro exI [of _ ?cs]) auto
qed

theorem registry_failure_unreported_witness:
  "\<exists>cs. outcome (windows_main (granting\<lparr>reg_create := \<lambda>_ _. (5, None)\<rparr>) ''gcc'' daemon_exe
      (Some (store_options (allowed_options True 4) [''install'' \<mapsto> Text []])) (\<lambda>_. (0, False))) [] =
    (([Console (Line (daemon_info ''gcc'')), Console (Line ''Service is installed''), Console (Line ''Bye!'')], Exit 0), cs) \<and>
    (\<forall>c \<in> set cs. \<forall>h v e err. c \<noteq> Reg_set_value h v e err)"
  by (rule registry_failure_unreported [where options = "[]"])
    (simp_all add: granting_def store_options_def allowed_options_def general_options_def network_options_def
      service_options_def option_spec_def)

subsection \<open>Looking a service up\<close>

text \<open>
  What Windows documents of \<open>EnumServicesStatus\<close> for the services \<open>names\<close>: it returns those from the
  resume index on that fit; when some do not, it fails with \<open>ERROR_MORE_DATA\<close>, the index of the next one
  and the bytes the remaining ones need, and a buffer of that size holds them.
\<close>

definition lists_services :: "windows \<Rightarrow> string list \<Rightarrow> bool" where
  "lists_services W names \<longleftrightarrow>
     (\<forall>l h sz r. let e = enum_services W l h sz r; k = length (names_returned e) in
       names_returned e = take k (drop (unat r) names) \<and>
       (enum_ok e \<longleftrightarrow> unat r + k \<ge> length names) \<and>
       (\<not> enum_ok e \<longrightarrow>
         last_error W (l @ [Enum_services_status h sz r e]) = ERROR_MORE_DATA \<and>
         unat (resume_at e) = unat r + k \<and>
         (\<forall>l' sz'. bytes_needed e \<le> sz' \<longrightarrow> enum_ok (enum_services W l' h sz' (resume_at e)))))"

text \<open>
  A look-up tells whether the service is among those Windows lists, when there is one and the
  first query, whose buffer has room for no name, returns none.
\<close>

theorem service_found:
  assumes "lists_services W names" and "names \<noteq> []" and "\<And>l a. open_sc_manager W l a \<noteq> None"
    and "\<And>l h. names_returned (enum_services W l h (status_size W) 0) = []"
    and "\<And>l h. bytes_needed (enum_services W l h (status_size W) 0) \<le>
      status_size W + bytes_needed (enum_services W l h (status_size W) 0)"
  shows "fst (outcome (check_windows_service W nm 0) l) = (setup_get nm \<in> set names, 0)"
proof -
  obtain m where m: "open_sc_manager W l SC_MANAGER_ENUMERATE_SERVICE = Some m" using assms(3) by blast
  let ?l = "l @ [Open_SC_manager SC_MANAGER_ENUMERATE_SERVICE (Some m)]"
  let ?e = "enum_services W ?l (Some m) (status_size W) 0"
  note law = assms(1) [unfolded lists_services_def Let_def, rule_format]
  have none: "names_returned ?e = []" by (rule assms(4))
  have e: "\<not> enum_ok ?e" using law [of ?l "Some m" "status_size W" 0] none assms(2) by simp
  with law [of ?l "Some m" "status_size W" 0] none have
    more: "last_error W (?l @ [Enum_services_status (Some m) (status_size W) 0 ?e]) = ERROR_MORE_DATA"
      "resume_at ?e = 0"
    by (simp_all add: unsigned_eq_0_iff)
  have fits: "\<And>l' sz'. bytes_needed ?e \<le> sz' \<Longrightarrow> enum_ok (enum_services W l' (Some m) sz' (resume_at ?e))"
    using law [of ?l "Some m" "status_size W" 0] e by blast
  let ?l' = "?l @ [Enum_services_status (Some m) (status_size W) 0 ?e]"
  let ?e' = "enum_services W ?l' (Some m) (status_size W + bytes_needed ?e) 0"
  have "enum_ok ?e'" using fits [OF assms(5)] more(2) by metis
  with law [of ?l' "Some m" "status_size W + bytes_needed ?e" 0] have "names_returned ?e' = names" by simp
  with m e more show ?thesis
    by (simp add: outcome_def check_windows_service_def is_installed_def scm_open_def enum_query_def)
qed

text \<open>Two services, the last error being that of the refused query.\<close>

definition two_services :: windows where
  "two_services = granting\<lparr>
     enum_services := (\<lambda>_ _ sz r.
       let names = drop (unat r) [''spooler'', ''daemonname''] in
       if names = [] \<or> sz \<ge> 100 then \<lparr>enum_ok = True, bytes_needed = 0, names_returned = names, resume_at = 0\<rparr>
       else \<lparr>enum_ok = False, bytes_needed = 100, names_returned = [], resume_at = r\<rparr>),
     last_error := (\<lambda>l. case last l of Enum_services_status _ _ _ e \<Rightarrow> if enum_ok e then 0 else 234 | _ \<Rightarrow> 0)\<rparr>"

theorem service_found_witness:
  "fst (outcome (check_windows_service two_services (setup_arg ''daemonname'') 0) []) = (True, 0)"
proof -
  have "lists_services two_services [''spooler'', ''daemonname'']"
    unfolding lists_services_def two_services_def Let_def by (auto simp: granting_def)
  from service_found [OF this, of "setup_arg ''daemonname''" "[]"] show ?thesis
    by (simp add: two_services_def granting_def setup_arg_def)
qed

end
