(* ===== verification/Spec2Isabelle.thy ===== *)
theory Spec2Isabelle
  imports Wialon_Properties Redis_Properties Daemon_Properties System Transport_Properties
    Acknowledgement Setup_Properties Distribution Service_Properties
begin

text \<open>
  Kojoley/eiptnd is a daemon that receives telemetry of trackers over TCP and hands it on. A translator
  plugin parses the protocol of a port into data trees; the core looks up the dispatchers that the
  settings declare for the port and the translator and posts the tree to each; a dispatcher plugin
  stores or publishes it and reports success or failure through a callback, which a combiner
  joins into one answer when there are several dispatchers. This development models that path and the way
  back of the answers, the settings that configure it, the start of the daemon and, on Windows, its
  installation as a service.

  \<^bold>\<open>Conventions.\<close> A class is a record, a member function a definition that takes the state and returns
  the new one; an exception, a failed assertion or undefined behaviour is an \<open>Inl\<close> value of the
  component's fault type (theory Prelude: \<open>and_then\<close>, \<open>fold_res\<close>). Numbers of fixed width are words
  where they can wrap (\<open>multicommand_\<close>, \<open>left\<close>, ports, timeouts, durations) and natural numbers where they
  are bounded by a table or a buffer. An asynchronous operation that was started is recorded (as a
  call through \<open>api_\<close>, or in the list of pending operations), and its completion is an event that may
  come at any later time, in any order. Each handler runs as one step (Wialon_Blackbox takes the handler of a
  read apart into its tokens, where callbacks of other threads can come between). Shared objects that outlive a
  call, the data trees, live in a store and are passed by reference. Third-party code (Boost, the
  dynamic loader, the file system) is a parameter, with its documented behaviour as named hypotheses
  or locale assumptions where a property needs it.

  \<^bold>\<open>The parts.\<close>
  \<^item> Prelude: fallible computations, \<open>getline\<close>, decimal printing, and the locales \<open>machine\<close> and
    \<open>guarded_machine\<close> (a step keeps an invariant; it raises only allowed faults) that carry the
    invariant proofs of every component.
  \<^item> Ptree, Dptree_Json: include/dptree.hpp, include/empty_ptree.hpp, include/dptree_json.hpp. Trees with
    ordered, repeatable keys; \<open>put\<close> and \<open>get\<close> as the locale \<open>tree_store\<close>; the JSON writer, and a strict JSON
    reader, written from the grammar, with its escapes, literals and numbers, to state what the text means.
  \<^item> Logging: include/log.hpp, severities and their text.
  \<^item> Wialon, Wialon_Env, Wialon_Inv, Wialon_Run, Wialon_Messages, Wialon_Blackbox, Wialon_Protocol: the translator
    plugins/translator_wialon. Wialon holds the definitions, in the order of the code: the tables, \<open>answer\<close>,
    \<open>commit_command\<close>, \<open>consume_token\<close>, \<open>handle_read\<close> and the callbacks. Wialon_Env has the tokenizer's
    laws (locale \<open>tokenizer\<close>: no token of an empty string, otherwise the pieces between the separators) and a
    sample environment; Wialon_Inv the invariants of the parser inside
    and between messages (locale \<open>wialon_world\<close>); Wialon_Run what a run keeps and which faults it can
    have; Wialon_Messages and Wialon_Blackbox what each kind of message does; Wialon_Protocol the protocol as
    a function of the tokens of a line, without parser states.
  \<^item> Plugin_Api, Translator_Manager, Request_Router, Routes, Plugin_Factory: include/plugin and
    src/translator_manager, src/request_router, src/plugin_factory. The locale \<open>registry\<close> is what the two
    managers share; Routes relates the routing table to the routes that the settings declare.
  \<^item> Connection, Core, Startup: src/connection, src/tcp_server, src/core, src/main. Whether an
    address can be bound is a parameter that is given the addresses bound before. Startup states the
    conditions under which the daemon serves, over its settings and what the system binds.
  \<^item> Transport: the operations \<open>do_read_*\<close> and \<open>do_write\<close> of src/connection start, with their completions: the
    translator, the operations in flight and the bytes on the wire as one machine.
  \<^item> Program, Windows_Setup: the option table of src/main and the branch of the Windows build, and
    include/windows/setup/service_setup with include/initializers. A call of the Windows API is an event of a
    log (\<open>win_call\<close>), its answer that of an environment (\<open>windows\<close>); the operations are in the state monad.
  \<^item> Distribution: what the four plugins say of themselves, and doc/config.cfg.example as a settings tree.
  \<^item> System: a connection with the Wialon translator behind it and its routes in front of it.
  \<^item> Redis, Redis_Inv, Redis_Replies, Redis_Resp, Redis_Wire: plugins/dispatcher_redis/redis_connection, the
    client with its two request queues and the lock that says an operation is in flight; Redis_Inv has the
    invariant, Redis_Replies the loop over the replies, Redis_Resp a reader of the Redis protocol, Redis_Wire
    the client beside the requests it accepted and the bytes the server got.
  \<^item> Dispatchers: plugins/dispatcher_redis/dispatcher_redis and example/dispatcher_logger, both
    interpretations of the locale \<open>dispatcher_contract\<close> (no callback gets lost or doubled).
  \<^item> Plugins: an instance of either dispatcher plugin, as an interpretation of the locale
    \<open>answering_dispatcher\<close>, which refines \<open>dispatcher_contract\<close>: answers are only added, to callbacks that waited.
  \<^item> Service, Service_Core, Service_Inv: the running daemon (\<open>core::run\<close>): connections with their translators, the queue
    of the \<open>io_service\<close>, the combiners and the dispatchers as one machine with events in any order
    (\<open>service_step\<close>, \<open>service_reachable\<close>). A record is named by its session and the number of the call that
    stored it. Service_Core has the parts of the invariant and the small steps that keep it, on the lists of
    routes, combiners, tasks, dispatchers and answers; Service_Inv lifts them to the operations, with faults;
    Acknowledgement follows one record through this machine and its answer back, turn by turn.
  \<^item> Relative_Timer: include/relative_timer.hpp, 64-bit durations and deadlines.
  \<^item> Echo: example/translator_echo.

  \<^bold>\<open>What is shown.\<close> Wialon_Properties: the parser's safety (no data without a login, its only faults, the
  bounds of the answer buffer, trees that are never written again once handed over), that it does for every
  line what the protocol says, and what each message does. Transport_Properties: answers reach the client whole
  and in order while each is written before the next, a session reads on as long as its client sends line by line
  and without stray line feeds, and what breaks either.
  Redis_Properties: requests are encoded so that a reader of the protocol gets them back, the server
  finds in its bytes the requests that were made, in order,
  at most one operation is in flight, every callback is called exactly once or still owed, replies
  confirm in order, and what goes wrong when replies are cut in two or a write fails half way. Routing_Properties: the combiner
  and the fan-out answer exactly once, routes are those declared, ports and plugins are where the
  settings put them. Daemon_Properties: the start, the listeners, the accept loop, log settings,
  severities, the echo plugin, JSON, the logging dispatcher, timers. Setup_Properties: the handles
  of the Windows API are released on every path, what a reported success means (everything registered, or a call
  of the registry refused that left the last error at zero), and what it leaves behind.
  Service_Properties: in the running daemon an answer tells the truth about every declared dispatcher, each record
  is answered exactly once or under way, tasks bring records to their dispatchers, sessions that ended are
  left alone, and the parts raise no fault that none of them raises on its own.
  This theory: a record from the socket to the dispatchers, the same on the running daemon with the answer of redis
  on its way back to the client, the
  configuration that comes with the repository, and a message that stops the daemon.

  \<^bold>\<open>Termination and fuel.\<close> Every loop of the program is a total function here: \<open>read_message\<close> by the
  unread bytes, the tokens and the settings by their lists, the writers by the tree, \<open>reply_loop\<close> by the
  requests that wait. Only the JSON reader, which is no code of the program, has fuel; the length of
  the text is enough, as \<open>json_roundtrip\<close> shows.

  \<^bold>\<open>Not modelled.\<close> Parsing the command line (Boost.Program_options: \<open>store_options\<close> starts from what was
  given), launching in the background (Boost.Application: \<open>launch\<close> is a parameter), the logger types of
  include/log.hpp and other macros and forward declarations; destructors of plugins and connections, which log; the wide string
  variants of the service setup, which differ in the type of characters only; log output, except where a log
  message itself can fail (Echo). Data races inside a handler are outside, except for the
  counter of confirmations (Wialon_Blackbox): a handler is one step, and the answers a dispatcher gives in the
  course of one are delivered at its end, since they cannot influence it. Sessions of other translators than
  Wialon never store records, so the running daemon leaves them out. Cancelling an operation is an
  over-approximation: its completion may still come with any error code, success included.
\<close>

subsection \<open>A tracker, the daemon and its dispatchers\<close>

text \<open>
  C1. From the socket to the dispatchers: on any port the settings map, a client that logs in with any
  id and password and sends a data, short data or text message with all its fields has one tree
  handed to exactly the dispatchers that the settings declare for the port and the translator, in
  their order, and the tree holds every field under the name the protocol gives it.
\<close>

theorem telemetry_reaches_dispatchers:
  assumes "pf_load_settings C F cfg pf_init = Inr pf" and "on_connection pf port peer = Inr s"
    and "declared_dispatchers C F cfg (port, info_puid (handler s)) = ts"
    and "wialon_world E" and "field_text login" and "field_text pass"
    and "map_of estimates k = Some (n, c)" and "c \<in> {COMMAND_DATA, COMMAND_SHORTDATA, COMMAND_MESSAGE}"
    and "length ws = n" and "\<forall>f \<in> set ws. field_text f" and "0 < m1" and "0 < m2"
  shows "\<exists>w r io'.
    session_run s E
      [Socket_read Success m1 (message ''L'' (join_fields [login, pass]) @ crlf),
       Socket_read Success m2 (message k (join_fields ws) @ crlf)] (wialon_init buf est multi err cmd0) = Inr w \<and>
    r < length (trees w) \<and>
    (\<forall>i < n. tree_get E (trees w ! r) (documented_fields c ! i) = Some (ws ! i)) \<and>
    fold_res (serve_call s cb) (api_calls w) io = Inr io' \<and>
    posted io' = posted io @
      (if ts = [] then [Callback_false cb]
       else map (\<lambda>d. Handle_data d (Some r)
              (if length ts = 1 then Direct cb else Combined (length (combiners io)))) ts)"
proof -
  obtain w1 where w1: "session_run s E [Socket_read Success m1 (message ''L'' (join_fields [login, pass]) @ crlf)]
        (wialon_init buf est multi err cmd0) = Inr w1"
      "idle_inv w1" "authenticated w1" "sbuf w1 = []"
      "api_calls w1 = [Do_read_until crlf, Authenticate login pass, Do_write (''#AL#1'' @ crlf), Do_read_until crlf]"
    using session_login [OF assms(4-6,11), of s buf est multi err cmd0] by blast
  obtain w where w: "socket_step s E (Socket_read Success m2 (message k (join_fields ws) @ crlf)) w1 = Inr w"
      "trees w = trees w1 @ [record_tree E c ws]"
      "api_calls w = api_calls w1 @ [Process_data (Some (length (trees w1))), Do_read_until crlf]"
    using session_message [OF assms(4) w1(2-4) assms(7-10,12), of s] by blast
  obtain io' where io': "session_process_data s (Some (length (trees w1))) cb io = Inr io'"
      "posted io' = posted io @ (if ts = [] then [Callback_false cb]
        else map (\<lambda>d. Handle_data d (Some (length (trees w1)))
               (if length ts = 1 then Direct cb else Combined (length (combiners io)))) ts)"
    using session_data_posted [OF assms(1-3), of "Some (length (trees w1))" cb io] by blast
  have "tree_get E (record_tree E c ws) (documented_fields c ! i) = Some (ws ! i)" if "i < n" for i
    using wialon_world.record_tree_get [OF assms(4,7), of ws i] that assms(9)
      protocol_fields_documented [OF table_command_not_count [OF assms(7)]] by simp
  with w1(1,5) w io' show ?thesis
    by (intro exI [of _ w] exI [of _ "length (trees w1)"] exI [of _ io'])
      (auto simp: serve_call_def and_then_Inr)
qed

lemma sample_connection:
  "\<exists>pf s. pf_load_settings sample_config_env sample_fs sample_plugins pf_init = Inr pf \<and>
    on_connection pf 9999 (Some ''peer'') = Inr s \<and> info_puid (handler s) = ''wialon''"
proof -
  obtain pf where pf: "pf_load_settings sample_config_env sample_fs sample_plugins pf_init = Inr pf"
    using sample_loads by (blast dest: returned)
  have inv: "pf_inv pf" by (rule pf_load_settings_inv [OF pf_init_inv pf])
  have "list_port 9999 (translators (projr (pf_load_settings sample_config_env sample_fs sample_plugins pf_init))) =
      [(9999, ''wialon'')]" by code_simp
  with pf have mapped: "list_port 9999 (translators pf) = [(9999, ''wialon'')]" by simp
  with on_connection_mapped [OF inv, of 9999 "''peer''"] obtain s where s: "on_connection pf 9999 (Some ''peer'') = Inr s"
    by auto
  with on_connection_parts(1) [OF inv s] mapped pf show ?thesis by (auto simp: port_translator_last)
qed

lemma telemetry_reaches_dispatchers_witness:
  "\<exists>pf s w io'. pf_load_settings sample_config_env sample_fs sample_plugins pf_init = Inr pf \<and>
    on_connection pf 9999 (Some ''peer'') = Inr s \<and>
    session_run s accept_all
      [Socket_read Success 11 (message ''L'' (join_fields [''353'', ''pw'']) @ crlf),
       Socket_read Success 10 (message ''M'' (join_fields [''hello'']) @ crlf)] sample_plugin = Inr w \<and>
    fold_res (serve_call s (7::nat)) (api_calls w) \<lparr>posted = [], combiners = []\<rparr> = Inr io' \<and>
    length (posted io') = 1"
proof -
  obtain pf s where pf: "pf_load_settings sample_config_env sample_fs sample_plugins pf_init = Inr pf"
      "on_connection pf 9999 (Some ''peer'') = Inr s" "info_puid (handler s) = ''wialon''"
    using sample_connection by blast
  let ?ts = "declared_dispatchers sample_config_env sample_fs sample_plugins (9999, info_puid (handler s))"
  have "length (declared_dispatchers sample_config_env sample_fs sample_plugins (9999, ''wialon'')) = 1" by code_simp
  then have one: "length ?ts = 1" by (simp add: pf(3))
  have "\<exists>w r io'.
    session_run s accept_all
      [Socket_read Success 11 (message ''L'' (join_fields [''353'', ''pw'']) @ crlf),
       Socket_read Success 10 (message ''M'' (join_fields [''hello'']) @ crlf)]
      (wialon_init (replicate 32 (CHR ''x'')) 0 0 False COMMAND_COUNT) = Inr w \<and>
    r < length (trees w) \<and>
    (\<forall>i < 1. tree_get accept_all (trees w ! r) (documented_fields COMMAND_MESSAGE ! i) = Some ([''hello''] ! i)) \<and>
    fold_res (serve_call s (7::nat)) (api_calls w) \<lparr>posted = [], combiners = []\<rparr> = Inr io' \<and>
    posted io' = posted \<lparr>posted = [], combiners = []\<rparr> @
      (if ?ts = [] then [Callback_false 7]
       else map (\<lambda>d. Handle_data d (Some r)
              (if length ?ts = 1 then Direct 7
               else Combined (length (combiners (\<lparr>posted = [], combiners = []\<rparr> :: (nat option, nat) router_io))))) ?ts)"
    by (rule telemetry_reaches_dispatchers [OF pf(1,2) refl sample.wialon_world_axioms])
      (simp_all add: estimates_def field_text_def sep_free_def)
  then obtain w r io' where
      "session_run s accept_all
        [Socket_read Success 11 (message ''L'' (join_fields [''353'', ''pw'']) @ crlf),
         Socket_read Success 10 (message ''M'' (join_fields [''hello'']) @ crlf)] sample_plugin = Inr w"
      "fold_res (serve_call s (7::nat)) (api_calls w) \<lparr>posted = [], combiners = []\<rparr> = Inr io'"
      "posted io' = map (\<lambda>d. Handle_data d (Some r) (Direct 7)) ?ts"
    unfolding sample_plugin_def by (auto simp: one dest: arg_cong [where f = length] split: if_splits)
  with pf one show ?thesis by (metis length_map)
qed

text \<open>
  C9. From the socket to redis and back, on the one machine of the daemon, in any state it reaches: a session
  that has logged in, waits for a line with nothing unread and has nothing to send gets a complete data, short
  data or text message, and the settings declare one dispatcher for it, a redis dispatcher that is connected and
  idle. The message becomes one tree and one task; the task has the dispatcher send the server one \<open>PUBLISH\<close> of
  the tree's JSON (below 4 GB), and nobody is told anything yet. Then what comes back from the server, a reply
  line or a failed read, is the answer: the dispatcher gives it to this record's callback and no other, the translator is
  told it once, and it leaves through the record's own connection, byte for byte: \<open>#A\<close>, the command, and \<open>#1\<close>
  when redis replied, or the command's code of failure when the read failed. The session
  reads on, with no write left in flight.
\<close>

theorem record_acknowledged:
  assumes "pf_load_settings C F cfg pf_init = Inr pf" and "service_plugins (json V) (dispatcher_sections cfg) = Some ps"
    and "wialon_world (parse_env V)" and "service_reachable V pf ps D"
    and "at (conns D) i = Some (s, w, io)" and "authenticated w" and "sbuf w = []" and "reads io = [Read_until crlf]"
    and "writes io = []"
    and "declared_dispatchers C F cfg (session_port s, info_puid (handler s)) = [d]"
    and "at (plugs D) (disp_id d) = Some (Redis_plugin r)" and "client_idle (rcon r)"
    and "map_of estimates k = Some (n, c)" and "c \<in> {COMMAND_DATA, COMMAND_SHORTDATA, COMMAND_MESSAGE}"
    and "length ws = n" and "\<forall>f \<in> set ws. field_text f"
    and "prints_uint (print_uint V)" and "verdict ev ok"
    and "length (write_json (json V) (record_tree (parse_env V) c ws) (pretty_json r)) < 2 ^ 32"
  defines "m \<equiv> message k (join_fields ws)" and "doc \<equiv> record_tree (parse_env V) c ws"
    and "rid \<equiv> (i, length (api_calls w))"
    and "reply \<equiv> ''#A'' @ k @ ''#'' @ (if ok then ''1'' else if c = COMMAND_MESSAGE then ''0'' else ''-1'') @ crlf"
  shows "\<exists>D1 r1 D2 r2 w' io'.
    fold_res (service_step V pf) [Connection i (Read_completed Success (length m + 2) (m @ crlf)),
      Run_task (length (posted (jobs D)))] D = Inr D1 \<and> told D1 = told D \<and>
    at (plugs D1) (disp_id d) = Some (Redis_plugin r1) \<and> Writing \<in> set (pending (rcon r1)) \<and>
    resp_command (data (out_tmp_buf (rcon r1))) = Some ([''PUBLISH'', ''foo'', write_json (json V) doc (pretty_json r)], []) \<and>
    fold_res (service_step V pf) [Plugin (disp_id d) (Redis_event (Written Success (length (data (out_tmp_buf (rcon r1)))))),
      Plugin (disp_id d) (Redis_event ev), Connection i (Part_sent 0 (length reply)),
      Connection i (Write_completed 0 Success)] D1 = Inr D2 \<and> told D2 = told D @ [(rid, ok)] \<and>
    at (plugs D2) (disp_id d) = Some (Redis_plugin r2) \<and> answers (rcon r2) = answers (rcon r) @ [(Direct rid, ok)] \<and>
    at (conns D2) i = Some (s, w', io') \<and> trees w' = trees w @ [doc] \<and> sent io' = sent io @ reply \<and>
    reads io' = [Read_until crlf] \<and> writes io' = [] \<and> posted (jobs D2) = posted (jobs D)"
proof -
  note inv = loaded_reachable_inv [OF assms(1-4)]
  have c: "i < length (conns D)" "conns D ! i = (s, w, io)" using assms(5) by (simp_all add: at_Some)
  then have "i < length (routes_of D)" "routes_of D ! i = session_targets s" by (simp_all add: routes_of_def)
  with routes_of_at [OF inv assms(1) this(1)] assms(5,10) have d: "session_targets s = [d]" by auto
  have idle: "idle_inv w"
    using daemon_inv_parts(2) [OF inv] nth_mem [OF c(1)] unfolding c(2) by (auto simp: sessions_ok_def parser_rests_def)
  have reply: "reply = reply_text k (data_code c ok)" by (simp add: reply_def reply_text_def data_code_def)
  obtain D1 u r1 where D1: "fold_res (service_step V pf) [Connection i (Read_completed Success (length m + 2) (m @ crlf)),
      Run_task (length (posted (jobs D)))] D = Inr D1"
    and u: "at (conns D1) i = Some (s, u, io)" "trees u = trees w @ [doc]" "cmd u = k" "current_cmd u = c"
    and r1: "at (plugs D1) (disp_id d) = Some (Redis_plugin r1)" "answers (rcon r1) = answers (rcon r)"
      "client_awaits (publish_bytes (print_uint V) ''foo'' (write_json (json V) doc (pretty_json r))) (Direct rid) Writing (rcon r1)"
    and told: "told D1 = told D" "posted (jobs D1) = posted (jobs D)"
    using record_published [OF assms(5) d assms(11,12,3) idle assms(6-8,13-16) refl assms(17,19), of pf]
    unfolding m_def doc_def rid_def by blast
  note sent = r1(3) [unfolded client_awaits_def]
  from answer_returned [OF u(1) assms(13,14) u(3,4) assms(9) r1(1) r1(3) [unfolded rid_def] assms(18) reply, of V pf]
  obtain D2 v r2 where D2: "fold_res (service_step V pf)
      [Plugin (disp_id d) (Redis_event (Written Success (length (data (out_tmp_buf (rcon r1)))))),
       Plugin (disp_id d) (Redis_event ev), Connection i (Part_sent 0 (length reply)),
       Connection i (Write_completed 0 Success)] D1 = Inr D2"
    and v: "at (conns D2) i = Some (s, v, io\<lparr>sent := sent io @ reply\<rparr>)" "trees v = trees u"
      "told D2 = told D1 @ [(rid, ok)]" "at (plugs D2) (disp_id d) = Some (Redis_plugin r2)"
      "answers (rcon r2) = answers (rcon r1) @ [(Direct rid, ok)]" "posted (jobs D2) = posted (jobs D1)"
    using sent unfolding rid_def by auto
  have "resp_command (data (out_tmp_buf (rcon r1))) = Some ([''PUBLISH'', ''foo'', write_json (json V) doc (pretty_json r)], [])"
    using sent publish_bytes_resp [OF assms(17), of "''foo''" _ "[]"] assms(19) by (simp add: doc_def)
  with D1 D2 sent r1(1,2) told u(2) v assms(8,9) show ?thesis
    by (intro exI [of _ D1] exI [of _ r1] exI [of _ D2] exI [of _ r2] exI [of _ v] exI [of _ "io\<lparr>sent := sent io @ reply\<rparr>"])
      (simp del: fold_res.simps)
qed

text \<open>The daemon of the sample settings, with redis reached and a tracker logged in on the port 9999.\<close>

definition tracked_factory :: plugin_factory where
  "tracked_factory = projr (pf_load_settings sample_config_env sample_fs sample_plugins pf_init)"

definition tracked_dispatchers :: "record_callback plugin_instance list" where
  "tracked_dispatchers = the (service_plugins sample_json_env (dispatcher_sections sample_plugins))"

definition tracked_daemon :: service where
  "tracked_daemon = projr (fold_res (service_step sample_service_env tracked_factory)
     [Plugin 0 (Redis_event (Resolved ''localhost'' ''6379'' Success [sample_endpoint])),
      Plugin 0 (Redis_event (Connected [sample_endpoint] Success)),
      Accept 9999 (Some ''peer'') (replicate 32 (CHR ''x'')) 0 0 False COMMAND_COUNT,
      Connection 0 (Read_completed Success 11 (''#L#353;pw'' @ crlf)),
      Connection 0 (Part_sent 0 7), Connection 0 (Write_completed 0 Success)]
     (service_start tracked_dispatchers))"

lemma tracked_factory: "pf_load_settings sample_config_env sample_fs sample_plugins pf_init = Inr tracked_factory"
  using sample_loads by (auto simp: tracked_factory_def dest: returned)

lemma tracked_dispatchers:
  "service_plugins (json sample_service_env) (dispatcher_sections sample_plugins) = Some tracked_dispatchers"
proof -
  have "service_plugins sample_json_env (dispatcher_sections sample_plugins) \<noteq> (None :: record_callback plugin_instance list option)"
    by code_simp
  then show ?thesis by (auto simp: tracked_dispatchers_def sample_service_env_def)
qed

lemma tracked_reachable: "service_reachable sample_service_env tracked_factory tracked_dispatchers tracked_daemon"
proof -
  let ?run = "fold_res (service_step sample_service_env tracked_factory)
     [Plugin 0 (Redis_event (Resolved ''localhost'' ''6379'' Success [sample_endpoint])),
      Plugin 0 (Redis_event (Connected [sample_endpoint] Success)),
      Accept 9999 (Some ''peer'') (replicate 32 (CHR ''x'')) 0 0 False COMMAND_COUNT,
      Connection 0 (Read_completed Success 11 (''#L#353;pw'' @ crlf)),
      Connection 0 (Part_sent 0 7), Connection 0 (Write_completed 0 Success)] (service_start tracked_dispatchers)"
  have "\<not> isl ?run" by code_simp
  then have "?run = Inr tracked_daemon" unfolding tracked_daemon_def by (auto dest: returned)
  then show ?thesis by (rule service_run_reachable [OF service_reachable.start])
qed

lemma tracked_state:
  "\<exists>s w io r. at (conns tracked_daemon) 0 = Some (s, w, io) \<and> at (plugs tracked_daemon) 0 = Some (Redis_plugin r) \<and>
    session_port s = 9999 \<and> info_puid (handler s) = ''wialon'' \<and> authenticated w \<and> sbuf w = [] \<and> length (api_calls w) = 4 \<and>
    reads io = [Read_until crlf] \<and> writes io = [] \<and> sent io = ''#AL#1'' @ crlf \<and> client_idle (rcon r) \<and>
    \<not> pretty_json r \<and> posted (jobs tracked_daemon) = [] \<and> told tracked_daemon = []"
proof -
  have "(case (at (conns tracked_daemon) 0, at (plugs tracked_daemon) 0) of
      (Some (s, w, io), Some p) \<Rightarrow> (case p of Redis_plugin r \<Rightarrow> session_port s = 9999 \<and> info_puid (handler s) = ''wialon'' \<and> authenticated w \<and>
        sbuf w = [] \<and> length (api_calls w) = 4 \<and> reads io = [Read_until crlf] \<and> writes io = [] \<and> sent io = ''#AL#1'' @ crlf \<and>
        client_idle (rcon r) \<and> \<not> pretty_json r | _ \<Rightarrow> False)
    | _ \<Rightarrow> False) \<and> posted (jobs tracked_daemon) = [] \<and> told tracked_daemon = []"
    by code_simp
  then obtain s w io p where "at (conns tracked_daemon) 0 = Some (s, w, io)" "at (plugs tracked_daemon) 0 = Some p"
    "case p of Redis_plugin r \<Rightarrow> session_port s = 9999 \<and> info_puid (handler s) = ''wialon'' \<and> authenticated w \<and>
        sbuf w = [] \<and> length (api_calls w) = 4 \<and> reads io = [Read_until crlf] \<and> writes io = [] \<and> sent io = ''#AL#1'' @ crlf \<and>
        client_idle (rcon r) \<and> \<not> pretty_json r | _ \<Rightarrow> False"
    "posted (jobs tracked_daemon) = []" "told tracked_daemon = []"
    by (auto split: option.split_asm)
  then show ?thesis by (cases p) auto
qed

lemma record_acknowledged_witness:
  "(\<exists>D1 bytes D2 s w io. fold_res (service_step sample_service_env tracked_factory)
      [Connection 0 (Read_completed Success 10 (''#M#hello'' @ crlf)), Run_task 0] tracked_daemon = Inr D1 \<and>
    fold_res (service_step sample_service_env tracked_factory)
      [Plugin 0 (Redis_event (Written Success (length (bytes :: string)))), Plugin 0 (Redis_event (Read Success (('':1'' @ [CR]) @ [LF]))),
       Connection 0 (Part_sent 0 7), Connection 0 (Write_completed 0 Success)] D1 = Inr D2 \<and>
    told D1 = [] \<and> told D2 = [((0, 4), True)] \<and> at (conns D2) 0 = Some (s, w, io) \<and>
    sent io = (''#AL#1'' @ crlf) @ ''#A'' @ ''M'' @ ''#'' @ ''1'' @ crlf) \<and>
   (\<exists>D1 bytes D2 s w io. fold_res (service_step sample_service_env tracked_factory)
      [Connection 0 (Read_completed Success 10 (''#M#hello'' @ crlf)), Run_task 0] tracked_daemon = Inr D1 \<and>
    fold_res (service_step sample_service_env tracked_factory)
      [Plugin 0 (Redis_event (Written Success (length (bytes :: string)))), Plugin 0 (Redis_event (Read Eof [])),
       Connection 0 (Part_sent 0 7), Connection 0 (Write_completed 0 Success)] D1 = Inr D2 \<and>
    told D1 = [] \<and> told D2 = [((0, 4), False)] \<and> at (conns D2) 0 = Some (s, w, io) \<and>
    sent io = (''#AL#1'' @ crlf) @ ''#A'' @ ''M'' @ ''#'' @ ''0'' @ crlf)"
  (is "?confirmed \<and> ?refused")
proof -
  obtain s w io r where st: "at (conns tracked_daemon) 0 = Some (s, w, io)" "at (plugs tracked_daemon) 0 = Some (Redis_plugin r)"
    "session_port s = 9999" "info_puid (handler s) = ''wialon''" "authenticated w" "sbuf w = []" "length (api_calls w) = 4"
    "reads io = [Read_until crlf]" "writes io = []" "sent io = ''#AL#1'' @ crlf" "client_idle (rcon r)" "\<not> pretty_json r"
    "posted (jobs tracked_daemon) = []" "told tracked_daemon = []" using tracked_state by blast
  have "map disp_id (declared_dispatchers sample_config_env sample_fs sample_plugins (9999, ''wialon'')) = [0]" by code_simp
  with st(3,4) obtain d where d: "declared_dispatchers sample_config_env sample_fs sample_plugins
      (session_port s, info_puid (handler s)) = [d]" "disp_id d = 0" by auto
  have p: "at (plugs tracked_daemon) (disp_id d) = Some (Redis_plugin r)" using st(2) d(2) by simp
  have "length (write_json sample_json_env (record_tree accept_all COMMAND_MESSAGE [''hello'']) False) < 40" by code_simp
  then have small: "length (write_json (json sample_service_env)
      (record_tree (parse_env sample_service_env) COMMAND_MESSAGE [''hello'']) (pretty_json r)) < 2 ^ 32"
    using st(12) by (simp add: sample_service_env_def)
  have k: "map_of estimates ''M'' = Some (1, COMMAND_MESSAGE)" by (simp add: estimates_def)
  have pr: "prints_uint (print_uint sample_service_env)" using sample_prints by (simp add: sample_service_env_def)
  have f: "\<forall>f \<in> set [''hello'']. field_text f" by (simp add: field_text_def sep_free_def)
  have not_False: "\<not> False" by simp
  note goes = record_acknowledged [OF tracked_factory tracked_dispatchers sample_world tracked_reachable st(1,5,6,8,9)
      d(1) p st(11) k _ _ f pr _ small]
  have "verdict (Read Success (('':1'' @ [CR]) @ [LF])) True" "verdict (Read Eof []) False"
    unfolding verdict_def by (rule iffD2 [OF if_P], simp, intro exI conjI, rule refl) (simp_all add: reply_line_def)
  have e: "message ''M'' (join_fields [''hello'']) = ''#M#hello''" "length ''#M#hello'' + 2 = 10" "length (posted (jobs tracked_daemon)) = 0"
    "length (''#A'' @ ''M'' @ ''#'' @ ''1'' @ crlf) = 7" "length (''#A'' @ ''M'' @ ''#'' @ ''0'' @ crlf) = 7"
    using st(13) by (simp_all add: message_def)
  have c: "COMMAND_MESSAGE \<in> {COMMAND_DATA, COMMAND_SHORTDATA, COMMAND_MESSAGE}" "length [''hello''] = 1" by simp_all
  note goes = goes [OF c, unfolded d(2) e(1-3) st(7,10,14) append_Nil]
  show ?thesis
  proof
    from goes [OF \<open>verdict (Read Success _) True\<close>, unfolded if_P [OF TrueI] e(4)] show ?confirmed
      by (elim exE conjE) (intro exI conjI, assumption+)
  next
    from goes [OF \<open>verdict (Read Eof _) False\<close>, unfolded if_not_P [OF not_False] if_P [OF refl] e(5)] show ?refused
      by (elim exE conjE) (intro exI conjI, assumption+)
  qed
qed
text \<open>
  C17. The configuration that comes with the repository works: on a machine whose working directory holds the
  libraries of the four plugins, in any order and beside any other files, and whose system binds the
  bind addresses to the two ports of the settings, the daemon serves every bind
  address on the ports 3333 and 4444 and no other. A client on 3333 gets the echo plugin, whose data would
  go nowhere; a client on 4444 gets the Wialon plugin, and each record is handed to the logger and then to
  redis, with one answer for both.
\<close>

theorem example_configuration:
  assumes "shipped_dir (fs E) (current_path (fs E))" and "reads_ports (config E)" and "\<And>uid s. accepts (config E) uid s"
    and "read_settings E (config_file E) = Some example_config" and "num_threads E \<noteq> 0" and "\<And>m. init_log E m"
    and "binds E [] (List.product (bind_list E) [3333, 4444])"
  shows "\<exists>c d1 d2. core_main E = Served c \<and>
    map (\<lambda>l. (bind_addr l, bind_port l)) (listeners c) = List.product (bind_list E) [3333, 4444] \<and>
    (\<forall>peer. \<exists>s. on_connection (factory c) 3333 (Some peer) = Inr s \<and> info_puid (handler s) = ''echo-example'' \<and>
      (\<forall>t cb io. \<exists>io'. session_process_data s t cb io = Inr io' \<and> posted io' = posted io @ [Callback_false cb])) \<and>
    (\<forall>peer. \<exists>s. on_connection (factory c) 4444 (Some peer) = Inr s \<and> info_puid (handler s) = ''wialon'' \<and>
      (\<forall>t cb io. \<exists>io'. session_process_data s t cb io = Inr io' \<and> posted io' = posted io @
        [Handle_data d1 t (Combined (length (combiners io))), Handle_data d2 t (Combined (length (combiners io)))])) \<and>
    info_puid (disp_info d1) = ''logger-example'' \<and> info_puid (disp_info d2) = ''redis''"
proof -
  obtain c where c: "core_main E = Served c"
    "pf_load_settings (config E) (fs E) example_plugin_settings pf_init = Inr (factory c)"
    "map (\<lambda>l. (bind_addr l, bind_port l)) (listeners c) = List.product (bind_list E) [3333, 4444]"
    "list_port 3333 (translators (factory c)) = [(3333, ''echo-example'')]"
    "list_port 4444 (translators (factory c)) = [(4444, ''wialon'')]"
    by (rule example_serves [OF assms])
  obtain d1 d2 where d: "declared_dispatchers (config E) (fs E) example_plugin_settings (4444, ''wialon'') = [d1, d2]"
    "info_puid (disp_info d1) = ''logger-example''" "info_puid (disp_info d2) = ''redis''"
    using example_dispatchers(1) [OF assms(1,2)] by (auto simp: map_eq_Cons_conv)
  have "\<exists>s. on_connection (factory c) 3333 (Some peer) = Inr s \<and> info_puid (handler s) = ''echo-example'' \<and>
      (\<forall>t cb io. \<exists>io'. session_process_data s t cb io = Inr io' \<and> posted io' = posted io @ [Callback_false cb])" for peer
    using example_connection [OF c(2,4), of peer] session_data_posted [OF c(2)] example_dispatchers(2) [OF assms(1,2)]
    by fastforce
  moreover have "\<exists>s. on_connection (factory c) 4444 (Some peer) = Inr s \<and> info_puid (handler s) = ''wialon'' \<and>
      (\<forall>t cb io. \<exists>io'. session_process_data s t cb io = Inr io' \<and> posted io' = posted io @
        [Handle_data d1 t (Combined (length (combiners io))), Handle_data d2 t (Combined (length (combiners io)))])" for peer
    using example_connection [OF c(2,5), of peer] session_data_posted [OF c(2)] d(1) by fastforce
  ultimately show ?thesis using c(1,3) d(2,3) by blast
qed

definition shipped_daemon :: daemon_env where
  "shipped_daemon = sample_daemon
     \<lparr>config := shipped_config, fs := shipped_fs, read_settings := (\<lambda>f. Some example_config)\<rparr>"

lemmas shipped_defs = shipped_daemon_def shipped_config_def shipped_fs_def

lemma example_configuration_witness:
  "\<exists>c. core_main shipped_daemon = Served c \<and>
    map (\<lambda>l. (bind_addr l, bind_port l)) (listeners c) = [(''0.0.0.0'', 3333), (''0.0.0.0'', 4444)]"
proof -
  let ?dir = "current_path (fs shipped_daemon)"
  have "dir_libraries (fs shipped_daemon) ?dir = [''log.so'', ''redis.so'', ''echo.so'', ''wialon.so'']" by code_simp
  then have dir: "shipped_dir (fs shipped_daemon) ?dir"
    by (auto simp: shipped_dir_def shipped_defs shipped_plugins_def)
  have rest: "reads_ports (config shipped_daemon)" "accepts (config shipped_daemon) uid st" "init_log shipped_daemon m"
    "read_settings shipped_daemon (config_file shipped_daemon) = Some example_config" "num_threads shipped_daemon \<noteq> 0"
    "binds shipped_daemon [] (List.product (bind_list shipped_daemon) [3333, 4444])"
    "bind_list shipped_daemon = [''0.0.0.0'']" for uid st m
    by (simp_all add: shipped_defs sample_daemon_def reads_ports_def)
  from example_configuration [OF dir rest(1,2,4,5,3,6)] obtain c where "core_main shipped_daemon = Served c"
    "map (\<lambda>l. (bind_addr l, bind_port l)) (listeners c) = List.product (bind_list shipped_daemon) [3333, 4444]"
    by (elim exE conjE)
  then show ?thesis unfolding rest(7) by simp
qed

text \<open>
  C28. Any client stops the daemon: whatever id and password it logs in with, an image message whose
  first field is no size makes the parser throw out of the handler of the read, on a thread that
  catches nothing.
\<close>

theorem size_field_stops_daemon:
  assumes "wialon_world E" and "field_text login" and "field_text pass" and "field_text sz"
    and "tree_get_size E (record_tree E COMMAND_IMAGE [sz]) ''sz'' = None" and "0 < m1" and "0 < m2"
  shows "session_run s E
      [Socket_read Success m1 (message ''L'' (join_fields [login, pass]) @ crlf),
       Socket_read Success m2 (message ''I'' sz @ crlf)] (wialon_init buf est multi err cmd0) = Inl Bad_data"
proof -
  obtain w where "session_run s E [Socket_read Success m1 (message ''L'' (join_fields [login, pass]) @ crlf)]
        (wialon_init buf est multi err cmd0) = Inr w"
      "idle_inv w" "authenticated w" "sbuf w = []"
    using session_login [OF assms(1-3,6), of s buf est multi err cmd0] by blast
  with session_image [OF assms(1) this(2-4) assms(4,5,7), of s] show ?thesis
    by (auto simp: and_then_Inr)
qed

lemma size_field_stops_daemon_witness:
  "\<forall>s. session_run s accept_all
    [Socket_read Success 11 (message ''L'' (join_fields [''353'', ''pw'']) @ crlf),
     Socket_read Success 8 (message ''I'' ''many'' @ crlf)] sample_plugin = Inl Bad_data"
proof
  fix s
  have "tree_get_size accept_all (record_tree accept_all COMMAND_IMAGE [''many'']) ''sz'' = None" by code_simp
  then show "session_run s accept_all
    [Socket_read Success 11 (message ''L'' (join_fields [''353'', ''pw'']) @ crlf),
     Socket_read Success 8 (message ''I'' ''many'' @ crlf)] sample_plugin = Inl Bad_data"
    unfolding sample_plugin_def by (intro size_field_stops_daemon [OF sample.wialon_world_axioms])
      (simp_all add: field_text_def sep_free_def)
qed

end
